(* ===== verification/Kern_Prelude.thy ===== *)
theory Kern_Prelude
  imports Main "HOL-Library.Word" "HOL-Library.Monad_Syntax" "HOL-Library.Signed_Division"
begin

text \<open>
  Shared vocabulary of the kernel model: machine integers, error numbers, memory cells,
  bounds-checked indexing, and the generic lemmas the component theories use.

  Conventions used by every theory of the library:
  \<^item> \<^verbatim>\<open>u_int32_t\<close>, \<^verbatim>\<open>size_t\<close> and pointers are \<open>32 word\<close>; \<^verbatim>\<open>int\<close> and \<^verbatim>\<open>off_t\<close> are
    \<open>int\<close> with the 32-bit wrap-around \<open>s32\<close> written where the code computes with them;
  \<^item> a C function is a function to \<open>'a option\<close>: \<open>None\<close> means that the kernel panics
    (a failed \<^verbatim>\<open>assert\<close>, a call of \<^verbatim>\<open>panic\<close>) or that the C program would access memory
    outside an object or use an indeterminate value;
  \<^item> a function that returns an error number and hands back a value through a pointer
    returns \<open>errno + 'a\<close>: \<open>Inl\<close> is a nonzero error number, \<open>Inr\<close> is the return value 0
    with the value handed back;
  \<^item> whether an allocation succeeds is decided by the parameter \<open>km\<close> (a predicate on the
    requested byte count), so that theorems hold for every outcome of \<^verbatim>\<open>kmalloc\<close>.
\<close>

section \<open>Machine integers\<close>

type_synonym u8 = "8 word"
type_synonym u16 = "16 word"
type_synonym u32 = "32 word"

text \<open>Whether \<^verbatim>\<open>kmalloc\<close> of this many bytes succeeds.\<close>
type_synonym kmalloc_oracle = "u32 \<Rightarrow> bool"

text \<open>Conversion to a 32-bit two's complement \<^verbatim>\<open>int\<close>.\<close>
definition s32 :: "int \<Rightarrow> int" where
  "s32 x = (x + 2 ^ 31) mod 2 ^ 32 - 2 ^ 31"

named_theorems c_arith \<open>C integer arithmetic where no wrap-around happens\<close>

lemma s32_id [c_arith, simp]: "- (2 ^ 31) \<le> x \<Longrightarrow> x < 2 ^ 31 \<Longrightarrow> s32 x = x"
  by (simp add: s32_def)

lemma s32_bounds: "- (2 ^ 31) \<le> s32 x" "s32 x < 2 ^ 31"
  by (simp_all add: s32_def)

lemma s32_s32_add [simp]: "s32 (s32 a + b) = s32 (a + b)"
proof -
  have "(s32 a + b + 2 ^ 31) mod 2 ^ 32 = (a + b + 2 ^ 31) mod 2 ^ 32"
    unfolding s32_def by (simp add: mod_simps algebra_simps)
  then show ?thesis by (simp add: s32_def)
qed

lemma s32_add_s32 [simp]: "s32 (b + s32 a) = s32 (a + b)"
  using s32_s32_add [of a b] by (simp add: add.commute)

lemma s32_double:
  assumes "s32 (2 * x) > 0" "0 < x" "x < 2 ^ 31"
  shows "s32 (2 * x) = 2 * x"
proof (cases "2 * x < 2 ^ 31")
  case True
  then show ?thesis using assms by simp
next
  case False
  then have "(2 * x + 2 ^ 31) mod 2 ^ 32 = 2 * x + 2 ^ 31 - 2 ^ 32"
    using assms(2,3) by (subst mod_pos_geq) (simp_all add: mod_pos_pos_trivial)
  then show ?thesis using assms False by (simp add: s32_def)
qed

lemma smod_nonneg [c_arith]: "0 \<le> (a::int) \<Longrightarrow> 0 < b \<Longrightarrow> a smod b = a mod b"
  by (simp add: signed_modulo_int_def signed_divide_int_def sgn_if minus_div_mult_eq_mod)

lemma sdiv_nonneg [c_arith]: "0 \<le> (a::int) \<Longrightarrow> 0 < b \<Longrightarrow> a sdiv b = a div b"
  by (simp add: signed_divide_int_def sgn_if)

lemma unat_u32_less: "unat (w :: u32) < 2 ^ 32"
  by (rule order_less_le_trans [OF unsigned_less]) simp

lemma unat_of_nat_u32 [c_arith]: "n < 2 ^ 32 \<Longrightarrow> unat (of_nat n :: u32) = n"
  by (simp add: unat_of_nat)

section \<open>Error numbers\<close>

datatype errno =
    EINVAL | EFAULT | ENAMETOOLONG | ENOMEM | EIO | ENOENT | ENOTDIR | EISDIR | EEXIST
  | EXDEV | EAGAIN | ESPIPE | EUNIMP | ENXIO | ENODEV | EBUSY | EIOCTL | ENOTEMPTY
  | ERANGE | ENOSPC | EMFILE | ENFILE | ENOSYS | ENOEXEC | E2BIG | EBADF

section \<open>Assertions, cells and indexing\<close>

definition kassert :: "bool \<Rightarrow> unit option" where
  "kassert b = (if b then Some () else None)"

lemma kassert_simps [simp]: "kassert True = Some ()" "kassert False = None"
  by (simp_all add: kassert_def)

lemma kassert_eq_Some [simp]: "kassert b = Some u \<longleftrightarrow> b"
  by (simp add: kassert_def)

text \<open>A memory cell holds a value or is still indeterminate after \<^verbatim>\<open>kmalloc\<close>.\<close>
datatype 'a cell = Indet | Val (cell_val: 'a)

definition read_cell :: "'a cell \<Rightarrow> 'a option" where
  "read_cell c = (case c of Indet \<Rightarrow> None | Val x \<Rightarrow> Some x)"

lemma read_cell_simps [simp]: "read_cell Indet = None" "read_cell (Val x) = Some x"
  by (simp_all add: read_cell_def)

text \<open>\<^verbatim>\<open>a[i]\<close> and \<^verbatim>\<open>a[i] = x\<close> on an object with \<open>length xs\<close> elements.\<close>
definition cnth :: "'a list \<Rightarrow> int \<Rightarrow> 'a option" where
  "cnth xs i = (if 0 \<le> i \<and> i < int (length xs) then Some (xs ! nat i) else None)"

definition cupd :: "'a list \<Rightarrow> int \<Rightarrow> 'a \<Rightarrow> 'a list option" where
  "cupd xs i x = (if 0 \<le> i \<and> i < int (length xs) then Some (xs[nat i := x]) else None)"

lemma cnth_in [simp]: "0 \<le> i \<Longrightarrow> i < int (length xs) \<Longrightarrow> cnth xs i = Some (xs ! nat i)"
  by (simp add: cnth_def)

lemma cupd_in [simp]: "0 \<le> i \<Longrightarrow> i < int (length xs) \<Longrightarrow> cupd xs i x = Some (xs[nat i := x])"
  by (simp add: cupd_def)

lemma cnth_word [simp]: "unat i < length xs \<Longrightarrow> cnth xs (uint i) = Some (xs ! unat i)"
proof -
  assume "unat i < length xs"
  then have "int (unat i) < int (length xs)" by (simp only: of_nat_less_iff)
  from cnth_in [OF _ this] show ?thesis by simp
qed

lemma cupd_word [simp]: "unat i < length xs \<Longrightarrow> cupd xs (uint i) x = Some (xs[unat i := x])"
proof -
  assume "unat i < length xs"
  then have "int (unat i) < int (length xs)" by (simp only: of_nat_less_iff)
  from cupd_in [OF _ this] show ?thesis by simp
qed

lemma cnth_eq_Some: "cnth xs i = Some x \<longleftrightarrow> 0 \<le> i \<and> i < int (length xs) \<and> x = xs ! nat i"
  by (auto simp: cnth_def)

text \<open>
  The number of pointer-sized cells in a block of \<open>n * sizeof(void *)\<close> bytes; the product
  is computed in \<^verbatim>\<open>size_t\<close> and wraps.
\<close>
definition ptr_bytes :: "int \<Rightarrow> u32" where
  "ptr_bytes n = word_of_int n * 4"

definition ptr_cells :: "int \<Rightarrow> nat" where
  "ptr_cells n = unat (ptr_bytes n) div 4"

lemma unat_ptr_bytes: "0 \<le> n \<Longrightarrow> n < 2 ^ 30 \<Longrightarrow> unat (ptr_bytes n) = nat (n * 4)"
proof -
  assume n: "0 \<le> n" "n < 2 ^ 30"
  have "ptr_bytes n = word_of_int (n * 4)"
    by (simp add: ptr_bytes_def)
  then have "uint (ptr_bytes n) = n * 4"
    using n by (simp only: uint_word_of_int) (simp add: mod_pos_pos_trivial)
  then show ?thesis
    by (metis unat_eq_nat_uint)
qed

lemma ptr_cells_small: "0 \<le> n \<Longrightarrow> n < 2 ^ 30 \<Longrightarrow> ptr_cells n = nat n"
  by (simp add: ptr_cells_def unat_ptr_bytes nat_mult_distrib)

text \<open>
  The kernel heap lies in the 512 MB of \<^verbatim>\<open>kseg0\<close> (\<^verbatim>\<open>arch/mips/include/vm.h\<close>), so no
  allocation of that size or more succeeds.
\<close>
definition km_kseg0 :: "kmalloc_oracle \<Rightarrow> bool" where
  "km_kseg0 km \<longleftrightarrow> (\<forall>b. km b \<longrightarrow> b < 0x20000000)"

lemma km_kseg0_ptr:
  assumes "km_kseg0 km" "km (ptr_bytes n)" "0 \<le> n" "n < 2 ^ 30"
  shows "n < 2 ^ 27"
proof -
  have "unat (ptr_bytes n) < 0x20000000"
    using assms(1,2) by (auto simp: km_kseg0_def word_less_nat_alt)
  then show ?thesis using assms(3,4) by (simp add: unat_ptr_bytes)
qed

text \<open>
  \<^verbatim>\<open>memmove\<close> of \<open>n\<close> elements within one object, from index \<open>src\<close> to index \<open>dst\<close>.
\<close>
definition cmemmove :: "'a list \<Rightarrow> nat \<Rightarrow> nat \<Rightarrow> nat \<Rightarrow> 'a list option" where
  "cmemmove xs dst src n =
     (if dst + n \<le> length xs \<and> src + n \<le> length xs
      then Some (take dst xs @ take n (drop src xs) @ drop (dst + n) xs) else None)"

lemma map_Some_the: "None \<notin> set bs \<Longrightarrow> map Some (map the bs) = bs"
  by (induction bs) auto

text \<open>
  \<^verbatim>\<open>memcpy\<close> of \<open>n\<close> elements from index \<open>soff\<close> of one object to index \<open>doff\<close> of another.
\<close>
definition cmemcpy :: "'a list \<Rightarrow> nat \<Rightarrow> 'a list \<Rightarrow> nat \<Rightarrow> nat \<Rightarrow> 'a list option" where
  "cmemcpy dst doff src soff n =
     (if doff + n \<le> length dst \<and> soff + n \<le> length src
      then Some (take doff dst @ take n (drop soff src) @ drop (doff + n) dst) else None)"

text \<open>A list with a stretch replaced.\<close>
definition patch :: "'a list \<Rightarrow> nat \<Rightarrow> 'a list \<Rightarrow> 'a list" where
  "patch xs off ys = take off xs @ ys @ drop (off + length ys) xs"

lemma length_patch [simp]: "off + length ys \<le> length xs \<Longrightarrow> length (patch xs off ys) = length xs"
  by (simp add: patch_def)

lemma patch_Nil [simp]: "patch xs off [] = xs"
  by (simp add: patch_def)

lemma nth_patch:
  "off + length ys \<le> length xs \<Longrightarrow> i < length xs \<Longrightarrow>
    patch xs off ys ! i = (if off \<le> i \<and> i < off + length ys then ys ! (i - off) else xs ! i)"
  by (auto simp: patch_def nth_append min_def)

lemma patch_patch:
  "off + length ys + length zs \<le> length xs \<Longrightarrow>
    patch (patch xs off ys) (off + length ys) zs = patch xs off (ys @ zs)"
  by (rule nth_equalityI) (auto simp: nth_patch nth_append)

lemma take_drop_patch:
  "off + n \<le> length xs \<Longrightarrow> length ys \<le> n \<Longrightarrow>
    take n (drop off (patch xs off ys)) = ys @ drop (length ys) (take n (drop off xs))"
  by (simp add: patch_def drop_take add.commute)

lemma drop_patch:
  "off + length ys \<le> length xs \<Longrightarrow> drop (off + length ys) (patch xs off ys) = drop (off + length ys) xs"
  by (simp add: patch_def)

lemma cmemcpy_ok:
  "doff + n \<le> length dst \<Longrightarrow> soff + n \<le> length src \<Longrightarrow>
    cmemcpy dst doff src soff n = Some (patch dst doff (take n (drop soff src)))"
  by (simp add: cmemcpy_def patch_def)

end
