(* ===== verification/Kern_Hashtable.thy ===== *)
theory Kern_Hashtable
  imports Kern_Prelude
begin

text \<open>
  The hash table with linear probing of \<^verbatim>\<open>kern/lib/hashtable.c\<close>, which holds the process table
  (\<^verbatim>\<open>thread_fork\<close> uses the slot of a thread as its process id). A slot is a \<^verbatim>\<open>NULL\<close> pointer, the
  address of the \<^verbatim>\<open>deleted\<close> member, or an allocated \<^verbatim>\<open>struct hashentry\<close>, whose key may be \<^verbatim>\<open>NULL\<close> and
  whose entry is indeterminate until it is set. The \<^verbatim>\<open>deleted\<close> member is never initialised, so looking at its key has no defined
  result. Keys are the characters before the terminating zero.
\<close>

section \<open>Model\<close>

datatype 'a hslot = HNull | HDeleted | HEntry "u8 list option" "'a cell"

record 'a hashtable =
  h_size :: int
  h_table :: "'a hslot list"

text \<open>The loop adds each character as a signed \<^verbatim>\<open>char\<close>.\<close>
definition hashfunction :: "u8 list \<Rightarrow> u32" where
  "hashfunction key = foldl (\<lambda>hash c. hash * 101 + scast c) 101 key"

text \<open>The structure has 28 bytes; \<open>n\<close> is the length of the name. The slots are written up to \<open>sz\<close>.\<close>
definition ht_create :: "kmalloc_oracle \<Rightarrow> int \<Rightarrow> nat \<Rightarrow> (unit + 'a hashtable) option" where
  "ht_create km sz n =
     (if \<not> km 28 then Some (Inl ())
      else if \<not> km (of_nat (n + 1)) then Some (Inl ())
      else if \<not> km (ptr_bytes sz) then Some (Inl ())
      else do {
        kassert (sz \<le> int (ptr_cells sz));
        Some (Inr \<lparr>h_size = sz, h_table = replicate (nat sz) HNull\<rparr>)
      })"

subsection \<open>Insertion\<close>

text \<open>\<^verbatim>\<open>(index + offset) % size\<close> in unsigned arithmetic; division by zero has no result.\<close>
definition umod_slot :: "u32 \<Rightarrow> int \<Rightarrow> int \<Rightarrow> int option" where
  "umod_slot index offset sz = do {
     kassert (sz \<noteq> 0);
     Some (uint ((index + word_of_int offset) mod word_of_int sz))
   }"

text \<open>The probing loop of \<^verbatim>\<open>ht_add_element\<close>; it looks at the slot before it compares the offset.\<close>
partial_function (option) probe_free :: "'a hashtable \<Rightarrow> u32 \<Rightarrow> int \<Rightarrow> int option" where
  "probe_free ht index offset = do {
     i \<leftarrow> umod_slot index offset (h_size ht);
     slot \<leftarrow> cnth (h_table ht) i;
     if slot \<noteq> HNull \<and> slot \<noteq> HDeleted \<and> offset \<noteq> h_size ht
     then probe_free ht index (s32 (offset + 1))
     else Some offset
   }"

definition ht_add_element :: "kmalloc_oracle \<Rightarrow> 'a hashtable \<Rightarrow> u8 list \<Rightarrow> 'a \<Rightarrow> (int \<times> 'a hashtable) option" where
  "ht_add_element km ht key ptr = do {
     let sz = h_size ht;
     i \<leftarrow> umod_slot (hashfunction key) 0 sz;
     let index = word_of_int i;
     offset \<leftarrow> probe_free ht index 0;
     if offset = sz then Some (-1, ht)
     else do {
       index \<leftarrow> umod_slot index offset sz;
       if \<not> km 8
       then do {
         t \<leftarrow> cupd (h_table ht) index HNull;
         Some (-1, ht\<lparr>h_table := t\<rparr>)
       }
       else if \<not> km (of_nat (length key + 1))
       then do {
         t \<leftarrow> cupd (h_table ht) index (HEntry None Indet);
         Some (-1, ht\<lparr>h_table := t\<rparr>)
       }
       else do {
         t \<leftarrow> cupd (h_table ht) index (HEntry (Some key) (Val ptr));
         Some (s32 index, ht\<lparr>h_table := t\<rparr>)
       }
     }
   }"

subsection \<open>By index\<close>

text \<open>
  The blocks that a deletion frees: the entry itself when \<open>destroy\<close> is set (reading the
  field needs it to be determinate), the key and the \<^verbatim>\<open>struct hashentry\<close>. Only the slot remains visible.
\<close>
definition ht_drop :: "'a hashtable \<Rightarrow> int \<Rightarrow> 'a hslot \<Rightarrow> bool \<Rightarrow> (int \<times> 'a hashtable) option" where
  "ht_drop ht index slot destroy =
     (case slot of
        HNull \<Rightarrow> None
      | HDeleted \<Rightarrow> None
      | HEntry k e \<Rightarrow> do {
          kassert (destroy \<longrightarrow> e \<noteq> Indet);
          t \<leftarrow> cupd (h_table ht) index HDeleted;
          Some (0, ht\<lparr>h_table := t\<rparr>)
        })"

definition ht_delete_element_by_index :: "'a hashtable \<Rightarrow> int \<Rightarrow> bool \<Rightarrow> (int \<times> 'a hashtable) option" where
  "ht_delete_element_by_index ht index destroy = do {
     kassert (index < h_size ht \<and> index > 0);
     slot \<leftarrow> cnth (h_table ht) index;
     if slot = HNull \<or> slot = HDeleted then Some (-1, ht)
     else ht_drop ht index slot destroy
   }"

definition ht_retrieve_element_by_index :: "'a hashtable \<Rightarrow> int \<Rightarrow> 'a option option" where
  "ht_retrieve_element_by_index ht index = do {
     slot \<leftarrow> cnth (h_table ht) index;
     (case slot of HEntry k e \<Rightarrow> map_option Some (read_cell e) | _ \<Rightarrow> Some None)
   }"

subsection \<open>By key\<close>

text \<open>\<^verbatim>\<open>(index + offset) % size\<close> in signed arithmetic, where overflow and division by zero have no result.\<close>
definition smod_slot :: "int \<Rightarrow> int \<Rightarrow> int \<Rightarrow> int option" where
  "smod_slot index offset sz = do {
     kassert (sz \<noteq> 0 \<and> index + offset < 2 ^ 31);
     Some ((index + offset) smod sz)
   }"

text \<open>The search loop of the two functions; \<^verbatim>\<open>strcmp\<close> with the key of \<^verbatim>\<open>deleted\<close> or with \<^verbatim>\<open>NULL\<close> has no result.\<close>
partial_function (option) probe_key :: "'a hashtable \<Rightarrow> int \<Rightarrow> u8 list \<Rightarrow> int \<Rightarrow> int option" where
  "probe_key ht index key offset = do {
     i \<leftarrow> smod_slot index offset (h_size ht);
     slot \<leftarrow> cnth (h_table ht) i;
     case slot of
       HNull \<Rightarrow> Some offset
     | HDeleted \<Rightarrow> None
     | HEntry k e \<Rightarrow> do {
         k \<leftarrow> k;
         if k \<noteq> key \<and> offset \<noteq> h_size ht then probe_key ht index key (s32 (offset + 1)) else Some offset
       }
   }"

text \<open>The slot of the key, as the two functions compute it: \<^verbatim>\<open>index + offset\<close>, not reduced.\<close>
definition find_key :: "'a hashtable \<Rightarrow> u8 list \<Rightarrow> int option option" where
  "find_key ht key = do {
     let index = sint (hashfunction key);
     offset \<leftarrow> probe_key ht index key 0;
     i \<leftarrow> smod_slot index offset (h_size ht);
     slot \<leftarrow> cnth (h_table ht) i;
     Some (if offset = h_size ht \<or> slot = HNull then None else Some (index + offset))
   }"

definition ht_delete_element_by_key :: "'a hashtable \<Rightarrow> u8 list \<Rightarrow> bool \<Rightarrow> (int \<times> 'a hashtable) option" where
  "ht_delete_element_by_key ht key destroy = do {
     r \<leftarrow> find_key ht key;
     case r of
       None \<Rightarrow> Some (-1, ht)
     | Some index \<Rightarrow> do {
         slot \<leftarrow> cnth (h_table ht) index;
         ht_drop ht index slot destroy
       }
   }"

definition ht_retrieve_element_by_key :: "'a hashtable \<Rightarrow> u8 list \<Rightarrow> 'a option option" where
  "ht_retrieve_element_by_key ht key = do {
     r \<leftarrow> find_key ht key;
     case r of
       None \<Rightarrow> Some None
     | Some index \<Rightarrow> do {
         slot \<leftarrow> cnth (h_table ht) index;
         case slot of HEntry k e \<Rightarrow> map_option Some (read_cell e) | _ \<Rightarrow> None
       }
   }"

section \<open>The table as a map from slots to entries\<close>

definition ht_inv :: "'a hashtable \<Rightarrow> bool" where
  "ht_inv ht \<longleftrightarrow> 0 < h_size ht \<and> h_size ht < 2 ^ 30 \<and> h_size ht = int (length (h_table ht))"

definition entries :: "'a hashtable \<Rightarrow> nat \<Rightarrow> (u8 list \<times> 'a) option" where
  "entries ht i =
     (if i < length (h_table ht)
      then (case h_table ht ! i of HEntry (Some k) (Val x) \<Rightarrow> Some (k, x) | _ \<Rightarrow> None) else None)"

definition free_slot :: "'a hashtable \<Rightarrow> nat \<Rightarrow> bool" where
  "free_slot ht i \<longleftrightarrow> h_table ht ! i = HNull \<or> h_table ht ! i = HDeleted"

text \<open>The slots in the order in which a key is probed.\<close>
definition home :: "'a hashtable \<Rightarrow> u8 list \<Rightarrow> nat" where
  "home ht key = unat (hashfunction key) mod length (h_table ht)"

definition probe_order :: "'a hashtable \<Rightarrow> u8 list \<Rightarrow> nat list" where
  "probe_order ht key = map (\<lambda>j. (home ht key + j) mod length (h_table ht)) [0..<length (h_table ht)]"

lemma umod_slot_ok:
  assumes "ht_inv ht" "unat index < length (h_table ht)" "k \<le> length (h_table ht)"
  shows "umod_slot index (int k) (h_size ht) = Some (int ((unat index + k) mod length (h_table ht)))"
proof -
  let ?n = "length (h_table ht)"
  have n: "h_size ht = int ?n" "0 < ?n" "?n < 2 ^ 30" using assms(1) by (auto simp: ht_inv_def)
  have "unat (index + of_nat k) = unat index + k"
    using assms(2,3) n(3) by (subst unat_word_ariths) (simp add: unat_of_nat take_bit_nat_eq_self_iff)
  moreover have "unat (of_nat ?n :: u32) = ?n" using n(3) by (simp add: unat_of_nat)
  ultimately have "unat ((index + of_nat k) mod of_nat ?n) = (unat index + k) mod ?n" by (simp add: unat_mod)
  then have "uint ((index + of_nat k) mod of_nat ?n) = int ((unat index + k) mod ?n)" by (metis uint_nat)
  then show ?thesis using n by (simp add: umod_slot_def)
qed

lemma probe_free_ok:
  assumes "ht_inv ht" "unat index < length (h_table ht)" "k \<le> length (h_table ht)"
  shows "probe_free ht index (int k) =
    Some (int (k + length (takeWhile (\<lambda>i. \<not> free_slot ht i)
      (map (\<lambda>j. (unat index + j) mod length (h_table ht)) [k..<length (h_table ht)]))))"
  using assms(3)
proof (induction "length (h_table ht) - k" arbitrary: k)
  case 0
  let ?n = "length (h_table ht)"
  have n: "h_size ht = int ?n" "0 < ?n" using assms(1) by (auto simp: ht_inv_def)
  have "k = ?n" using 0 by simp
  then show ?case using umod_slot_ok [OF assms(1,2), of k] n assms(2) by (simp add: probe_free.simps)
next
  case (Suc m)
  let ?n = "length (h_table ht)" and ?i = "(unat index + k) mod length (h_table ht)"
  have n: "h_size ht = int ?n" "0 < ?n" "?n < 2 ^ 30" "k < ?n" using assms(1) Suc.hyps(2) by (auto simp: ht_inv_def)
  have u: "umod_slot index (int k) (h_size ht) = Some (int ?i)" using umod_slot_ok [OF assms(1,2) Suc.prems] .
  have c: "cnth (h_table ht) (int ?i) = Some (h_table ht ! ?i)" using n(2) by simp
  have s: "s32 (int k + 1) = int k + 1" using n(3,4) by simp
  have r: "[k..<?n] = k # [Suc k..<?n]" using n(4) by (rule upt_conv_Cons)
  have IH: "probe_free ht index (int k + 1) = Some (int k + 1 + int (length (takeWhile (\<lambda>i. \<not> free_slot ht i)
      (map (\<lambda>j. (unat index + j) mod ?n) [Suc k..<?n]))))"
    using Suc.hyps(1) [of "Suc k"] Suc.hyps(2) n(4) by (simp add: algebra_simps)
  show ?case
    by (subst probe_free.simps) (use n u c s IH in \<open>simp add: r free_slot_def algebra_simps\<close>)
qed

lemma takeWhile_find:
  "find P xs = (if length (takeWhile (\<lambda>x. \<not> P x) xs) = length xs then None else Some (xs ! length (takeWhile (\<lambda>x. \<not> P x) xs)))"
  by (induction xs) auto

lemma probe_order_set: "ht_inv ht \<Longrightarrow> set (probe_order ht key) = {0..<length (h_table ht)}"
proof -
  assume "ht_inv ht"
  then have "0 < length (h_table ht)" by (auto simp: ht_inv_def)
  then have "probe_order ht key = rotate (home ht key) [0..<length (h_table ht)]"
    unfolding probe_order_def by (intro nth_equalityI) (auto simp: nth_rotate)
  then show ?thesis by simp
qed

lemma home_word:
  assumes "ht_inv ht"
  shows "umod_slot (hashfunction key) 0 (h_size ht) = Some (int (home ht key))"
    "unat (word_of_nat (home ht key) :: u32) = home ht key" "home ht key < length (h_table ht)"
proof -
  let ?n = "length (h_table ht)"
  have n: "h_size ht = int ?n" "0 < ?n" "?n < 2 ^ 30" using assms by (auto simp: ht_inv_def)
  have "unat (of_nat ?n :: u32) = ?n" using n(3) by (simp add: unat_of_nat)
  then have "unat (hashfunction key mod of_nat ?n) = home ht key" by (simp add: unat_mod home_def)
  then have "uint (hashfunction key mod of_nat ?n) = int (home ht key)" by (metis uint_nat)
  then show "umod_slot (hashfunction key) 0 (h_size ht) = Some (int (home ht key))" using n by (simp add: umod_slot_def)
  show h: "home ht key < ?n" using n(2) by (simp add: home_def)
  then show "unat (word_of_nat (home ht key) :: u32) = home ht key" using n(3) by (simp add: unat_of_nat)
qed

lemma find_probe_order:
  assumes "ht_inv ht"
  obtains (full) "find (free_slot ht) (probe_order ht key) = None" "\<forall>i<length (h_table ht). \<not> free_slot ht i"
      "probe_free ht (word_of_int (int (home ht key))) 0 = Some (h_size ht)"
  | (slot) k i where "find (free_slot ht) (probe_order ht key) = Some i" "free_slot ht i" "i < length (h_table ht)"
      "probe_free ht (word_of_int (int (home ht key))) 0 = Some (int k)" "int k < h_size ht"
      "umod_slot (word_of_int (int (home ht key))) (int k) (h_size ht) = Some (int i)"
proof -
  let ?n = "length (h_table ht)" and ?w = "word_of_int (int (home ht key)) :: u32"
  note h = home_word [OF assms, of key]
  have w: "unat ?w < ?n" and n: "h_size ht = int ?n" using h assms by (simp_all add: ht_inv_def)
  let ?k = "length (takeWhile (\<lambda>i. \<not> free_slot ht i) (probe_order ht key))"
  have pf: "probe_free ht ?w 0 = Some (int ?k)"
    using probe_free_ok [OF assms w, of 0] by (simp add: probe_order_def h(2))
  have len: "length (probe_order ht key) = ?n" "?k \<le> length (probe_order ht key)"
    by (simp add: probe_order_def) (rule length_takeWhile_le)
  show thesis
  proof (cases "?k = ?n")
    case True
    then have no: "find (free_slot ht) (probe_order ht key) = None" by (simp add: takeWhile_find len)
    then have "\<forall>i<?n. \<not> free_slot ht i" using probe_order_set [OF assms, of key] by (auto simp: find_None_iff)
    then show thesis using full no pf True n by simp
  next
    case False
    then have k: "?k < ?n" using len by simp
    have fi: "find (free_slot ht) (probe_order ht key) = Some (probe_order ht key ! ?k)" using False by (simp add: takeWhile_find len)
    have "umod_slot ?w (int ?k) (h_size ht) = Some (int (probe_order ht key ! ?k))"
      using umod_slot_ok [OF assms w, of ?k] k h(2) by (simp add: probe_order_def)
    moreover have "free_slot ht (probe_order ht key ! ?k)" using fi by (auto simp: find_Some_iff)
    moreover have "probe_order ht key ! ?k < ?n" using probe_order_set [OF assms, of key] nth_mem [of ?k "probe_order ht key"] k len by auto
    ultimately show thesis using slot [OF fi _ _ pf] k n by simp
  qed
qed

lemma entries_update:
  "i < length (h_table ht) \<Longrightarrow> entries (ht\<lparr>h_table := (h_table ht)[i := x]\<rparr>) =
    (entries ht)(i := (case x of HEntry (Some k) (Val v) \<Rightarrow> Some (k, v) | _ \<Rightarrow> None))"
  by (rule ext) (auto simp: entries_def)

lemma entries_free: "free_slot ht i \<Longrightarrow> entries ht i = None"
  by (auto simp: entries_def free_slot_def)

lemma ht_inv_update [simp]: "ht_inv (ht\<lparr>h_table := (h_table ht)[i := x]\<rparr>) = ht_inv ht"
  by (simp add: ht_inv_def)

lemma ht_add_ok:
  assumes inv: "ht_inv ht"
  shows "ht_add_element km ht key ptr =
    (case find (free_slot ht) (probe_order ht key) of
       None \<Rightarrow> Some (-1, ht)
     | Some i \<Rightarrow> Some (if km 8 \<and> km (of_nat (length key + 1)) then int i else -1,
         ht\<lparr>h_table := (h_table ht)[i := if \<not> km 8 then HNull else if \<not> km (of_nat (length key + 1)) then HEntry None Indet
           else HEntry (Some key) (Val ptr)]\<rparr>))"
using inv
proof (cases rule: find_probe_order [where key = key])
  case full
  then show ?thesis using home_word(1) [OF inv, of key] by (simp add: ht_add_element_def)
next
  case (slot k i)
  have "s32 (int i) = int i" using slot(3) inv by (simp add: ht_inv_def)
  then show ?thesis using home_word(1) [OF inv, of key] slot by (simp add: ht_add_element_def)
qed

lemma probe_key_next:
  assumes "probe_key ht index key offset = Some r"
  shows "r = offset \<or> offset \<noteq> h_size ht \<and> probe_key ht index key (s32 (offset + 1)) = Some r"
proof -
  from assms obtain i slot where "cnth (h_table ht) i = Some slot"
    and s: "(case slot of HNull \<Rightarrow> Some offset | HDeleted \<Rightarrow> None
      | HEntry k e \<Rightarrow> do {
          k \<leftarrow> k;
          if k \<noteq> key \<and> offset \<noteq> h_size ht then probe_key ht index key (s32 (offset + 1)) else Some offset
        }) = Some r"
    by (subst (asm) probe_key.simps) (simp only: bind_eq_Some_conv, elim exE conjE, rule that)
  from s show ?thesis by (cases slot) (auto simp: bind_eq_Some_conv split: if_splits)
qed

lemma probe_key_bounds:
  assumes "0 \<le> offset" "offset \<le> h_size ht" "h_size ht < 2 ^ 30" "probe_key ht index key offset = Some r"
  shows "offset \<le> r \<and> r \<le> h_size ht"
  using assms
proof (induction "nat (h_size ht - offset)" arbitrary: offset)
  case 0
  then show ?case using probe_key_next [OF 0(5)] by auto
next
  case (Suc m)
  then have "s32 (offset + 1) = offset + 1" "m = nat (h_size ht - (offset + 1))" "offset < h_size ht" by auto
  with Suc.hyps(1) [of "offset + 1"] Suc.prems probe_key_next [OF Suc.prems(4)] show ?case by force
qed

lemma smod_neg: "- b < a \<Longrightarrow> a < 0 \<Longrightarrow> (a::int) smod b = a"
  by (simp add: signed_modulo_int_def signed_divide_int_def sgn_if)

text \<open>A slot that the search by key reports is outside the table unless the hash value is itself a slot.\<close>
lemma find_key_outside:
  assumes inv: "ht_inv ht" and hash: "\<not> (0 \<le> sint (hashfunction key) \<and> sint (hashfunction key) < h_size ht)"
    and fk: "find_key ht key = Some (Some i)"
  shows "cnth (h_table ht) i = None"
proof -
  let ?h = "sint (hashfunction key)"
  have n: "h_size ht = int (length (h_table ht))" "0 < h_size ht" "h_size ht < 2 ^ 30" using inv by (auto simp: ht_inv_def)
  from fk obtain r where r: "probe_key ht ?h key 0 = Some r" "i = ?h + r" "r \<noteq> h_size ht"
    by (auto simp: find_key_def Let_def bind_eq_Some_conv split: if_splits)
  have b: "0 \<le> r" "r < h_size ht" using probe_key_bounds [OF _ _ n(3) r(1)] n(2) r(3) by auto
  have "\<not> (- h_size ht < ?h \<and> ?h < 0)"
  proof
    assume "- h_size ht < ?h \<and> ?h < 0"
    then have "smod_slot ?h 0 (h_size ht) = Some ?h \<and> cnth (h_table ht) ?h = None"
      using n(2) by (simp add: smod_slot_def smod_neg cnth_def)
    then show False using r(1) by (simp add: probe_key.simps)
  qed
  then have "i < 0 \<or> h_size ht \<le> i" using hash b r(2) by linarith
  then show ?thesis using n(1) by (auto simp: cnth_def)
qed

section \<open>Properties\<close>

text \<open>A table of four slots; 1 is taken, 2 was deleted.\<close>
definition ht_ex :: "nat hashtable" where
  "ht_ex = \<lparr>h_size = 4, h_table = [HNull, HEntry (Some [100]) (Val 7), HDeleted, HNull]\<rparr>"

lemma ht_ex_inv: "ht_inv ht_ex" by (simp add: ht_inv_def ht_ex_def)



text \<open>
  C39. An entry that was inserted is found at the index that the insertion returned, and can be
  deleted there: afterwards nothing is found at that index and all other entries are as they were.
  The exception is index 0, which insertion hands out but deletion refuses with a panic.
\<close>
theorem ht_add_retrieve_delete:
  assumes "ht_inv ht" "ht_add_element km ht key ptr = Some (r, ht')" "r \<noteq> -1"
  shows "ht_retrieve_element_by_index ht' r = Some (Some ptr)
    \<and> (if r = 0 then ht_delete_element_by_index ht' r destroy = None
       else \<exists>ht''. ht_delete_element_by_index ht' r destroy = Some (0, ht'')
         \<and> ht_retrieve_element_by_index ht'' r = Some None \<and> entries ht'' = entries ht)"
using assms(1)
proof (cases rule: find_probe_order [where key = key])
  case full
  then show ?thesis using assms by (simp add: ht_add_ok [OF assms(1)])
next
  case (slot k i)
  have n: "h_size ht = int (length (h_table ht))" using assms(1) by (simp add: ht_inv_def)
  have r: "r = int i" "ht' = ht\<lparr>h_table := (h_table ht)[i := HEntry (Some key) (Val ptr)]\<rparr>"
    using assms slot(1) by (auto simp: ht_add_ok [OF assms(1)] split: if_splits)
  moreover have "ht_retrieve_element_by_index ht' r = Some (Some ptr)"
    using slot(3) r by (simp add: ht_retrieve_element_by_index_def)
  moreover have "entries (ht\<lparr>h_table := (h_table ht)[i := HDeleted]\<rparr>) = entries ht"
    using slot(3) entries_free [OF slot(2)] by (simp add: entries_update fun_upd_idem)
  ultimately show ?thesis using slot(3) n
    by (simp add: ht_delete_element_by_index_def ht_drop_def ht_retrieve_element_by_index_def)
qed

theorem ht_add_retrieve_delete_witness:
  "\<exists>ht'. ht_add_element (\<lambda>_. True) ht_ex [97] 9 = Some (2, ht')
    \<and> ht_retrieve_element_by_index ht' 2 = Some (Some 9) \<and> (\<exists>ht''. ht_delete_element_by_index ht' 2 False = Some (0, ht''))"
proof -
  have "hashfunction [97] = 10298" by (simp add: hashfunction_def)
  then have "probe_order ht_ex [97] = [2, 3, 0, 1]" by (simp add: probe_order_def home_def ht_ex_def upt_rec)
  then have "find (free_slot ht_ex) (probe_order ht_ex [97]) = Some 2" by (simp add: free_slot_def ht_ex_def)
  then have "\<exists>ht'. ht_add_element (\<lambda>_. True) ht_ex [97] 9 = Some (2, ht')" by (simp add: ht_add_ok [OF ht_ex_inv])
  then obtain ht' where "ht_add_element (\<lambda>_. True) ht_ex [97] 9 = Some (2, ht')" by blast
  with ht_add_retrieve_delete [OF ht_ex_inv this, of False] show ?thesis by auto
qed

text \<open>
  C40. Retrieval and deletion by key do not find entries: unless the hash value of the key, as a signed integer, is
  itself below the size of the table, they never return or delete an entry, not even one that
  insertion has stored under this key; with the size 200 of the process table this concerns all keys of one
  character. They index the table with the hash value instead of the probed slot.
\<close>
theorem ht_by_key_never_finds:
  assumes "ht_inv ht" "\<not> (0 \<le> sint (hashfunction key) \<and> sint (hashfunction key) < h_size ht)"
  shows "(\<forall>x. ht_retrieve_element_by_key ht key \<noteq> Some (Some x)) \<and> (\<forall>ht'. ht_delete_element_by_key ht key destroy \<noteq> Some (0, ht'))
    \<and> (\<forall>c. 200 \<le> sint (hashfunction [c]))"
proof -
  have "200 \<le> sint (hashfunction [c])" for c
  proof -
    have b: "- (2 ^ 7) \<le> sint c" "sint c < 2 ^ 7" using sint_ge [of c] sint_lt [of c] by simp_all
    have "hashfunction [c] = word_of_int (10201 + sint c)" by (simp add: hashfunction_def)
    then have "sint (hashfunction [c]) = signed_take_bit (LENGTH(32) - 1) (10201 + sint c)" by (simp only: sint_sbintrunc')
    also have "\<dots> = 10201 + sint c" using b by (subst signed_take_bit_int_eq_self) simp_all
    finally show ?thesis using b by simp
  qed
  then show ?thesis using find_key_outside [OF assms]
    by (auto simp: ht_retrieve_element_by_key_def ht_delete_element_by_key_def bind_eq_Some_conv split: option.splits)
qed

theorem ht_by_key_never_finds_witness:
  "entries ht_ex 1 = Some ([100], 7) \<and> home ht_ex [100] = 1 \<and> ht_retrieve_element_by_key ht_ex [100] \<noteq> Some (Some 7)"
proof -
  have "hashfunction [100] = 10301" by (simp add: hashfunction_def)
  moreover from this have "\<not> sint (hashfunction [100]) < h_size ht_ex" by (simp add: ht_ex_def)
  ultimately show ?thesis using ht_by_key_never_finds [OF ht_ex_inv, of "[100]"]
    by (simp add: entries_def home_def ht_ex_def)
qed

end
