(* ===== verification/Kern_Copyinout.thy ===== *)
theory Kern_Copyinout
  imports Kern_Prelude
begin

text \<open>
  Copying between kernel and user memory, \<^verbatim>\<open>kern/lib/copyinout.c\<close>.

  The user address space in context is a \<open>umem\<close>: which byte a kernel-mode access reads at an
  address, if the access does not fault for good, and whether a store goes through. A fault
  in \<^verbatim>\<open>memcpy\<close> or \<^verbatim>\<open>copystr\<close> resumes in \<^verbatim>\<open>copyfail\<close>, which returns from the \<^verbatim>\<open>setjmp\<close>
  with \<open>EFAULT\<close>; the bytes copied before stay. The address-space management behind \<open>umem\<close>
  is a parameter.
\<close>

section \<open>Model\<close>

record umem =
  um_get :: "u32 \<Rightarrow> u8 option"
  um_writable :: "u32 \<Rightarrow> bool"

definition USERTOP :: u32 where "USERTOP = 0x80000000"

text \<open>\<^verbatim>\<open>copycheck\<close>: an error or the value of \<^verbatim>\<open>*stoplen\<close>.\<close>
definition copycheck :: "u32 \<Rightarrow> u32 \<Rightarrow> errno + u32" where
  "copycheck userptr len =
     (let bot = userptr; top = bot + len - 1
      in if top < bot then Inl EFAULT
         else if bot \<ge> USERTOP then Inl EFAULT
         else if top \<ge> USERTOP then Inr (USERTOP - bot)
         else Inr len)"

text \<open>
  A store to user memory: \<open>None\<close> is a fault. A page that can be stored to can be read.
\<close>
definition um_put :: "u32 \<Rightarrow> u8 \<Rightarrow> umem \<Rightarrow> umem option" where
  "um_put a x m =
     (if um_writable m a \<and> um_get m a \<noteq> None then Some (m\<lparr>um_get := (um_get m)(a \<mapsto> x)\<rparr>) else None)"

text \<open>
  \<^verbatim>\<open>memcpy\<close> from user memory into a kernel object and back, byte by byte: whether all bytes
  were copied, and the destination. Kernel accesses outside the object are \<open>None\<close>.
\<close>
primrec memcpy_in :: "nat \<Rightarrow> umem \<Rightarrow> u32 \<Rightarrow> u8 list \<Rightarrow> nat \<Rightarrow> (bool \<times> u8 list) option" where
  "memcpy_in 0 m src dest off = Some (True, dest)"
| "memcpy_in (Suc n) m src dest off =
     (case um_get m src of
        None \<Rightarrow> Some (False, dest)
      | Some x \<Rightarrow> do {
          dest \<leftarrow> cupd dest (int off) x;
          memcpy_in n m (src + 1) dest (Suc off)
        })"

primrec memcpy_out :: "nat \<Rightarrow> u8 list \<Rightarrow> nat \<Rightarrow> u32 \<Rightarrow> umem \<Rightarrow> (bool \<times> umem) option" where
  "memcpy_out 0 src off dest m = Some (True, m)"
| "memcpy_out (Suc n) src off dest m = do {
     x \<leftarrow> cnth src (int off);
     case um_put dest x m of
       None \<Rightarrow> Some (False, m)
     | Some m \<Rightarrow> memcpy_out n src (Suc off) (dest + 1) m
   }"

definition copyin :: "umem \<Rightarrow> u32 \<Rightarrow> u8 list \<Rightarrow> nat \<Rightarrow> u32 \<Rightarrow> ((errno + unit) \<times> u8 list) option" where
  "copyin m usersrc dest off len =
     (case copycheck usersrc len of
        Inl err \<Rightarrow> Some (Inl err, dest)
      | Inr stoplen \<Rightarrow>
          if stoplen \<noteq> len then Some (Inl EFAULT, dest)
          else do {
            (ok, dest) \<leftarrow> memcpy_in (unat len) m usersrc dest off;
            Some (if ok then Inr () else Inl EFAULT, dest)
          })"

definition copyout :: "u8 list \<Rightarrow> nat \<Rightarrow> u32 \<Rightarrow> u32 \<Rightarrow> umem \<Rightarrow> ((errno + unit) \<times> umem) option" where
  "copyout src off userdest len m =
     (case copycheck userdest len of
        Inl err \<Rightarrow> Some (Inl err, m)
      | Inr stoplen \<Rightarrow>
          if stoplen \<noteq> len then Some (Inl EFAULT, m)
          else do {
            (ok, m) \<leftarrow> memcpy_out (unat len) src off userdest m;
            Some (if ok then Inr () else Inl EFAULT, m)
          })"

text \<open>
  \<^verbatim>\<open>copystr\<close> over the accesses to its source and destination in a state: \<open>rd i s\<close> and
  \<open>wr i x s\<close> give \<open>None\<close> for an access outside a kernel object and \<open>Some None\<close> for a fault
  in user memory. The loop runs \<open>n\<close> more times at index \<open>i\<close>; its result is the fault, the
  length found, or nothing.
\<close>
datatype copystr_end = Faulted | Found nat | Ran_out

primrec copystr_loop :: "nat \<Rightarrow> (nat \<Rightarrow> 's \<Rightarrow> u8 option option) \<Rightarrow> (nat \<Rightarrow> u8 \<Rightarrow> 's \<Rightarrow> 's option option)
    \<Rightarrow> nat \<Rightarrow> 's \<Rightarrow> (copystr_end \<times> 's) option" where
  "copystr_loop 0 rd wr i s = Some (Ran_out, s)"
| "copystr_loop (Suc n) rd wr i s = do {
     r \<leftarrow> rd i s;
     case r of
       None \<Rightarrow> Some (Faulted, s)
     | Some x \<Rightarrow> do {
         w \<leftarrow> wr i x s;
         case w of
           None \<Rightarrow> Some (Faulted, s)
         | Some s \<Rightarrow> if x = 0 then Some (Found (Suc i), s) else copystr_loop n rd wr (Suc i) s
       }
   }"

definition copystr :: "(nat \<Rightarrow> 's \<Rightarrow> u8 option option) \<Rightarrow> (nat \<Rightarrow> u8 \<Rightarrow> 's \<Rightarrow> 's option option)
    \<Rightarrow> u32 \<Rightarrow> u32 \<Rightarrow> 's \<Rightarrow> ((errno + nat) \<times> 's) option" where
  "copystr rd wr maxlen stoplen s = do {
     (e, s) \<leftarrow> copystr_loop (min (unat maxlen) (unat stoplen)) rd wr 0 s;
     Some (case e of
         Faulted \<Rightarrow> Inl EFAULT
       | Found gotlen \<Rightarrow> Inr gotlen
       | Ran_out \<Rightarrow> if stoplen < maxlen then Inl EFAULT else Inl ENAMETOOLONG, s)
   }"

definition copyinstr :: "umem \<Rightarrow> u32 \<Rightarrow> u8 list \<Rightarrow> u32 \<Rightarrow> ((errno + nat) \<times> u8 list) option" where
  "copyinstr m usersrc dest len =
     (case copycheck usersrc len of
        Inl err \<Rightarrow> Some (Inl err, dest)
      | Inr stoplen \<Rightarrow>
          copystr (\<lambda>i d. Some (um_get m (usersrc + of_nat i)))
            (\<lambda>i x d. map_option Some (cupd d (int i) x)) len stoplen dest)"

definition copyoutstr :: "u8 list \<Rightarrow> u32 \<Rightarrow> u32 \<Rightarrow> umem \<Rightarrow> ((errno + nat) \<times> umem) option" where
  "copyoutstr src userdest len m =
     (case copycheck userdest len of
        Inl err \<Rightarrow> Some (Inl err, m)
      | Inr stoplen \<Rightarrow>
          copystr (\<lambda>i m. map_option Some (cnth src (int i)))
            (\<lambda>i x m. Some (um_put (userdest + of_nat i) x m)) len stoplen m)"

section \<open>Which regions pass the check\<close>

text \<open>The nonempty regions that lie below \<^verbatim>\<open>USERTOP\<close>.\<close>
definition user_range :: "u32 \<Rightarrow> nat \<Rightarrow> bool" where
  "user_range a n \<longleftrightarrow> 0 < n \<and> unat a + n \<le> 2 ^ 31"

lemma unat_USERTOP: "unat USERTOP = 2 ^ 31"
  by (simp add: USERTOP_def)

lemma unat_top:
  assumes "len \<noteq> (0 :: u32)"
  shows "unat (a + len - 1) = (unat a + (unat len - 1)) mod 2 ^ 32"
proof -
  have "0 < unat len" using assms by (simp add: unat_gt_0)
  then have "(of_nat (unat a + (unat len - 1)) :: u32) = a + len - 1"
    by (simp add: of_nat_diff)
  moreover have "unat (of_nat (unat a + (unat len - 1)) :: u32) = (unat a + (unat len - 1)) mod 2 ^ 32"
    by (simp only: unat_of_nat) simp
  ultimately show ?thesis by (simp only:)
qed

text \<open>\<^verbatim>\<open>copycheck\<close> on nonempty regions, over natural numbers.\<close>
lemma copycheck_pos:
  assumes "len \<noteq> 0"
  shows "copycheck a len =
    (if 2 ^ 31 \<le> unat a \<or> 2 ^ 32 \<le> unat a + unat len - 1 then Inl EFAULT
     else if 2 ^ 31 < unat a + unat len then Inr (USERTOP - a) else Inr len)"
proof -
  have len: "0 < unat len" "unat len < 2 ^ 32" "unat a < 2 ^ 32"
    using assms unat_u32_less [of len] unat_u32_less [of a] by (simp_all add: unat_gt_0)
  note top = unat_top [OF assms, of a]
  show ?thesis
  proof (cases "unat a + unat len - 1 < 2 ^ 32")
    case True
    then have "unat (a + len - 1) = unat a + (unat len - 1)" using top len by simp
    then show ?thesis
      using True len by (auto simp: copycheck_def Let_def word_less_nat_alt word_le_nat_alt unat_USERTOP)
  next
    case False
    then have "(unat a + (unat len - 1)) mod 2 ^ 32 = unat a + (unat len - 1) - 2 ^ 32"
      using len by (subst le_mod_geq) simp_all
    then have "unat (a + len - 1) < unat a" using top len False by simp
    then show ?thesis using False by (simp add: copycheck_def Let_def word_less_nat_alt)
  qed
qed

lemma copycheck_0: "copycheck a 0 = (if a = 0 then Inr USERTOP else Inl EFAULT)"
proof (cases "a = 0")
  case False
  then have "a - 1 < a" by (simp add: word_less_nat_alt unat_minus_one unat_gt_0)
  then show ?thesis using False by (simp add: copycheck_def Let_def)
qed (simp add: copycheck_def USERTOP_def)

lemma copycheck_full_iff: "copycheck a len = Inr len \<longleftrightarrow> user_range a (unat len)"
proof (cases "len = 0")
  case True
  then show ?thesis by (simp add: copycheck_0 user_range_def USERTOP_def)
next
  case False
  moreover have "USERTOP - a \<noteq> len" if "2 ^ 31 < unat a + unat len" "unat a < 2 ^ 31"
  proof
    assume "USERTOP - a = len"
    moreover have "unat (USERTOP - a) = unat USERTOP - unat a"
      using that(2) by (subst unat_sub) (simp_all add: word_le_nat_alt unat_USERTOP)
    ultimately show False using that by (simp add: unat_USERTOP)
  qed
  moreover have "0 < unat len" using False by (simp add: unat_gt_0)
  ultimately show ?thesis
    by (auto simp: copycheck_pos user_range_def)
qed

text \<open>The bytes a user range holds.\<close>
definition um_bytes :: "umem \<Rightarrow> u32 \<Rightarrow> nat \<Rightarrow> u8 option list" where
  "um_bytes m a n = map (\<lambda>i. um_get m (a + of_nat i)) [0..<n]"

lemma um_bytes_Suc: "um_bytes m a (Suc n) = um_get m a # um_bytes m (a + 1) n"
proof -
  have "[0..<Suc n] = 0 # map Suc [0..<n]"
    by (simp add: map_Suc_upt upt_conv_Cons del: upt_Suc)
  then show ?thesis by (simp add: um_bytes_def add.assoc del: upt_Suc)
qed

lemma length_um_bytes [simp]: "length (um_bytes m a n) = n"
  by (simp add: um_bytes_def)

lemma memcpy_in_ok:
  "off + n \<le> length dest \<Longrightarrow> um_bytes m a n = map Some xs \<Longrightarrow>
    memcpy_in n m a dest off = Some (True, take off dest @ xs @ drop (off + n) dest)"
proof (induction n arbitrary: a dest off xs)
  case (Suc n)
  from Suc.prems(2) obtain x ys where x: "xs = x # ys" "um_get m a = Some x" "um_bytes m (a + 1) n = map Some ys"
    by (auto simp: um_bytes_Suc)
  from Suc.IH [OF _ x(3), of "Suc off" "dest[off := x]"] Suc.prems(1) x(1,2) show ?case
    by (simp add: take_Suc_conv_app_nth)
qed (simp add: um_bytes_def)

lemma memcpy_in_fault:
  "off + n \<le> length dest \<Longrightarrow> None \<in> set (um_bytes m a n) \<Longrightarrow>
    \<exists>ys. length ys \<le> n \<and> memcpy_in n m a dest off = Some (False, take off dest @ ys @ drop (off + length ys) dest)"
proof (induction n arbitrary: a dest off)
  case (Suc n)
  show ?case
  proof (cases "um_get m a")
    case (Some x)
    then have "None \<in> set (um_bytes m (a + 1) n)" using Suc.prems(2) by (simp add: um_bytes_Suc)
    from Suc.IH [OF _ this, of "Suc off" "dest[off := x]"] Suc.prems(1) obtain ys where
      ys: "length ys \<le> n" "memcpy_in n m (a + 1) (dest[off := x]) (Suc off) =
        Some (False, take (Suc off) (dest[off := x]) @ ys @ drop (Suc off + length ys) (dest[off := x]))"
      by auto
    then show ?thesis using Some Suc.prems(1)
      by (intro exI [of _ "x # ys"]) (simp add: take_Suc_conv_app_nth)
  qed (auto intro!: exI [of _ "[]"])
qed (simp add: um_bytes_def)

text \<open>User memory with the bytes \<open>xs\<close> stored from address \<open>a\<close> on.\<close>
primrec um_store :: "u32 \<Rightarrow> u8 list \<Rightarrow> umem \<Rightarrow> umem" where
  "um_store a [] m = m"
| "um_store a (x # xs) m = um_store (a + 1) xs (m\<lparr>um_get := (um_get m)(a \<mapsto> x)\<rparr>)"

definition um_open :: "umem \<Rightarrow> u32 \<Rightarrow> bool" where
  "um_open m a \<longleftrightarrow> um_writable m a \<and> um_get m a \<noteq> None"

lemma um_open_store: "um_open (m\<lparr>um_get := (um_get m)(b \<mapsto> x)\<rparr>) a \<longleftrightarrow> um_open m a" if "um_open m b"
  using that by (auto simp: um_open_def)

lemma um_store_get:
  "length xs \<le> 2 ^ 32 \<Longrightarrow> um_get (um_store a xs m) b =
    (if unat (b - a) < length xs then Some (xs ! unat (b - a)) else um_get m b)"
proof (induction xs arbitrary: a m)
  case (Cons x xs)
  show ?case
  proof (cases "b = a")
    case True
    have "b - (a + 1) = - 1" by (simp add: True)
    then have "unat (b - (a + 1)) = 2 ^ 32 - 1"
      by (simp add: unsigned_minus_1_eq_mask mask_eq_exp_minus_1)
    then show ?thesis using Cons True by simp
  next
    case False
    then have "unat (b - a) = Suc (unat (b - (a + 1)))"
    proof -
      have "b - a \<noteq> 0" using False by simp
      then have "unat (b - a - 1) = unat (b - a) - 1" by (rule unat_minus_one)
      moreover have "b - (a + 1) = b - a - 1" by simp
      ultimately show ?thesis using \<open>b - a \<noteq> 0\<close> by (simp only:) (simp add: unat_gt_0)
    qed
    then show ?thesis using Cons False by simp
  qed
qed simp

lemma um_store_writable [simp]: "um_writable (um_store a xs m) = um_writable m"
  by (induction xs arbitrary: a m) auto

lemma memcpy_out_ok:
  "off + n \<le> length src \<Longrightarrow> \<forall>i<n. um_open m (a + of_nat i) \<Longrightarrow>
    memcpy_out n src off a m = Some (True, um_store a (take n (drop off src)) m)"
proof (induction n arbitrary: a m off)
  case (Suc n)
  have op: "um_open m a" using Suc.prems(2)[rule_format, of 0] by simp
  have "\<forall>i<n. um_open (m\<lparr>um_get := (um_get m)(a \<mapsto> src ! off)\<rparr>) (a + 1 + of_nat i)"
    using Suc.prems(2)[rule_format, of "Suc _"] by (simp add: um_open_store [OF op] add.assoc)
  with Suc.IH [OF _ this, of "Suc off"] Suc.prems(1) op show ?case
    by (simp add: um_put_def um_open_def Cons_nth_drop_Suc [symmetric])
qed simp

text \<open>The first byte of the range that cannot be stored to stops the copy.\<close>
lemma memcpy_out_fault:
  "off + n \<le> length src \<Longrightarrow> \<exists>i<n. \<not> um_open m (a + of_nat i) \<Longrightarrow>
    \<exists>k<n. memcpy_out n src off a m = Some (False, um_store a (take k (drop off src)) m)"
proof (induction n arbitrary: a m off)
  case (Suc n)
  show ?case
  proof (cases "um_open m a")
    case True
    obtain i where "i < Suc n" "\<not> um_open m (a + of_nat i)" using Suc.prems(2) by blast
    with True obtain j where "j < n" "\<not> um_open m (a + 1 + of_nat j)"
      by (cases i) (auto simp: add.assoc)
    then have "\<exists>j<n. \<not> um_open (m\<lparr>um_get := (um_get m)(a \<mapsto> src ! off)\<rparr>) (a + 1 + of_nat j)"
      by (auto simp: um_open_store [OF True])
    with Suc.IH [OF _ this, of "Suc off"] Suc.prems(1) obtain k where "k < n"
      "memcpy_out n src (Suc off) (a + 1) (m\<lparr>um_get := (um_get m)(a \<mapsto> src ! off)\<rparr>) =
        Some (False, um_store (a + 1) (take k (drop (Suc off) src)) (m\<lparr>um_get := (um_get m)(a \<mapsto> src ! off)\<rparr>))"
      by auto
    then show ?thesis using True Suc.prems(1)
      by (intro exI [of _ "Suc k"]) (simp add: um_put_def um_open_def Cons_nth_drop_Suc [symmetric])
  next
    case False
    then show ?thesis using Suc.prems(1)
      by (intro exI [of _ 0]) (auto simp: um_put_def um_open_def)
  qed
qed simp

section \<open>Strings\<close>

text \<open>What a scan for the terminator finds in a sequence of bytes, some of which may fault.\<close>
fun cstr_scan :: "u8 option list \<Rightarrow> copystr_end" where
  "cstr_scan [] = Ran_out"
| "cstr_scan (None # bs) = Faulted"
| "cstr_scan (Some x # bs) =
     (if x = 0 then Found 1
      else case cstr_scan bs of Found k \<Rightarrow> Found (Suc k) | e \<Rightarrow> e)"

lemma cstr_scan_Found_iff:
  "cstr_scan bs = Found k \<longleftrightarrow>
    0 < k \<and> k \<le> length bs \<and> bs ! (k - 1) = Some 0 \<and> (\<forall>j<k - 1. \<exists>x. bs ! j = Some x \<and> x \<noteq> 0)"
proof (induction bs arbitrary: k rule: cstr_scan.induct)
  case (2 bs)
  then show ?case by (cases "k - 1") force+
next
  case (3 x bs)
  show ?case
  proof (cases "x = 0")
    case True
    have "k = 1" if "0 < k" "\<forall>j<k - 1. \<exists>y. (Some 0 # bs) ! j = Some y \<and> y \<noteq> 0"
      using that(1) that(2)[rule_format, of 0] by (cases "k = 1") auto
    then show ?thesis using True by auto
  next
    case False
    show ?thesis
    proof (cases k)
      case (Suc k')
      show ?thesis
        using False Suc 3(1) [OF False, of k']
        by (cases k') (auto simp: less_Suc_eq_0_disj split: copystr_end.splits)
    qed (use False in \<open>auto split: copystr_end.splits\<close>)
  qed
qed auto

definition shift_end :: "nat \<Rightarrow> copystr_end \<Rightarrow> copystr_end" where
  "shift_end i e = (case e of Found k \<Rightarrow> Found (i + k) | e \<Rightarrow> e)"

lemma shift_end_0 [simp]: "shift_end 0 e = e"
  by (simp add: shift_end_def split: copystr_end.split)

lemma cstr_scan_found:
  assumes "cstr_scan (um_bytes m a n) = Found k"
  shows "0 < k" "take k (um_bytes m a n) = um_bytes m a k"
    "map Some (map the (um_bytes m a k)) = um_bytes m a k" "um_bytes m a k ! (k - 1) = Some 0"
proof -
  from assms have k: "0 < k" "k \<le> n" "um_bytes m a n ! (k - 1) = Some 0"
    "\<forall>j<k - 1. \<exists>x. um_bytes m a n ! j = Some x \<and> x \<noteq> 0"
    by (auto simp: cstr_scan_Found_iff)
  show "0 < k" by fact
  show pre: "take k (um_bytes m a n) = um_bytes m a k"
    using k(2) by (simp add: um_bytes_def take_map)
  have "None \<notin> set (um_bytes m a k)"
  proof
    assume "None \<in> set (um_bytes m a k)"
    then obtain j where "j < k" "um_bytes m a k ! j = None" by (auto simp: in_set_conv_nth)
    then have "um_bytes m a n ! j = None" using pre by (metis nth_take)
    moreover have "j = k - 1 \<or> j < k - 1" using \<open>j < k\<close> by linarith
    ultimately show False using k(3,4) by auto
  qed
  then show "map Some (map the (um_bytes m a k)) = um_bytes m a k" by (rule map_Some_the)
  show "um_bytes m a k ! (k - 1) = Some 0" using k pre by (metis diff_less nth_take zero_less_one)
qed

lemma copyinstr_loop:
  "i + n \<le> length d \<Longrightarrow>
    \<exists>d'. copystr_loop n (\<lambda>i d. Some (um_get m (a + of_nat i))) (\<lambda>i x d. map_option Some (cupd d (int i) x)) i d
        = Some (shift_end i (cstr_scan (um_bytes m (a + of_nat i) n)), d') \<and> length d' = length d
      \<and> (\<forall>k. cstr_scan (um_bytes m (a + of_nat i) n) = Found k \<longrightarrow>
          d' = take i d @ map the (take k (um_bytes m (a + of_nat i) n)) @ drop (i + k) d)"
proof (induction n arbitrary: i d)
  case (Suc n)
  show ?case
  proof (cases "um_get m (a + of_nat i)")
    case None
    then show ?thesis by (simp add: um_bytes_Suc shift_end_def)
  next
    case (Some x)
    define r where "r = cstr_scan (um_bytes m (a + of_nat (Suc i)) n)"
    have next_a: "a + of_nat i + 1 = a + of_nat (Suc i)" by simp
    from Suc.IH [of "Suc i" "d[i := x]"] Suc.prems obtain d' where
      d': "copystr_loop n (\<lambda>i d. Some (um_get m (a + of_nat i))) (\<lambda>i x d. map_option Some (cupd d (int i) x))
          (Suc i) (d[i := x]) = Some (shift_end (Suc i) r, d')" "length d' = length d"
        "\<And>k. r = Found k \<Longrightarrow> d' = take (Suc i) (d[i := x]) @
          map the (take k (um_bytes m (a + of_nat (Suc i)) n)) @ drop (Suc i + k) (d[i := x])"
      by (auto simp: r_def)
    show ?thesis
    proof (cases "x = 0")
      case True
      then show ?thesis using Some Suc.prems
        by (auto simp: um_bytes_Suc shift_end_def upd_conv_take_nth_drop)
    next
      case False
      have scan: "cstr_scan (um_bytes m (a + of_nat i) (Suc n)) = (case r of Found k \<Rightarrow> Found (Suc k) | e \<Rightarrow> e)"
        unfolding um_bytes_Suc Some next_a using False by (simp add: r_def)
      then show ?thesis using Some Suc.prems False d'
        unfolding um_bytes_Suc next_a
        by (cases r) (auto simp: shift_end_def take_Suc_conv_app_nth simp del: of_nat_Suc)
    qed
  qed
qed (auto simp: um_bytes_def shift_end_def)

lemma copyin_outside: "copyin m a dest off len = Some (Inl EFAULT, dest)" if "\<not> user_range a (unat len)"
proof -
  have "copycheck a len \<noteq> Inr len" using that by (simp add: copycheck_full_iff)
  moreover have "copycheck a len = Inl e \<Longrightarrow> e = EFAULT" for e
    by (auto simp: copycheck_def Let_def split: if_splits)
  ultimately show ?thesis by (auto simp: copyin_def split: sum.split)
qed

lemma copyout_outside: "copyout src off a len m = Some (Inl EFAULT, m)" if "\<not> user_range a (unat len)"
proof -
  have "copycheck a len \<noteq> Inr len" using that by (simp add: copycheck_full_iff)
  moreover have "copycheck a len = Inl e \<Longrightarrow> e = EFAULT" for e
    by (auto simp: copycheck_def Let_def split: if_splits)
  ultimately show ?thesis by (auto simp: copyout_def split: sum.split)
qed

lemma copyin_ok:
  assumes "user_range a (unat len)" "um_bytes m a (unat len) = map Some xs" "off + unat len \<le> length dest"
  shows "copyin m a dest off len = Some (Inr (), take off dest @ xs @ drop (off + unat len) dest)"
  using assms(1) memcpy_in_ok [OF assms(3,2)] by (simp add: copyin_def flip: copycheck_full_iff)

lemma copyout_ok:
  assumes "user_range a (unat len)" "\<forall>i<unat len. um_open m (a + of_nat i)" "off + unat len \<le> length src"
  shows "copyout src off a len m = Some (Inr (), um_store a (take (unat len) (drop off src)) m)"
  using assms(1) memcpy_out_ok [OF assms(3,2)] by (simp add: copyout_def flip: copycheck_full_iff)

section \<open>Properties\<close>

text \<open>
  C21. \<^verbatim>\<open>copyin\<close> copies exactly the requested bytes when the region is nonempty, lies below
  \<^verbatim>\<open>USERTOP\<close> and is readable; in every other case, a length of zero included, it returns
  \<open>EFAULT\<close> and leaves the kernel object unchanged outside the destination range. It never
  panics or writes outside the object.
\<close>
theorem copyin_correct:
  assumes "off + unat len \<le> length dest"
  shows "if user_range a (unat len) \<and> None \<notin> set (um_bytes m a (unat len))
    then copyin m a dest off len =
      Some (Inr (), take off dest @ map the (um_bytes m a (unat len)) @ drop (off + unat len) dest)
    else \<exists>dest'. copyin m a dest off len = Some (Inl EFAULT, dest') \<and> length dest' = length dest
      \<and> take off dest' = take off dest \<and> drop (off + unat len) dest' = drop (off + unat len) dest"
proof (cases "user_range a (unat len)")
  case range: True
  show ?thesis
  proof (cases "None \<in> set (um_bytes m a (unat len))")
    case True
    from memcpy_in_fault [OF assms this] obtain ys where
      "length ys \<le> unat len" "memcpy_in (unat len) m a dest off =
        Some (False, take off dest @ ys @ drop (off + length ys) dest)"
      by blast
    then show ?thesis using True range assms
      by (simp add: copyin_def add.commute flip: copycheck_full_iff)
  next
    case False
    have "um_bytes m a (unat len) = map Some (map the (um_bytes m a (unat len)))"
      using map_Some_the [OF False] by simp
    from copyin_ok [OF range this assms] show ?thesis using range False by simp
  qed
next
  case False
  then show ?thesis using copyin_outside by auto
qed

definition um_hello :: umem where
  "um_hello = \<lparr>um_get = (\<lambda>a. if a < 0x1000 then Some (if a < 3 then 65 else 0) else None), um_writable = (\<lambda>a. a < 0x800)\<rparr>"

lemma um_hello_bytes: "um_bytes um_hello 1 2 = [Some 65, Some 65]"
  by code_simp

lemma um_hello_open: "\<forall>i<2. um_open um_hello (0x7fe + of_nat i)"
  by (auto simp: less_2_cases_iff um_open_def um_hello_def)

theorem copyin_correct_witness:
  "copyin um_hello 1 [9, 9, 9, 9] 1 2 = Some (Inr (), [9, 65, 65, 9])
    \<and> (\<exists>d. copyin um_hello 0 [9, 9, 9, 9] 0 0 = Some (Inl EFAULT, d))"
  using copyin_correct [of 1 2 "[9, 9, 9, 9]" 1 um_hello] copyin_correct [of 0 0 "[9, 9, 9, 9]" 0 um_hello]
  by (auto simp: user_range_def um_hello_bytes)

text \<open>
  C22. \<^verbatim>\<open>copyout\<close> never touches kernel memory: whatever it returns, only bytes of the
  requested range below \<^verbatim>\<open>USERTOP\<close> change. It succeeds exactly on nonempty writable user
  ranges, and then the range holds the source bytes.
\<close>
theorem copyout_correct:
  assumes "off + unat len \<le> length src"
  shows "\<exists>r m'. copyout src off a len m = Some (r, m')
    \<and> r = (if user_range a (unat len) \<and> (\<forall>i<unat len. um_open m (a + of_nat i)) then Inr () else Inl EFAULT)
    \<and> (\<forall>b. um_get m' b \<noteq> um_get m b \<longrightarrow> b < USERTOP \<and> unat (b - a) < unat len)
    \<and> (r = Inr () \<longrightarrow> (\<forall>i<unat len. um_get m' (a + of_nat i) = Some (src ! (off + i))))"
proof (cases "user_range a (unat len)")
  case range: True
  then have top: "b < USERTOP" if "unat (b - a) < unat len" for b
  proof -
    have "unat b = unat (a + (b - a))" by simp
    also have "\<dots> \<le> unat a + unat (b - a)" by (simp only: unat_word_ariths mod_less_eq_dividend)
    also have "\<dots> < 2 ^ 31" using range that by (simp add: user_range_def)
    finally show ?thesis by (simp add: word_less_nat_alt unat_USERTOP)
  qed
  obtain ok k m' where m': "memcpy_out (unat len) src off a m = Some (ok, m')"
    "m' = um_store a (take k (drop off src)) m" "k \<le> unat len" "ok \<Longrightarrow> k = unat len"
    "ok \<longleftrightarrow> (\<forall>i<unat len. um_open m (a + of_nat i))"
    using memcpy_out_ok [OF assms, of m a] memcpy_out_fault [OF assms, of m a]
    by (metis less_or_eq_imp_le)
  have get: "um_get m' b = (if unat (b - a) < k then Some (src ! (off + unat (b - a))) else um_get m b)" for b
    using m'(2,3) assms unat_u32_less [of len] by (simp add: um_store_get less_imp_le)
  have "copyout src off a len m = Some (if ok then Inr () else Inl EFAULT, m')"
    using range m'(1) by (simp add: copyout_def flip: copycheck_full_iff)
  moreover have "um_get m' b \<noteq> um_get m b \<longrightarrow> b < USERTOP \<and> unat (b - a) < unat len" for b
    using get m'(3) top by auto
  moreover have "um_get m' (a + of_nat i) = Some (src ! (off + i))" if "ok" "i < unat len" for i
    using get [of "a + of_nat i"] m'(4) that unat_u32_less [of len]
    by (simp add: unat_of_nat_u32)
  ultimately show ?thesis using range m'(5) by auto
qed (use copyout_outside in \<open>auto\<close>)

theorem copyout_correct_witness:
  "(\<exists>m'. copyout [1, 2] 0 0x7fe 2 um_hello = Some (Inr (), m') \<and> um_get m' 0x7ff = Some 2)
    \<and> (\<exists>m'. copyout [1, 2] 0 0x7fffffff 2 um_hello = Some (Inl EFAULT, m'))"
proof -
  have "\<exists>m'. copyout [1, 2] 0 0x7fe 2 um_hello = Some (Inr (), m') \<and> um_get m' 0x7ff = Some 2"
    using copyout_correct [of 0 2 "[1, 2]" "0x7fe" um_hello] um_hello_open
    by (auto simp: user_range_def dest!: spec [of _ "1 :: nat"])
  moreover have "\<exists>m'. copyout [1, 2] 0 0x7fffffff 2 um_hello = Some (Inl EFAULT, m')"
    using copyout_correct [of 0 2 "[1, 2]" "0x7fffffff" um_hello] by (auto simp: user_range_def)
  ultimately show ?thesis by blast
qed

text \<open>
  C23. \<^verbatim>\<open>copyinstr\<close> with a nonzero limit: when the start is a kernel address or the region wraps,
  it returns \<open>EFAULT\<close>. Otherwise it looks at the bytes up to the limit and the end of user
  space: it returns the length including the terminator exactly when a terminated string is
  readable there, and then the buffer holds it; a fault or the end of user space before the
  terminator gives \<open>EFAULT\<close>, and a string too long for the limit \<open>ENAMETOOLONG\<close>. It never writes
  outside the buffer.
\<close>
theorem copyinstr_correct:
  assumes "unat len \<le> length dest" "len \<noteq> 0"
  shows "if 2 ^ 31 \<le> unat a \<or> 2 ^ 32 \<le> unat a + unat len - 1
    then copyinstr m a dest len = Some (Inl EFAULT, dest)
    else \<exists>d'. length d' = length dest \<and>
      (case cstr_scan (um_bytes m a (min (unat len) (2 ^ 31 - unat a))) of
         Found k \<Rightarrow> copyinstr m a dest len = Some (Inr k, d') \<and> map Some (take k d') = um_bytes m a k
           \<and> d' ! (k - 1) = 0 \<and> drop k d' = drop k dest
       | Faulted \<Rightarrow> copyinstr m a dest len = Some (Inl EFAULT, d')
       | Ran_out \<Rightarrow> copyinstr m a dest len =
           Some (Inl (if 2 ^ 31 - unat a < unat len then EFAULT else ENAMETOOLONG), d'))"
proof (cases "2 ^ 31 \<le> unat a \<or> 2 ^ 32 \<le> unat a + unat len - 1")
  case True
  then show ?thesis using copycheck_pos [OF assms(2), of a] by (simp add: copyinstr_def)
next
  case False
  define n where "n = min (unat len) (2 ^ 31 - unat a)"
  define stop where "stop = (if 2 ^ 31 < unat a + unat len then USERTOP - a else len)"
  have chk: "copycheck a len = Inr stop"
    using False by (simp add: copycheck_pos [OF assms(2)] stop_def)
  have ustop: "unat stop = n"
    using False by (auto simp: stop_def n_def unat_sub word_le_nat_alt unat_USERTOP)
  have stop_less: "stop < len \<longleftrightarrow> 2 ^ 31 - unat a < unat len"
    using ustop by (auto simp: word_less_nat_alt n_def)
  have nn: "min (unat len) (unat stop) = n" by (simp add: ustop n_def)
  obtain d' where d': "copystr_loop n (\<lambda>i d. Some (um_get m (a + of_nat i)))
      (\<lambda>i x d. map_option Some (cupd d (int i) x)) 0 dest = Some (cstr_scan (um_bytes m a n), d')"
    "length d' = length dest"
    "\<And>k. cstr_scan (um_bytes m a n) = Found k \<Longrightarrow> d' = map the (take k (um_bytes m a n)) @ drop k dest"
  proof -
    have "0 + n \<le> length dest" using assms(1) by (simp add: n_def)
    from copyinstr_loop [OF this, of m a] that show ?thesis by auto
  qed
  have found: "map Some (take k d') = um_bytes m a k \<and> d' ! (k - 1) = 0 \<and> drop k d' = drop k dest"
    if "cstr_scan (um_bytes m a n) = Found k" for k
    using cstr_scan_found [OF that] d'(3) [OF that] by (simp add: nth_append)
  have run: "copyinstr m a dest len = Some (case cstr_scan (um_bytes m a n) of
      Faulted \<Rightarrow> Inl EFAULT | Found gotlen \<Rightarrow> Inr gotlen
    | Ran_out \<Rightarrow> if stop < len then Inl EFAULT else Inl ENAMETOOLONG, d')"
    using chk d'(1) nn by (simp add: copyinstr_def copystr_def)
  show ?thesis
    using False run d'(2) found stop_less unfolding n_def
    by (auto split: copystr_end.splits)
qed

theorem copyinstr_correct_witness:
  "\<exists>d'. copyinstr um_hello 1 [9, 9, 9, 9, 9] 5 = Some (Inr 3, d') \<and> map Some (take 3 d') = [Some 65, Some 65, Some 0]"
proof -
  have "um_bytes um_hello 1 5 = [Some 65, Some 65, Some 0, Some 0, Some 0]"
    "um_bytes um_hello 1 3 = [Some 65, Some 65, Some 0]"
    by code_simp+
  then show ?thesis
    using copyinstr_correct [of 5 "[9, 9, 9, 9, 9]" 1 um_hello] by (auto simp: numeral_3_eq_3)
qed

end
