(* ===== verification/Kern_Uio.thy ===== *)
theory Kern_Uio
  imports Kern_Copyinout
begin

text \<open>
  Data transfer through a \<^verbatim>\<open>struct uio\<close>, \<^verbatim>\<open>kern/userprog/uio.c\<close> and \<^verbatim>\<open>kern/include/uio.h\<close>.

  The pointer in the iovec is kept apart by kind: a kernel pointer is an object
  (\<open>iov_kbuf\<close>) and an offset into it, a user pointer is an address \<open>iov_ubase\<close> in the
  address space \<open>uio_space\<close>, the one in context. The buffer passed to \<^verbatim>\<open>uiomove\<close> is a kernel
  object and an offset. \<open>ureg\<close>, \<open>usend\<close> and \<open>uadv\<close> describe transfers abstractly for both
  kinds at once; the disk driver and the file system use the lemmas on them.
\<close>

section \<open>Model\<close>

datatype uio_rw = UIO_READ | UIO_WRITE

datatype uio_seg = UIO_USERSPACE | UIO_SYSSPACE | UIO_USERISPACE

record uio =
  iov_kbuf :: "u8 list"
  iov_koff :: nat
  iov_ubase :: u32
  iov_len :: u32
  uio_offset :: int
  uio_resid :: u32
  uio_segflg :: uio_seg
  uio_rw :: uio_rw
  uio_space :: "umem option"

text \<open>The body of the loop of \<^verbatim>\<open>uiomove\<close> up to the pointer update (lines 45--72).\<close>
definition uiocopy :: "u8 list \<Rightarrow> nat \<Rightarrow> u32 \<Rightarrow> uio \<Rightarrow> ((errno + unit) \<times> u8 list \<times> uio) option" where
  "uiocopy buf ptr sz u =
     (case uio_segflg u of
        UIO_SYSSPACE \<Rightarrow>
          (case uio_rw u of
             UIO_READ \<Rightarrow> do {
               kbuf \<leftarrow> cmemcpy (iov_kbuf u) (iov_koff u) buf ptr (unat sz);
               Some (Inr (), buf, u\<lparr>iov_kbuf := kbuf, iov_koff := iov_koff u + unat sz\<rparr>)
             }
           | UIO_WRITE \<Rightarrow> do {
               buf \<leftarrow> cmemcpy buf ptr (iov_kbuf u) (iov_koff u) (unat sz);
               Some (Inr (), buf, u\<lparr>iov_koff := iov_koff u + unat sz\<rparr>)
             })
      | _ \<Rightarrow> do {
          space \<leftarrow> uio_space u;
          case uio_rw u of
            UIO_READ \<Rightarrow> do {
              (result, space) \<leftarrow> copyout buf ptr (iov_ubase u) sz space;
              case result of
                Inl err \<Rightarrow> Some (Inl err, buf, u\<lparr>uio_space := Some space\<rparr>)
              | Inr _ \<Rightarrow> Some (Inr (), buf, u\<lparr>uio_space := Some space, iov_ubase := iov_ubase u + sz\<rparr>)
            }
          | UIO_WRITE \<Rightarrow> do {
              (result, buf) \<leftarrow> copyin space (iov_ubase u) buf ptr sz;
              case result of
                Inl err \<Rightarrow> Some (Inl err, buf, u)
              | Inr _ \<Rightarrow> Some (Inr (), buf, u\<lparr>iov_ubase := iov_ubase u + sz\<rparr>)
            }
        })"

function uiomove_loop :: "u8 list \<Rightarrow> nat \<Rightarrow> u32 \<Rightarrow> uio \<Rightarrow> ((errno + unit) \<times> u8 list \<times> uio) option" where
  "uiomove_loop buf ptr n u =
     (if n > 0 \<and> uio_resid u > 0
      then let sz = (if iov_len u > n then n else iov_len u)
           in if sz = 0 then None
              else do {
                (result, buf, u) \<leftarrow> uiocopy buf ptr sz u;
                case result of
                  Inl err \<Rightarrow> Some (Inl err, buf, u)
                | Inr _ \<Rightarrow> uiomove_loop buf (ptr + unat sz) (n - sz)
                    (u\<lparr>iov_len := iov_len u - sz, uio_resid := uio_resid u - sz,
                       uio_offset := s32 (uio_offset u + uint sz)\<rparr>)
              }
      else Some (Inr (), buf, u))"
  by pat_completeness auto
termination
proof (relation "measure (\<lambda>(buf, ptr, n, u). unat n)")
  fix n sz :: u32 and u :: uio
  assume "n > 0 \<and> uio_resid u > 0" "sz = (if iov_len u > n then n else iov_len u)" "sz \<noteq> 0"
  then have "sz \<le> n" "0 < unat sz" by (auto simp: unat_gt_0 not_less split: if_splits)
  then show "((buf, ptr + unat sz, n - sz, v), buf', ptr, n, u)
      \<in> measure (\<lambda>(buf, ptr, n, u). unat n)" for buf buf' ptr v
    by (simp add: unat_sub word_le_nat_alt)
qed simp

declare uiomove_loop.simps [simp del]

definition uiomove :: "u8 list \<Rightarrow> nat \<Rightarrow> u32 \<Rightarrow> uio \<Rightarrow> ((errno + unit) \<times> u8 list \<times> uio) option" where
  "uiomove buf ptr n u = do {
     kassert (if uio_segflg u = UIO_SYSSPACE then uio_space u = None else uio_space u \<noteq> None);
     uiomove_loop buf ptr n u
   }"

function uiomovezeros_loop :: "u32 \<Rightarrow> uio \<Rightarrow> ((errno + unit) \<times> uio) option" where
  "uiomovezeros_loop n u =
     (if n > 0
      then let amt = (if 16 > n then n else 16)
           in do {
             (result, zeros, u) \<leftarrow> uiomove (replicate 16 0) 0 amt u;
             case result of
               Inl err \<Rightarrow> Some (Inl err, u)
             | Inr _ \<Rightarrow> uiomovezeros_loop (n - amt) u
           }
      else Some (Inr (), u))"
  by pat_completeness auto
termination
proof (relation "measure (\<lambda>(n, u). unat n)")
  fix n amt :: u32
  assume "0 < n" "amt = (if n < 16 then n else 16)"
  then have "amt \<le> n" "0 < unat amt" by (auto simp: unat_gt_0 not_less split: if_splits)
  then show "((n - amt, v), n, u) \<in> measure (\<lambda>(n, u). unat n)" for u v :: uio
    by (simp add: unat_sub word_le_nat_alt)
qed simp

declare uiomovezeros_loop.simps [simp del]

definition uiomovezeros :: "u32 \<Rightarrow> uio \<Rightarrow> ((errno + unit) \<times> uio) option" where
  "uiomovezeros n u = do {
     kassert (uio_rw u = UIO_READ);
     uiomovezeros_loop n u
   }"

definition mk_kuio :: "u8 list \<Rightarrow> nat \<Rightarrow> u32 \<Rightarrow> int \<Rightarrow> uio_rw \<Rightarrow> uio" where
  "mk_kuio kbuf koff len pos rw =
     \<lparr>iov_kbuf = kbuf, iov_koff = koff, iov_ubase = 0, iov_len = len, uio_offset = pos,
      uio_resid = len, uio_segflg = UIO_SYSSPACE, uio_rw = rw, uio_space = None\<rparr>"

section \<open>Transfers, abstractly\<close>

text \<open>
  The data region a uio still points to, if it can be accessed in the direction of the
  transfer; a region of length zero is accessible.
\<close>
definition ureg :: "uio \<Rightarrow> u8 list option" where
  "ureg u =
     (case uio_segflg u of
        UIO_SYSSPACE \<Rightarrow>
          if uio_space u = None \<and> iov_koff u + unat (iov_len u) \<le> length (iov_kbuf u)
          then Some (take (unat (iov_len u)) (drop (iov_koff u) (iov_kbuf u))) else None
      | _ \<Rightarrow>
          (case uio_space u of None \<Rightarrow> None | Some m \<Rightarrow>
             if (iov_len u = 0 \<or> user_range (iov_ubase u) (unat (iov_len u)))
               \<and> None \<notin> set (um_bytes m (iov_ubase u) (unat (iov_len u)))
               \<and> (uio_rw u = UIO_READ \<longrightarrow>
                    (\<forall>i<unat (iov_len u). um_open m (iov_ubase u + of_nat i)))
             then Some (map the (um_bytes m (iov_ubase u) (unat (iov_len u)))) else None))"

text \<open>Storing bytes where the uio points, and moving its pointer and counters.\<close>
definition uput :: "u8 list \<Rightarrow> uio \<Rightarrow> uio" where
  "uput xs u =
     (if uio_segflg u = UIO_SYSSPACE then u\<lparr>iov_kbuf := patch (iov_kbuf u) (iov_koff u) xs\<rparr>
      else u\<lparr>uio_space := map_option (um_store (iov_ubase u) xs) (uio_space u)\<rparr>)"

definition uadv :: "nat \<Rightarrow> uio \<Rightarrow> uio" where
  "uadv n u =
     (if uio_segflg u = UIO_SYSSPACE then u\<lparr>iov_koff := iov_koff u + n\<rparr>
      else u\<lparr>iov_ubase := iov_ubase u + of_nat n\<rparr>)
     \<lparr>iov_len := iov_len u - of_nat n, uio_resid := uio_resid u - of_nat n,
      uio_offset := s32 (uio_offset u + int n)\<rparr>"

definition usend :: "u8 list \<Rightarrow> uio \<Rightarrow> uio" where
  "usend xs u = uadv (length xs) (uput xs u)"

text \<open>The uio \<open>u'\<close> with its pointer and length put back to those of \<open>u\<close>.\<close>
definition urewind :: "uio \<Rightarrow> uio \<Rightarrow> uio" where
  "urewind u u' = u'\<lparr>iov_koff := iov_koff u, iov_ubase := iov_ubase u, iov_len := iov_len u\<rparr>"

lemma uadv_simps [simp]:
  "iov_kbuf (uadv n u) = iov_kbuf u" "iov_len (uadv n u) = iov_len u - of_nat n"
  "uio_offset (uadv n u) = s32 (uio_offset u + int n)" "uio_resid (uadv n u) = uio_resid u - of_nat n"
  "uio_segflg (uadv n u) = uio_segflg u" "uio_rw (uadv n u) = uio_rw u" "uio_space (uadv n u) = uio_space u"
  by (auto simp: uadv_def)

lemma uput_simps [simp]:
  "iov_koff (uput xs u) = iov_koff u" "iov_ubase (uput xs u) = iov_ubase u" "iov_len (uput xs u) = iov_len u"
  "uio_offset (uput xs u) = uio_offset u" "uio_resid (uput xs u) = uio_resid u"
  "uio_segflg (uput xs u) = uio_segflg u" "uio_rw (uput xs u) = uio_rw u"
  by (auto simp: uput_def)

lemma usend_simps [simp]:
  "iov_len (usend xs u) = iov_len u - of_nat (length xs)"
  "uio_offset (usend xs u) = s32 (uio_offset u + int (length xs))"
  "uio_resid (usend xs u) = uio_resid u - of_nat (length xs)"
  "uio_segflg (usend xs u) = uio_segflg u" "uio_rw (usend xs u) = uio_rw u"
  by (auto simp: usend_def)

lemma length_ureg: "ureg u = Some bs \<Longrightarrow> length bs = unat (iov_len u)"
  by (auto simp: ureg_def split: uio_seg.splits if_splits option.splits)

lemma unat_sub_of_nat: "n \<le> unat (w :: u32) \<Longrightarrow> unat (w - of_nat n) = unat w - n"
proof -
  assume n: "n \<le> unat w"
  have "unat (of_nat n :: u32) = n"
    using n unat_u32_less [of w] by (intro unat_of_nat_u32) simp
  then show ?thesis using n by (simp add: unat_sub word_le_nat_alt)
qed

lemma um_bytes_add: "um_bytes m a (n + k) = um_bytes m a n @ um_bytes m (a + of_nat n) k"
  by (induction n arbitrary: a) (simp_all add: um_bytes_Suc um_bytes_def [of _ _ 0] algebra_simps)

lemma drop_um_bytes: "n \<le> k \<Longrightarrow> drop n (um_bytes m a k) = um_bytes m (a + of_nat n) (k - n)"
  using um_bytes_add [of m a n "k - n"] by simp

lemma user_range_suffix:
  assumes "user_range a k" "n < k"
  shows "user_range (a + of_nat n) (k - n)"
proof -
  have "unat (a + of_nat n) \<le> unat a + n"
    using assms by (simp add: user_range_def unat_word_ariths unat_of_nat)
  then show ?thesis using assms by (simp add: user_range_def)
qed

lemma user_range_prefix: "user_range a k \<Longrightarrow> 0 < n \<Longrightarrow> n \<le> k \<Longrightarrow> user_range a n"
  by (simp add: user_range_def)

lemma ureg_uadv:
  assumes reg: "ureg u = Some bs" and n: "n \<le> unat (iov_len u)"
  shows "ureg (uadv n u) = Some (drop n bs)"
proof (cases "uio_segflg u = UIO_SYSSPACE")
  case True
  then show ?thesis using assms
    by (auto simp: ureg_def unat_sub_of_nat drop_take add.commute split: if_splits)
      (simp_all add: uadv_def add.commute)
next
  case False
  from reg False obtain m where m: "uio_space u = Some m" "iov_len u = 0 \<or> user_range (iov_ubase u) (unat (iov_len u))"
    "None \<notin> set (um_bytes m (iov_ubase u) (unat (iov_len u)))"
    "uio_rw u = UIO_READ \<Longrightarrow> \<forall>i<unat (iov_len u). um_open m (iov_ubase u + of_nat i)"
    "bs = map the (um_bytes m (iov_ubase u) (unat (iov_len u)))"
    by (auto simp: ureg_def split: uio_seg.splits option.splits if_splits)
  have base: "iov_ubase (uadv n u) = iov_ubase u + of_nat n" using False by (simp add: uadv_def)
  have len: "unat (iov_len u - of_nat n) = unat (iov_len u) - n" by (rule unat_sub_of_nat [OF n])
  have range: "iov_len u - of_nat n = 0 \<or> user_range (iov_ubase u + of_nat n) (unat (iov_len u) - n)"
  proof (cases "n = unat (iov_len u)")
    case False
    then show ?thesis using m(2) n user_range_suffix [of "iov_ubase u" "unat (iov_len u)" n] by auto
  qed simp
  have "um_open m (iov_ubase u + of_nat n + of_nat i)" if "uio_rw u = UIO_READ" "i < unat (iov_len u) - n" for i
    using m(4) [OF that(1), rule_format, of "n + i"] that(2) by (simp add: add.assoc)
  moreover have "None \<notin> set (um_bytes m (iov_ubase u + of_nat n) (unat (iov_len u) - n))"
    using m(3) drop_um_bytes [OF n, of m "iov_ubase u"] by (metis in_set_dropD)
  ultimately show ?thesis
    using False m(1,5) base len range drop_um_bytes [OF n, of m "iov_ubase u"]
    by (cases "uio_segflg u") (auto simp: ureg_def drop_map)
qed

lemma um_bytes_store:
  assumes "length xs \<le> n" "n < 2 ^ 32"
  shows "um_bytes (um_store a xs m) a n = map Some xs @ drop (length xs) (um_bytes m a n)"
proof (rule nth_equalityI)
  fix i
  assume "i < length (um_bytes (um_store a xs m) a n)"
  then have i: "i < n" by simp
  then have "unat (a + of_nat i - a :: u32) = i" using assms(2) by (simp add: unat_of_nat_u32)
  then show "um_bytes (um_store a xs m) a n ! i = (map Some xs @ drop (length xs) (um_bytes m a n)) ! i"
    using i assms by (simp add: um_bytes_def um_store_get nth_append)
qed (use assms in simp)

lemma um_open_um_store: "\<forall>i<length xs. um_open m (a + of_nat i) \<Longrightarrow> um_open (um_store a xs m) b \<longleftrightarrow> um_open m b"
proof (induction xs arbitrary: a m)
  case (Cons x xs)
  have op: "um_open m a" using Cons.prems [rule_format, of 0] by simp
  have "\<forall>i<length xs. um_open (m\<lparr>um_get := (um_get m)(a \<mapsto> x)\<rparr>) (a + 1 + of_nat i)"
    using Cons.prems [rule_format, of "Suc _"] by (simp add: um_open_store [OF op] add.assoc)
  from Cons.IH [OF this] show ?case by (simp add: um_open_store [OF op])
qed simp

lemma ureg_uput:
  assumes reg: "ureg u = Some bs" and rw: "uio_rw u = UIO_READ" and xs: "length xs \<le> unat (iov_len u)"
  shows "ureg (uput xs u) = Some (xs @ drop (length xs) bs)"
proof (cases "uio_segflg u = UIO_SYSSPACE")
  case True
  then show ?thesis using reg xs
    by (auto simp: ureg_def uput_def take_drop_patch split: if_splits)
next
  case False
  from reg False rw obtain m where m: "uio_space u = Some m" "iov_len u = 0 \<or> user_range (iov_ubase u) (unat (iov_len u))"
    "None \<notin> set (um_bytes m (iov_ubase u) (unat (iov_len u)))"
    "\<forall>i<unat (iov_len u). um_open m (iov_ubase u + of_nat i)"
    "bs = map the (um_bytes m (iov_ubase u) (unat (iov_len u)))"
    by (auto simp: ureg_def split: uio_seg.splits option.splits if_splits)
  have b: "um_bytes (um_store (iov_ubase u) xs m) (iov_ubase u) (unat (iov_len u)) =
      map Some xs @ drop (length xs) (um_bytes m (iov_ubase u) (unat (iov_len u)))"
    by (rule um_bytes_store [OF xs unat_u32_less])
  have "um_open (um_store (iov_ubase u) xs m) c \<longleftrightarrow> um_open m c" for c
    using m(4) xs by (intro um_open_um_store) auto
  then show ?thesis
    using False m b by (cases "uio_segflg u")
      (auto simp: ureg_def uput_def drop_map comp_def dest: in_set_dropD)
qed

lemma um_store_append: "um_store a (xs @ ys) m = um_store (a + of_nat (length xs)) ys (um_store a xs m)"
  by (induction xs arbitrary: a m) (auto simp: algebra_simps)

lemma uadv_uadv: "uadv k (uadv n u) = uadv (n + k) u"
  by (simp add: uadv_def algebra_simps)

text \<open>Two transfers in a row are one.\<close>
lemma usend_usend:
  assumes "ureg u = Some bs" "length xs + length ys \<le> unat (iov_len u)"
  shows "usend ys (usend xs u) = usend (xs @ ys) u"
proof (cases "uio_segflg u = UIO_SYSSPACE")
  case True
  then have "iov_koff u + length xs + length ys \<le> length (iov_kbuf u)"
    using assms by (auto simp: ureg_def split: if_splits)
  then show ?thesis using True
    by (simp add: usend_def uput_def uadv_def patch_patch algebra_simps)
next
  case False
  then show ?thesis
    by (cases "uio_space u") (simp_all add: usend_def uput_def uadv_def um_store_append algebra_simps)
qed

lemma ureg_usend:
  assumes "ureg u = Some bs" "uio_rw u = UIO_READ" "length xs \<le> unat (iov_len u)"
  shows "ureg (usend xs u) = Some (drop (length xs) bs)"
proof -
  have "ureg (uadv (length xs) (uput xs u)) = Some (drop (length xs) (xs @ drop (length xs) bs))"
    by (rule ureg_uadv [OF ureg_uput [OF assms]]) (use assms(3) in simp)
  then show ?thesis by (simp add: usend_def)
qed

lemma ureg_urewind:
  assumes "ureg u = Some bs" "uio_rw u = UIO_READ" "length xs \<le> unat (iov_len u)"
  shows "ureg (urewind u (usend xs u)) = Some (xs @ drop (length xs) bs)"
proof -
  have "ureg (urewind u (usend xs u)) = ureg (uput xs u)"
    by (cases "uio_segflg u"; cases "uio_space u") (simp_all add: ureg_def urewind_def usend_def uadv_def uput_def)
  then show ?thesis using ureg_uput [OF assms] by simp
qed

lemma uiocopy_read:
  assumes reg: "ureg u = Some bs" and rw: "uio_rw u = UIO_READ"
    and n: "0 < unat sz" "unat sz \<le> unat (iov_len u)" and buf: "ptr + unat sz \<le> length buf"
  shows "\<exists>u'. uiocopy buf ptr sz u = Some (Inr (), buf, u')
    \<and> u'\<lparr>iov_len := iov_len u' - sz, uio_resid := uio_resid u' - sz,
         uio_offset := s32 (uio_offset u' + uint sz)\<rparr> = usend (take (unat sz) (drop ptr buf)) u"
proof -
  have mn: "min (length buf - ptr) (unat sz) = unat sz" using buf by simp
  show ?thesis
  proof (cases "uio_segflg u = UIO_SYSSPACE")
  case True
  then have "iov_koff u + unat sz \<le> length (iov_kbuf u)"
    using reg n(2) by (auto simp: ureg_def split: if_splits)
  then show ?thesis using True rw buf
    by (simp add: uiocopy_def cmemcpy_ok usend_def uput_def uadv_def mn)
next
  case False
  from reg False rw obtain m where m: "uio_space u = Some m" "iov_len u = 0 \<or> user_range (iov_ubase u) (unat (iov_len u))"
    "\<forall>i<unat (iov_len u). um_open m (iov_ubase u + of_nat i)"
    by (auto simp: ureg_def split: uio_seg.splits option.splits if_splits)
  have "user_range (iov_ubase u) (unat sz)"
    using m(2) n user_range_prefix [of "iov_ubase u" "unat (iov_len u)" "unat sz"] by auto
  then have "copyout buf ptr (iov_ubase u) sz m =
      Some (Inr (), um_store (iov_ubase u) (take (unat sz) (drop ptr buf)) m)"
    using m(3) n(2) buf by (intro copyout_ok) auto
  then show ?thesis using False m(1) rw buf
    by (cases "uio_segflg u") (simp_all add: uiocopy_def usend_def uput_def uadv_def mn)
  qed
qed

lemma uiocopy_write:
  assumes reg: "ureg u = Some bs" and rw: "uio_rw u = UIO_WRITE"
    and n: "0 < unat sz" "unat sz \<le> unat (iov_len u)" and buf: "ptr + unat sz \<le> length buf"
  shows "\<exists>u'. uiocopy buf ptr sz u = Some (Inr (), patch buf ptr (take (unat sz) bs), u')
    \<and> u'\<lparr>iov_len := iov_len u' - sz, uio_resid := uio_resid u' - sz,
         uio_offset := s32 (uio_offset u' + uint sz)\<rparr> = uadv (unat sz) u"
proof (cases "uio_segflg u = UIO_SYSSPACE")
  case True
  then have "iov_koff u + unat (iov_len u) \<le> length (iov_kbuf u)"
    "bs = take (unat (iov_len u)) (drop (iov_koff u) (iov_kbuf u))"
    using reg by (auto simp: ureg_def split: if_splits)
  then show ?thesis using True rw buf n(2)
    by (simp add: uiocopy_def cmemcpy_ok uadv_def min_def)
next
  case False
  from reg False rw obtain m where m: "uio_space u = Some m" "iov_len u = 0 \<or> user_range (iov_ubase u) (unat (iov_len u))"
    "None \<notin> set (um_bytes m (iov_ubase u) (unat (iov_len u)))"
    "bs = map the (um_bytes m (iov_ubase u) (unat (iov_len u)))"
    by (auto simp: ureg_def split: uio_seg.splits option.splits if_splits)
  have "user_range (iov_ubase u) (unat sz)"
    using m(2) n user_range_prefix [of "iov_ubase u" "unat (iov_len u)" "unat sz"] by auto
  moreover have "um_bytes m (iov_ubase u) (unat sz) = map Some (take (unat sz) bs)"
  proof -
    have "map Some bs = um_bytes m (iov_ubase u) (unat (iov_len u))"
      unfolding m(4) by (rule map_Some_the [OF m(3)])
    then have "map Some (take (unat sz) bs) = take (unat sz) (um_bytes m (iov_ubase u) (unat (iov_len u)))"
      by (simp add: take_map [symmetric])
    then show ?thesis using n(2) by (simp add: um_bytes_def take_map min_def)
  qed
  ultimately have "copyin m (iov_ubase u) buf ptr sz =
      Some (Inr (), take ptr buf @ take (unat sz) bs @ drop (ptr + unat sz) buf)"
    using buf by (intro copyin_ok)
  then show ?thesis using False m(1) rw n(2) length_ureg [OF reg]
    by (cases "uio_segflg u") (simp_all add: uiocopy_def uadv_def patch_def min_def)
qed

lemma uiomove_loop_0 [simp]: "uiomove_loop buf ptr 0 u = Some (Inr (), buf, u)"
  by (subst uiomove_loop.simps) simp

text \<open>With room in the iovec and in the residue, the loop runs once.\<close>
lemma uiomove_loop_once:
  assumes "0 < n" "n \<le> iov_len u" "n \<le> uio_resid u"
    "uiocopy buf ptr n u = Some (Inr (), buf', u')"
  shows "uiomove_loop buf ptr n u = Some (Inr (), buf',
    u'\<lparr>iov_len := iov_len u' - n, uio_resid := uio_resid u' - n, uio_offset := s32 (uio_offset u' + uint n)\<rparr>)"
proof -
  have "(if iov_len u > n then n else iov_len u) = n" using assms(2) by auto
  moreover have "0 < uio_resid u" using assms(1,3) by simp
  ultimately show ?thesis using assms(1,4) by (subst uiomove_loop.simps) simp
qed

lemma ureg_assert:
  "ureg u \<noteq> None \<Longrightarrow> (if uio_segflg u = UIO_SYSSPACE then uio_space u = None else uio_space u \<noteq> None)"
  by (auto simp: ureg_def split: uio_seg.splits option.splits if_splits)

lemma uadv_0 [simp]: "s32 (uio_offset u) = uio_offset u \<Longrightarrow> uadv 0 u = u"
  by (simp add: uadv_def)

lemma usend_Nil [simp]: "s32 (uio_offset u) = uio_offset u \<Longrightarrow> usend [] u = u"
proof -
  assume "s32 (uio_offset u) = uio_offset u"
  moreover have "uput [] u = u"
    by (cases "uio_space u") (auto simp: uput_def um_store.simps)
  ultimately show ?thesis by (simp add: usend_def)
qed

lemma uiomove_read:
  assumes reg: "ureg u = Some bs" and rw: "uio_rw u = UIO_READ" and off: "s32 (uio_offset u) = uio_offset u"
    and n: "n \<le> iov_len u" "n \<le> uio_resid u" and buf: "ptr + unat n \<le> length buf"
  shows "uiomove buf ptr n u = Some (Inr (), buf, usend (take (unat n) (drop ptr buf)) u)"
proof (cases "n = 0")
  case True
  then show ?thesis using off ureg_assert [of u] reg by (simp add: uiomove_def)
next
  case False
  then have pos: "0 < n" "0 < unat n" by (simp_all add: unat_gt_0 word_greater_zero_iff)
  from uiocopy_read [OF reg rw pos(2) _ buf] n(1) obtain u' where
    u': "uiocopy buf ptr n u = Some (Inr (), buf, u')"
      "u'\<lparr>iov_len := iov_len u' - n, uio_resid := uio_resid u' - n,
         uio_offset := s32 (uio_offset u' + uint n)\<rparr> = usend (take (unat n) (drop ptr buf)) u"
    by (auto simp: word_le_nat_alt)
  show ?thesis
    using uiomove_loop_once [OF pos(1) n u'(1)] u'(2) ureg_assert [of u] reg by (simp add: uiomove_def)
qed

lemma uiomove_write:
  assumes reg: "ureg u = Some bs" and rw: "uio_rw u = UIO_WRITE" and off: "s32 (uio_offset u) = uio_offset u"
    and n: "n \<le> iov_len u" "n \<le> uio_resid u" and buf: "ptr + unat n \<le> length buf"
  shows "uiomove buf ptr n u = Some (Inr (), patch buf ptr (take (unat n) bs), uadv (unat n) u)"
proof (cases "n = 0")
  case True
  then show ?thesis using off ureg_assert [of u] reg by (simp add: uiomove_def)
next
  case False
  then have pos: "0 < n" "0 < unat n" by (simp_all add: unat_gt_0 word_greater_zero_iff)
  from uiocopy_write [OF reg rw pos(2) _ buf] n(1) obtain u' where
    u': "uiocopy buf ptr n u = Some (Inr (), patch buf ptr (take (unat n) bs), u')"
      "u'\<lparr>iov_len := iov_len u' - n, uio_resid := uio_resid u' - n,
         uio_offset := s32 (uio_offset u' + uint n)\<rparr> = uadv (unat n) u"
    by (auto simp: word_le_nat_alt)
  show ?thesis
    using uiomove_loop_once [OF pos(1) n u'(1)] u'(2) ureg_assert [of u] reg by (simp add: uiomove_def)
qed

lemma s32_idem [simp]: "s32 (s32 x) = s32 x"
  using s32_bounds [of x] by simp

lemma uiomovezeros_loop_ok:
  assumes "ureg u = Some bs" "uio_rw u = UIO_READ" "s32 (uio_offset u) = uio_offset u"
    "n \<le> iov_len u" "n \<le> uio_resid u"
  shows "uiomovezeros_loop n u = Some (Inr (), usend (replicate (unat n) 0) u)"
  using assms
proof (induction "unat n" arbitrary: n u bs rule: less_induct)
  case less
  show ?case
  proof (cases "n = 0")
    case True
    then show ?thesis using less.prems by (subst uiomovezeros_loop.simps) simp
  next
    case False
    define amt where "amt = (if 16 > n then n else 16)"
    have amt: "0 < unat amt" "amt \<le> n" "unat amt \<le> 16"
      using False by (auto simp: amt_def unat_gt_0 word_less_nat_alt word_le_nat_alt not_less)
    define u1 where "u1 = usend (replicate (unat amt) 0) u"
    have le: "amt \<le> iov_len u" "amt \<le> uio_resid u" using amt(2) less.prems(4,5) by auto
    have mv: "uiomove (replicate 16 0) 0 amt u = Some (Inr (), replicate 16 0, u1)"
      using uiomove_read [OF less.prems(1-3) le, of 0 "replicate 16 0"] amt(3)
      by (simp add: u1_def min_def)
    have rest: "uiomovezeros_loop (n - amt) u1 = Some (Inr (), usend (replicate (unat (n - amt)) 0) u1)"
    proof (rule less.hyps)
      show "unat (n - amt) < unat n" using amt by (simp add: unat_sub word_le_nat_alt)
      show "ureg u1 = Some (drop (unat amt) bs)"
        using ureg_usend [OF less.prems(1,2), of "replicate (unat amt) 0"] le(1)
        by (simp add: u1_def word_le_nat_alt)
      show "n - amt \<le> iov_len u1" "n - amt \<le> uio_resid u1"
        using less.prems(4,5) amt(2) le by (simp_all add: u1_def word_le_nat_alt unat_sub)
    qed (use less.prems in \<open>simp_all add: u1_def\<close>)
    have "uiomovezeros_loop n u = uiomovezeros_loop (n - amt) u1"
      using False mv by (subst uiomovezeros_loop.simps) (simp add: word_greater_zero_iff flip: amt_def)
    also have "\<dots> = Some (Inr (), usend (replicate (unat amt) 0 @ replicate (unat n - unat amt) 0) u)"
      using rest usend_usend [OF less.prems(1), of "replicate (unat amt) 0" "replicate (unat n - unat amt) 0"]
        amt(2) less.prems(4) by (simp add: u1_def unat_sub word_le_nat_alt)
    finally show ?thesis using amt(2) by (simp add: replicate_add [symmetric] word_le_nat_alt)
  qed
qed

lemma uiomovezeros_ok:
  assumes "ureg u = Some bs" "uio_rw u = UIO_READ" "s32 (uio_offset u) = uio_offset u"
    "n \<le> iov_len u" "n \<le> uio_resid u"
  shows "uiomovezeros n u = Some (Inr (), usend (replicate (unat n) 0) u)"
  using uiomovezeros_loop_ok [OF assms] assms(2) by (simp add: uiomovezeros_def)

lemma mk_kuio_simps [simp]:
  "iov_kbuf (mk_kuio kbuf koff len pos rw) = kbuf" "iov_koff (mk_kuio kbuf koff len pos rw) = koff"
  "iov_len (mk_kuio kbuf koff len pos rw) = len" "uio_offset (mk_kuio kbuf koff len pos rw) = pos"
  "uio_resid (mk_kuio kbuf koff len pos rw) = len" "uio_rw (mk_kuio kbuf koff len pos rw) = rw"
  "uio_segflg (mk_kuio kbuf koff len pos rw) = UIO_SYSSPACE"
  by (simp_all add: mk_kuio_def)

lemma ureg_mk_kuio:
  "koff + unat len \<le> length kbuf \<Longrightarrow>
    ureg (mk_kuio kbuf koff len pos rw) = Some (take (unat len) (drop koff kbuf))"
  by (simp add: ureg_def mk_kuio_def)

text \<open>The object a kernel uio points into, after a transfer.\<close>
lemma iov_kbuf_usend_kuio [simp]:
  "iov_kbuf (usend xs (mk_kuio kbuf koff len pos rw)) = patch kbuf koff xs"
  by (simp add: usend_def uput_def)

section \<open>Properties\<close>

text \<open>
  C24. \<^verbatim>\<open>uiomove\<close> through an accessible region, kernel or user, moves exactly the \<open>n\<close> bytes: a
  read stores the buffer at the start of the region, a write stores the start of the
  region in the buffer; the offset grows and the residue and the region shrink by \<open>n\<close>, and
  nothing else of the region or of the buffer changes.
\<close>
theorem uiomove_correct:
  assumes "ureg u = Some bs" "n \<le> iov_len u" "n \<le> uio_resid u" "ptr + unat n \<le> length buf"
    "s32 (uio_offset u) = uio_offset u"
  shows "\<exists>buf' u'. uiomove buf ptr n u = Some (Inr (), buf', u')
    \<and> uio_offset u' = s32 (uio_offset u + uint n) \<and> uio_resid u' = uio_resid u - n
    \<and> iov_len u' = iov_len u - n \<and> ureg u' = Some (drop (unat n) bs)
    \<and> (if uio_rw u = UIO_READ
       then buf' = buf \<and> ureg (urewind u u') = Some (take (unat n) (drop ptr buf) @ drop (unat n) bs)
       else buf' = patch buf ptr (take (unat n) bs) \<and> ureg (urewind u u') = Some bs)"
proof (cases "uio_rw u = UIO_READ")
  case True
  let ?xs = "take (unat n) (drop ptr buf)"
  have len: "length ?xs = unat n" using assms(4) by simp
  have le: "length ?xs \<le> unat (iov_len u)" using len assms(2) by (simp add: word_le_nat_alt)
  show ?thesis
    using uiomove_read [OF assms(1) True assms(5,2,3,4)] ureg_usend [OF assms(1) True le]
      ureg_urewind [OF assms(1) True le] True len by simp
next
  case False
  then have rw: "uio_rw u = UIO_WRITE" by (cases "uio_rw u") simp_all
  have "ureg (urewind u (uadv (unat n) u)) = ureg u"
    by (cases "uio_segflg u"; cases "uio_space u") (simp_all add: ureg_def urewind_def uadv_def)
  then show ?thesis
    using uiomove_write [OF assms(1) rw assms(5,2,3,4)] ureg_uadv [OF assms(1), of "unat n"] assms(1,2) False
    by (simp add: word_le_nat_alt)
qed

definition uio_ex :: uio where
  "uio_ex = \<lparr>iov_kbuf = [1, 2, 3, 4], iov_koff = 1, iov_ubase = 0, iov_len = 3, uio_offset = 10,
     uio_resid = 3, uio_segflg = UIO_SYSSPACE, uio_rw = UIO_READ, uio_space = None\<rparr>"

lemma uio_ex_reg: "ureg uio_ex = Some [2, 3, 4]"
  by (simp add: uio_ex_def ureg_def)

theorem uiomove_correct_witness:
  "\<exists>u'. uiomove [7, 8, 9] 1 2 uio_ex = Some (Inr (), [7, 8, 9], u') \<and> uio_resid u' = 1
    \<and> uio_offset u' = 12 \<and> ureg (urewind uio_ex u') = Some [8, 9, 4]"
  using uiomove_correct [OF uio_ex_reg, of 2 1 "[7, 8, 9]"] by (auto simp: uio_ex_def)



end
