(* ===== verification/Lhd_Disk.thy ===== *)
theory Lhd_Disk
  imports Kern_Uio
begin

unbundle bit_operations_syntax

text \<open>
  The LAMEbus hard disk driver, \<^verbatim>\<open>kern/dev/lamebus/lhd.c\<close>. \<open>lhd\<close> is \<^verbatim>\<open>struct lhd_softc\<close>
  with its \<^verbatim>\<open>struct device\<close>, the on-card buffer, and the disk behind the registers.

  The disk is hardware and a parameter: \<open>hd_sectors\<close> is its contents, and the status it
  reports for its \<open>n\<close>-th operation is \<open>hd_status n\<close>, an arbitrary function. An operation it
  reports as \<^verbatim>\<open>LHD_OK\<close> transfers the buffer to the sector or back; any other leaves both.
  The completion interrupt is taken where the driver waits for it. The two semaphores are
  their counts: waiting on a count of zero, which no other thread would ever raise here, is
  \<open>None\<close>.

  What a file system relies on is the locale \<open>block_device\<close>, interpreted on \<^verbatim>\<open>lhd_io\<close>.
\<close>

section \<open>Model\<close>

record lhd =
  lh_buf :: "u8 list"
  lh_result :: "errno + unit"
  lh_clear :: int
  lh_done :: int
  d_blocks :: u32
  d_blocksize :: u32
  hd_sectors :: "u8 list list"
  hd_ops :: nat
  hd_status :: "nat \<Rightarrow> u32"

definition LHD_SECTSIZE :: u32 where "LHD_SECTSIZE = 512"
definition LHD_OK :: u32 where "LHD_OK = 4"
definition LHD_INVSECT :: u32 where "LHD_INVSECT = 12"
definition LHD_MEDIA :: u32 where "LHD_MEDIA = 20"
definition LHD_STATEMASK :: u32 where "LHD_STATEMASK = 0x1d"

definition lhd_code_to_errno :: "u32 \<Rightarrow> errno + unit" where
  "lhd_code_to_errno code =
     (if code AND LHD_STATEMASK = LHD_OK then Inr ()
      else if code AND LHD_STATEMASK = LHD_INVSECT then Inl EINVAL
      else if code AND LHD_STATEMASK = LHD_MEDIA then Inl EIO
      else Inl EAGAIN)"

definition lhd_iodone :: "errno + unit \<Rightarrow> lhd \<Rightarrow> lhd" where
  "lhd_iodone err lh = lh\<lparr>lh_result := err, lh_done := lh_done lh + 1\<rparr>"

text \<open>The interrupt handler, on the value \<open>val\<close> it reads from the status register.\<close>
definition lhd_irq :: "u32 \<Rightarrow> lhd \<Rightarrow> lhd" where
  "lhd_irq val lh =
     (if val AND LHD_STATEMASK \<in> {LHD_OK, LHD_INVSECT, LHD_MEDIA}
      then lhd_iodone (lhd_code_to_errno val) lh else lh)"

text \<open>The disk performs an operation on a sector.\<close>
definition hd_run :: "bool \<Rightarrow> u32 \<Rightarrow> lhd \<Rightarrow> u32 \<times> lhd" where
  "hd_run write sect lh =
     (let val = hd_status lh (hd_ops lh); lh' = lh\<lparr>hd_ops := Suc (hd_ops lh)\<rparr>
      in (val,
          if val AND LHD_STATEMASK = LHD_OK \<and> unat sect < length (hd_sectors lh)
          then if write then lh'\<lparr>hd_sectors := (hd_sectors lh)[unat sect := lh_buf lh]\<rparr>
               else lh'\<lparr>lh_buf := hd_sectors lh ! unat sect\<rparr>
          else lh'))"

definition sem_wait_count :: "int \<Rightarrow> int option" where
  "sem_wait_count c = (if c > 0 then Some (c - 1) else None)"

text \<open>One iteration of the loop of \<^verbatim>\<open>lhd_io\<close>, for the sector number \<open>sect\<close>.\<close>
definition lhd_io_sector :: "u32 \<Rightarrow> lhd \<Rightarrow> uio \<Rightarrow> ((errno + unit) \<times> lhd \<times> uio) option" where
  "lhd_io_sector sect lh uio = do {
     c \<leftarrow> sem_wait_count (lh_clear lh);
     let lh = lh\<lparr>lh_clear := c\<rparr>;
     (result, buf, uio) \<leftarrow>
       (if uio_rw uio = UIO_WRITE then uiomove (lh_buf lh) 0 LHD_SECTSIZE uio
        else Some (Inr (), lh_buf lh, uio));
     let lh = lh\<lparr>lh_buf := buf\<rparr>;
     case result of
       Inl err \<Rightarrow> Some (Inl err, lh\<lparr>lh_clear := lh_clear lh + 1\<rparr>, uio)
     | Inr _ \<Rightarrow> do {
         let (val, lh) = hd_run (uio_rw uio = UIO_WRITE) sect lh;
         let lh = lhd_irq val lh;
         c \<leftarrow> sem_wait_count (lh_done lh);
         let lh = lh\<lparr>lh_done := c\<rparr>;
         let result = lh_result lh;
         (result, buf, uio) \<leftarrow>
           (if result = Inr () \<and> uio_rw uio = UIO_READ
            then uiomove (lh_buf lh) 0 LHD_SECTSIZE uio else Some (result, lh_buf lh, uio));
         let lh = lh\<lparr>lh_buf := buf, lh_clear := lh_clear lh + 1\<rparr>;
         Some (result, lh, uio)
       }
   }"

primrec lhd_io_loop :: "nat \<Rightarrow> u32 \<Rightarrow> lhd \<Rightarrow> uio \<Rightarrow> ((errno + unit) \<times> lhd \<times> uio) option" where
  "lhd_io_loop 0 sect lh uio = Some (Inr (), lh, uio)"
| "lhd_io_loop (Suc n) sect lh uio = do {
     (result, lh, uio) \<leftarrow> lhd_io_sector sect lh uio;
     case result of
       Inl err \<Rightarrow> Some (Inl err, lh, uio)
     | Inr _ \<Rightarrow> lhd_io_loop n (sect + 1) lh uio
   }"

definition lhd_io :: "lhd \<Rightarrow> uio \<Rightarrow> ((errno + unit) \<times> lhd \<times> uio) option" where
  "lhd_io lh uio =
     (let sector = word_of_int (uio_offset uio sdiv 512);
          sectoff = word_of_int (uio_offset uio smod 512);
          len = uio_resid uio div LHD_SECTSIZE;
          lenoff = uio_resid uio mod LHD_SECTSIZE
      in if sectoff \<noteq> (0 :: u32) \<or> lenoff \<noteq> 0 then Some (Inl EINVAL, lh, uio)
         else if sector + len > d_blocks lh then Some (Inl EINVAL, lh, uio)
         else lhd_io_loop (unat len) sector lh uio)"

section \<open>The contract of a block device\<close>

text \<open>
  One-sector requests on a device that is idle. \<open>next_ok\<close> says whether the next operation of
  the medium succeeds. A failed write has already consumed the data of the uio.
\<close>
locale block_device =
  fixes inv :: "'d \<Rightarrow> bool" and sectors :: "'d \<Rightarrow> u8 list list" and next_ok :: "'d \<Rightarrow> bool"
    and io :: "'d \<Rightarrow> uio \<Rightarrow> ((errno + unit) \<times> 'd \<times> uio) option"
  assumes sector_length: "inv d \<Longrightarrow> s < length (sectors d) \<Longrightarrow> length (sectors d ! s) = 512"
    and few_sectors: "inv d \<Longrightarrow> length (sectors d) < 2 ^ 22"
    and io_empty: "inv d \<Longrightarrow> s \<le> length (sectors d) \<Longrightarrow> uio_offset u = int s * 512 \<Longrightarrow> uio_resid u = 0 \<Longrightarrow>
      io d u = Some (Inr (), d, u)"
    and io_read: "inv d \<Longrightarrow> s < length (sectors d) \<Longrightarrow> uio_offset u = int s * 512 \<Longrightarrow> uio_resid u = 512 \<Longrightarrow>
      512 \<le> iov_len u \<Longrightarrow> ureg u = Some bs \<Longrightarrow> uio_rw u = UIO_READ \<Longrightarrow>
      \<exists>d'. inv d' \<and> sectors d' = sectors d \<and>
        io d u = Some (if next_ok d then (Inr (), d', usend (sectors d ! s) u) else (Inl EIO, d', u))"
    and io_write: "inv d \<Longrightarrow> s < length (sectors d) \<Longrightarrow> uio_offset u = int s * 512 \<Longrightarrow> uio_resid u = 512 \<Longrightarrow>
      512 \<le> iov_len u \<Longrightarrow> ureg u = Some bs \<Longrightarrow> uio_rw u = UIO_WRITE \<Longrightarrow>
      \<exists>d'. inv d' \<and> sectors d' = (if next_ok d then (sectors d)[s := take 512 bs] else sectors d) \<and>
        io d u = Some (if next_ok d then Inr () else Inl EIO, d', uadv 512 u)"

text \<open>
  Repeating a failed request on the same uio at most \<open>n\<close> times, as \<^verbatim>\<open>sfs_rwblock\<close> does; a
  result of \<open>EINVAL\<close> is a panic there.
\<close>
primrec retry_io :: "nat \<Rightarrow> ('d \<Rightarrow> uio \<Rightarrow> ((errno + unit) \<times> 'd \<times> uio) option)
    \<Rightarrow> 'd \<Rightarrow> uio \<Rightarrow> ((errno + unit) \<times> 'd \<times> uio) option" where
  "retry_io 0 d_io d uio = do {
     (result, d, uio) \<leftarrow> d_io d uio;
     kassert (result \<noteq> Inl EINVAL);
     Some (result, d, uio)
   }"
| "retry_io (Suc n) d_io d uio = do {
     (result, d, uio) \<leftarrow> d_io d uio;
     kassert (result \<noteq> Inl EINVAL);
     if result = Inl EIO then retry_io n d_io d uio else Some (result, d, uio)
   }"

context block_device
begin

lemma retry_read:
  assumes "inv d" "s < length (sectors d)" "uio_offset u = int s * 512" "uio_resid u = 512"
    "512 \<le> iov_len u" "ureg u = Some bs" "uio_rw u = UIO_READ"
  shows "\<exists>d'. inv d' \<and> sectors d' = sectors d \<and>
    (retry_io n io d u = Some (Inr (), d', usend (sectors d ! s) u) \<or>
     \<not> next_ok d \<and> retry_io n io d u = Some (Inl EIO, d', u))"
  using assms
proof (induction n arbitrary: d)
  case 0
  from io_read [OF 0] show ?case by (auto split: if_splits)
next
  case (Suc n)
  from io_read [OF Suc.prems] obtain d' where d': "inv d'" "sectors d' = sectors d"
    "io d u = Some (if next_ok d then (Inr (), d', usend (sectors d ! s) u) else (Inl EIO, d', u))"
    by blast
  show ?case
  proof (cases "next_ok d")
    case True
    then show ?thesis using d' by auto
  next
    case False
    then show ?thesis using d' Suc.IH [of d'] Suc.prems by auto
  qed
qed

text \<open>
  A write that fails once is reported as done: the first attempt has used up the data, so
  that the second one transfers nothing, successfully.
\<close>
lemma retry_write:
  assumes "inv d" "s < length (sectors d)" "uio_offset u = int s * 512" "uio_resid u = 512"
    "512 \<le> iov_len u" "ureg u = Some bs" "uio_rw u = UIO_WRITE"
  shows "\<exists>d'. inv d' \<and> sectors d' = (if next_ok d then (sectors d)[s := take 512 bs] else sectors d) \<and>
    retry_io (Suc n) io d u = Some (Inr (), d', uadv 512 u)"
proof -
  from io_write [OF assms] obtain d' where d': "inv d'"
    "sectors d' = (if next_ok d then (sectors d)[s := take 512 bs] else sectors d)"
    "io d u = Some (if next_ok d then Inr () else Inl EIO, d', uadv 512 u)"
    by blast
  have "io d' (uadv 512 u) = Some (Inr (), d', uadv 512 u)"
  proof (rule io_empty [OF d'(1), of "Suc s"])
    show "Suc s \<le> length (sectors d')" using d'(2) assms(2) by simp
    show "uio_offset (uadv 512 u) = int (Suc s) * 512"
      using assms(2,3) few_sectors [OF assms(1)] by simp
  qed (use assms(4) in simp)
  then have "retry_io n io d' (uadv 512 u) = Some (Inr (), d', uadv 512 u)"
    by (cases n) auto
  then show ?thesis using d' by auto
qed

end

text \<open>Devices whose medium no longer fails.\<close>
locale faultless_device = block_device +
  fixes good :: "'a \<Rightarrow> bool"
  assumes good_next: "inv d \<Longrightarrow> good d \<Longrightarrow> next_ok d"
    and good_io: "good d \<Longrightarrow> io d u = Some (r, d', u') \<Longrightarrow> good d'"
begin

lemma good_retry: "good d \<Longrightarrow> retry_io n io d u = Some (r, d', u') \<Longrightarrow> good d'"
  by (induction n arbitrary: d u) (auto split: bind_splits if_splits dest: good_io)

lemma good_read:
  assumes "inv d" "good d" "s < length (sectors d)" "uio_offset u = int s * 512" "uio_resid u = 512"
    "512 \<le> iov_len u" "ureg u = Some bs" "uio_rw u = UIO_READ"
  shows "\<exists>d'. inv d' \<and> good d' \<and> sectors d' = sectors d \<and>
    retry_io n io d u = Some (Inr (), d', usend (sectors d ! s) u)"
  using retry_read [OF assms(1,3-8), of n] good_next [OF assms(1,2)] good_retry [OF assms(2)] by blast

lemma good_write:
  assumes "inv d" "good d" "s < length (sectors d)" "uio_offset u = int s * 512" "uio_resid u = 512"
    "512 \<le> iov_len u" "ureg u = Some bs" "uio_rw u = UIO_WRITE"
  shows "\<exists>d'. inv d' \<and> good d' \<and> sectors d' = (sectors d)[s := take 512 bs] \<and>
    retry_io (Suc n) io d u = Some (Inr (), d', uadv 512 u)"
  using retry_write [OF assms(1,3-8), of n] good_next [OF assms(1,2)] good_retry [OF assms(2), of "Suc n"]
  by (auto simp del: retry_io.simps)

end

section \<open>The driver meets the contract\<close>

text \<open>The driver is idle, and the disk knows its size and reports success or a media error.\<close>
definition lhd_inv :: "lhd \<Rightarrow> bool" where
  "lhd_inv lh \<longleftrightarrow> lh_clear lh = 1 \<and> lh_done lh = 0 \<and> length (lh_buf lh) = 512
     \<and> d_blocksize lh = 512 \<and> length (hd_sectors lh) < 2 ^ 22
     \<and> unat (d_blocks lh) = length (hd_sectors lh) \<and> (\<forall>xs\<in>set (hd_sectors lh). length xs = 512)
     \<and> (\<forall>n. hd_status lh n AND LHD_STATEMASK \<in> {LHD_OK, LHD_MEDIA})"

definition lhd_next_ok :: "lhd \<Rightarrow> bool" where
  "lhd_next_ok lh \<longleftrightarrow> hd_status lh (hd_ops lh) AND LHD_STATEMASK = LHD_OK"

lemma lhd_inv_dest:
  assumes "lhd_inv lh"
  shows "lh_clear lh = 1" "lh_done lh = 0" "length (lh_buf lh) = 512" "length (hd_sectors lh) < 2 ^ 22"
    "unat (d_blocks lh) = length (hd_sectors lh)" "s < length (hd_sectors lh) \<Longrightarrow> length (hd_sectors lh ! s) = 512"
    "hd_status lh n AND LHD_STATEMASK = LHD_OK \<or> hd_status lh n AND LHD_STATEMASK = LHD_MEDIA"
  using assms by (auto simp: lhd_inv_def)

lemmas lhd_consts = LHD_OK_def LHD_INVSECT_def LHD_MEDIA_def

text \<open>The state after one operation of the disk and its interrupt.\<close>
lemma lhd_done_conj:
  assumes inv: "lhd_inv lh" and s: "unat sect < length (hd_sectors lh)"
    and lh': "lh' = lh\<lparr>lh_clear := 0, lh_buf := buf\<rparr>" "length buf = 512"
    and lh2_def: "lh2 = (case hd_run write sect lh' of (val, lh) \<Rightarrow> lhd_irq val lh)"
  shows "lh_done lh2 = 1 \<and> lh_result lh2 = (if lhd_next_ok lh then Inr () else Inl EIO)
    \<and> lh_clear lh2 = 0 \<and> length (lh_buf lh2) = 512
    \<and> (\<not> write \<longrightarrow> lhd_next_ok lh \<longrightarrow> lh_buf lh2 = hd_sectors lh ! unat sect)
    \<and> hd_sectors lh2 = (if write \<and> lhd_next_ok lh then (hd_sectors lh)[unat sect := buf] else hd_sectors lh)
    \<and> (\<forall>b. length b = 512 \<longrightarrow> lhd_inv (lh2\<lparr>lh_buf := b, lh_clear := 1, lh_done := 0\<rparr>))"
proof (cases "hd_status lh (hd_ops lh) AND LHD_STATEMASK = LHD_OK")
  case True
  then show ?thesis using s lh' inv
    by (auto simp: lh2_def hd_run_def lhd_irq_def lhd_iodone_def lhd_code_to_errno_def lhd_next_ok_def
      Let_def lhd_inv_def dest!: set_update_subset_insert [THEN subsetD])
next
  case False
  then have "hd_status lh (hd_ops lh) AND LHD_STATEMASK = LHD_MEDIA"
    using lhd_inv_dest(7) [OF inv] by blast
  then show ?thesis using s lh' inv
    by (auto simp: lh2_def hd_run_def lhd_irq_def lhd_iodone_def lhd_code_to_errno_def lhd_next_ok_def
      Let_def lhd_inv_def lhd_consts)
qed

lemmas lhd_done_result = lhd_done_conj [THEN conjunct1] lhd_done_conj [THEN conjunct2, THEN conjunct1]
  lhd_done_conj [THEN conjunct2, THEN conjunct2, THEN conjunct1]
  lhd_done_conj [THEN conjunct2, THEN conjunct2, THEN conjunct2, THEN conjunct1]
  lhd_done_conj [THEN conjunct2, THEN conjunct2, THEN conjunct2, THEN conjunct2, THEN conjunct1, rule_format]
  lhd_done_conj [THEN conjunct2, THEN conjunct2, THEN conjunct2, THEN conjunct2, THEN conjunct2, THEN conjunct1]
  lhd_done_conj [THEN conjunct2, THEN conjunct2, THEN conjunct2, THEN conjunct2, THEN conjunct2, THEN conjunct2, rule_format]

lemma lhd_io_sector_read:
  assumes inv: "lhd_inv lh" and s: "unat sect < length (hd_sectors lh)"
    and u: "512 \<le> uio_resid u" "512 \<le> iov_len u" "ureg u = Some bs" "uio_rw u = UIO_READ"
      "s32 (uio_offset u) = uio_offset u"
  shows "\<exists>lh'. lhd_inv lh' \<and> hd_sectors lh' = hd_sectors lh \<and> lhd_io_sector sect lh u =
    Some (if lhd_next_ok lh then (Inr (), lh', usend (hd_sectors lh ! unat sect) u) else (Inl EIO, lh', u))"
proof -
  note d = lhd_inv_dest [OF inv]
  define lh1 where "lh1 = lh\<lparr>lh_clear := 0, lh_buf := lh_buf lh\<rparr>"
  define lh2 where "lh2 = (case hd_run False sect lh1 of (val, lh) \<Rightarrow> lhd_irq val lh)"
  note r = lhd_done_result [OF inv s lh1_def d(3) lh2_def]
  have mv: "uiomove (lh_buf lh2) 0 512 u = Some (Inr (), lh_buf lh2, usend (lh_buf lh2) u)"
    using uiomove_read [OF u(3,4,5,2), of 0 "lh_buf lh2"] u(1) r(4) by simp
  then have mv': "uiomove (hd_sectors lh ! unat sect) 0 512 u =
      Some (Inr (), hd_sectors lh ! unat sect, usend (hd_sectors lh ! unat sect) u)" if "lhd_next_ok lh"
    using r(5) that by simp
  let ?lh = "lh2\<lparr>lh_buf := lh_buf lh2, lh_clear := 1, lh_done := 0\<rparr>"
  have "lhd_io_sector sect lh u =
      Some (if lhd_next_ok lh then (Inr (), ?lh, usend (hd_sectors lh ! unat sect) u) else (Inl EIO, ?lh, u))"
    using mv' r(1-3,5) d(1) u(4)
    by (simp add: lhd_io_sector_def sem_wait_count_def LHD_SECTSIZE_def lh1_def lh2_def case_prod_beta Let_def)
  moreover have "lhd_inv ?lh" "hd_sectors ?lh = hd_sectors lh" using r(6) r(7) [OF r(4)] by simp_all
  ultimately show ?thesis by blast
qed

lemma lhd_io_sector_write:
  assumes inv: "lhd_inv lh" and s: "unat sect < length (hd_sectors lh)"
    and u: "512 \<le> uio_resid u" "512 \<le> iov_len u" "ureg u = Some bs" "uio_rw u = UIO_WRITE"
      "s32 (uio_offset u) = uio_offset u"
  shows "\<exists>lh'. lhd_inv lh' \<and>
    hd_sectors lh' = (if lhd_next_ok lh then (hd_sectors lh)[unat sect := take 512 bs] else hd_sectors lh) \<and>
    lhd_io_sector sect lh u = Some (if lhd_next_ok lh then Inr () else Inl EIO, lh', uadv 512 u)"
proof -
  note d = lhd_inv_dest [OF inv]
  have len: "512 \<le> length bs" using length_ureg [OF u(3)] u(2) by (simp add: word_le_nat_alt)
  have mv: "uiomove (lh_buf lh) 0 512 u = Some (Inr (), take 512 bs, uadv 512 u)"
    using uiomove_write [OF u(3,4,5,2), of 0 "lh_buf lh"] u(1) d(3) len by (simp add: patch_def)
  define lh1 where "lh1 = lh\<lparr>lh_clear := 0, lh_buf := take 512 bs\<rparr>"
  define lh2 where "lh2 = (case hd_run True sect lh1 of (val, lh) \<Rightarrow> lhd_irq val lh)"
  have l: "length (take 512 bs) = 512" using len by simp
  note r = lhd_done_result [OF inv s lh1_def l lh2_def]
  let ?lh = "lh2\<lparr>lh_buf := lh_buf lh2, lh_clear := 1, lh_done := 0\<rparr>"
  have "lhd_io_sector sect lh u = Some (if lhd_next_ok lh then Inr () else Inl EIO, ?lh, uadv 512 u)"
    using mv r(1-3) d(1) u(4)
    by (simp add: lhd_io_sector_def sem_wait_count_def LHD_SECTSIZE_def lh1_def lh2_def case_prod_beta Let_def)
  moreover have "lhd_inv ?lh" using r(7) [OF r(4)] by simp
  moreover have "hd_sectors ?lh = (if lhd_next_ok lh then (hd_sectors lh)[unat sect := take 512 bs] else hd_sectors lh)"
    using r(6) by simp
  ultimately show ?thesis by blast
qed

lemma resid_sectors: "unat (w :: u32) = 512 * k \<Longrightarrow> w div 512 = of_nat k"
proof -
  assume "unat w = 512 * k"
  then have k: "unat (w div 512) = k" by (simp add: unat_div)
  show ?thesis unfolding k [symmetric] by simp
qed

text \<open>The request checks of \<^verbatim>\<open>lhd_io\<close> for whole sectors inside the disk.\<close>
lemma lhd_io_aligned:
  assumes inv: "lhd_inv lh" and s: "s + k \<le> length (hd_sectors lh)"
    and u: "uio_offset u = int s * 512" "unat (uio_resid u) = 512 * k"
  shows "lhd_io lh u = lhd_io_loop k (of_nat s) lh u"
proof -
  note d = lhd_inv_dest [OF inv]
  have q: "uio_offset u sdiv 512 = int s" "uio_offset u smod 512 = 0"
    using u(1) by (simp_all add: sdiv_nonneg smod_nonneg)
  have k: "unat (uio_resid u div 512) = k" "unat (uio_resid u mod 512) = 0"
    using u(2) by (simp_all add: unat_div unat_mod)
  have "unat (of_nat s + uio_resid u div 512) = s + k"
  proof -
    have "uio_resid u div 512 = of_nat k" by (rule resid_sectors [OF u(2)])
    then have "of_nat s + uio_resid u div 512 = of_nat (s + k)" by simp
    then show ?thesis using s d(4) unat_of_nat_u32 [of "s + k"] by (simp only:) simp
  qed
  then have "\<not> d_blocks lh < of_nat s + uio_resid u div 512"
    using s d(5) by (simp add: word_less_nat_alt)
  moreover have "uio_resid u mod 512 = 0" using k(2) by (simp add: unat_eq_0)
  ultimately show ?thesis
    using q k(1) by (simp add: lhd_io_def Let_def LHD_SECTSIZE_def)
qed

interpretation lhd: block_device lhd_inv hd_sectors lhd_next_ok lhd_io
proof
  fix lh :: lhd and s :: nat and u :: uio and bs
  assume inv: "lhd_inv lh"
  note d = lhd_inv_dest [OF inv]
  show "s < length (hd_sectors lh) \<Longrightarrow> length (hd_sectors lh ! s) = 512" by (rule d(6))
  show "length (hd_sectors lh) < 2 ^ 22" by (rule d(4))
  show "lhd_io lh u = Some (Inr (), lh, u)"
    if "s \<le> length (hd_sectors lh)" "uio_offset u = int s * 512" "uio_resid u = 0"
    using lhd_io_aligned [OF inv, of s 0 u] that by simp
  assume s: "s < length (hd_sectors lh)" and off: "uio_offset u = int s * 512"
    and r: "uio_resid u = 512" "512 \<le> iov_len u" "ureg u = Some bs"
  have sect: "unat (of_nat s :: u32) = s" using s d(4) by (intro unat_of_nat_u32) simp
  have o: "s32 (uio_offset u) = uio_offset u" using off s d(4) by simp
  have r': "512 \<le> uio_resid u" using r(1) by simp
  have run: "lhd_io lh u = lhd_io_loop 1 (of_nat s) lh u"
    using lhd_io_aligned [OF inv, of s 1 u] s off r(1) by simp
  show "\<exists>lh'. lhd_inv lh' \<and> hd_sectors lh' = hd_sectors lh \<and> lhd_io lh u =
      Some (if lhd_next_ok lh then (Inr (), lh', usend (hd_sectors lh ! s) u) else (Inl EIO, lh', u))"
    if "uio_rw u = UIO_READ"
    using lhd_io_sector_read [OF inv _ r' r(2,3) that o, of "of_nat s"] s sect run by (auto split: if_splits)
  show "\<exists>lh'. lhd_inv lh' \<and>
      hd_sectors lh' = (if lhd_next_ok lh then (hd_sectors lh)[s := take 512 bs] else hd_sectors lh) \<and>
      lhd_io lh u = Some (if lhd_next_ok lh then Inr () else Inl EIO, lh', uadv 512 u)"
    if "uio_rw u = UIO_WRITE"
    using lhd_io_sector_write [OF inv _ r' r(2,3) that o, of "of_nat s"] s sect run by (auto split: if_splits)
qed

definition lhd_good :: "lhd \<Rightarrow> bool" where
  "lhd_good lh \<longleftrightarrow> (\<forall>n\<ge>hd_ops lh. hd_status lh n AND LHD_STATEMASK = LHD_OK)"

lemma lhd_good_mono:
  "lhd_good lh \<Longrightarrow> hd_status lh' = hd_status lh \<Longrightarrow> hd_ops lh \<le> hd_ops lh' \<Longrightarrow> lhd_good lh'"
  by (auto simp: lhd_good_def)

lemma lhd_io_sector_hw:
  "lhd_io_sector sect lh u = Some (r, lh', u') \<Longrightarrow> hd_status lh' = hd_status lh \<and> hd_ops lh \<le> hd_ops lh'"
  by (auto simp: lhd_io_sector_def hd_run_def lhd_irq_def lhd_iodone_def Let_def
      split: bind_splits if_splits sum.splits)

lemma lhd_io_sector_good: "lhd_io_sector sect lh u = Some (r, lh', u') \<Longrightarrow> lhd_good lh \<Longrightarrow> lhd_good lh'"
  using lhd_io_sector_hw lhd_good_mono by metis

lemma lhd_io_loop_good: "lhd_io_loop n sect lh u = Some (r, lh', u') \<Longrightarrow> lhd_good lh \<Longrightarrow> lhd_good lh'"
  by (induction n arbitrary: sect lh u) (auto split: bind_splits sum.splits dest: lhd_io_sector_good)

interpretation lhd: faultless_device lhd_inv hd_sectors lhd_next_ok lhd_io lhd_good
proof
  show "lhd_inv lh \<Longrightarrow> lhd_good lh \<Longrightarrow> lhd_next_ok lh" for lh
    by (simp add: lhd_good_def lhd_next_ok_def)
  show "lhd_good lh \<Longrightarrow> lhd_io lh u = Some (r, lh', u') \<Longrightarrow> lhd_good lh'" for lh u r lh' u'
    by (auto simp: lhd_io_def Let_def split: if_splits dest: lhd_io_loop_good)
qed

section \<open>Requests of several sectors\<close>

text \<open>The sector-sized pieces of a byte sequence.\<close>
primrec chunks :: "nat \<Rightarrow> u8 list \<Rightarrow> u8 list list" where
  "chunks 0 xs = []"
| "chunks (Suc k) xs = take 512 xs # chunks k (drop 512 xs)"

lemma length_chunks [simp]: "length (chunks k xs) = k"
  by (induction k arbitrary: xs) auto

lemma length_concat_512: "\<forall>xs\<in>set ss. length xs = 512 \<Longrightarrow> length (concat ss) = 512 * length ss"
  by (induction ss) auto

lemma unat_next_sector:
  "lhd_inv lh \<Longrightarrow> unat sect < length (hd_sectors lh) \<Longrightarrow> unat (sect + 1 :: u32) = Suc (unat sect)"
  using lhd_inv_dest(4) [of lh] by (simp add: unat_word_ariths)

lemma lhd_io_loop_read:
  assumes "lhd_inv lh" "lhd_good lh" "unat sect + k \<le> length (hd_sectors lh)" "512 * k \<le> unat (uio_resid u)"
    "512 * k \<le> unat (iov_len u)" "ureg u = Some bs" "uio_rw u = UIO_READ" "s32 (uio_offset u) = uio_offset u"
  shows "\<exists>lh'. lhd_inv lh' \<and> lhd_good lh' \<and> hd_sectors lh' = hd_sectors lh \<and>
    lhd_io_loop k sect lh u = Some (Inr (), lh', usend (concat (take k (drop (unat sect) (hd_sectors lh)))) u)"
  using assms
proof (induction k arbitrary: sect lh u bs)
  case (Suc k)
  have s: "unat sect < length (hd_sectors lh)" using Suc.prems(3) by simp
  have r: "512 \<le> uio_resid u" "512 \<le> iov_len u" using Suc.prems(4,5) by (simp_all add: word_le_nat_alt)
  let ?x = "hd_sectors lh ! unat sect"
  have x: "length ?x = 512" using lhd_inv_dest(6) [OF Suc.prems(1) s] .
  obtain lh1 where 1: "lhd_inv lh1" "hd_sectors lh1 = hd_sectors lh" "lhd_io_sector sect lh u = Some (Inr (), lh1, usend ?x u)"
    using lhd_io_sector_read [OF Suc.prems(1) s r Suc.prems(6-8)] lhd.good_next [OF Suc.prems(1,2)] by auto
  note nxt = unat_next_sector [OF Suc.prems(1) s]
  have u1: "unat (uio_resid (usend ?x u)) = unat (uio_resid u) - 512" "unat (iov_len (usend ?x u)) = unat (iov_len u) - 512"
    using x r unat_sub_of_nat [of 512] by (simp_all add: word_le_nat_alt)
  then have le: "512 * k \<le> unat (uio_resid (usend ?x u))" "512 * k \<le> unat (iov_len (usend ?x u))"
    using Suc.prems(4,5) by simp_all
  have reg: "ureg (usend ?x u) = Some (drop 512 bs)"
    using ureg_usend [OF Suc.prems(6,7), of ?x] x r(2) by (simp add: word_le_nat_alt)
  obtain lh2 where 2: "lhd_inv lh2" "lhd_good lh2" "hd_sectors lh2 = hd_sectors lh"
      "lhd_io_loop k (sect + 1) lh1 (usend ?x u) =
        Some (Inr (), lh2, usend (concat (take k (drop (Suc (unat sect)) (hd_sectors lh)))) (usend ?x u))"
    using Suc.IH [OF 1(1) lhd_io_sector_good [OF 1(3) Suc.prems(2)] _ le reg, of "sect + 1"]
      Suc.prems(3,7) nxt 1(2) by auto
  let ?rest = "concat (take k (drop (Suc (unat sect)) (hd_sectors lh)))"
  have "length ?rest = 512 * k"
    using Suc.prems(1,3) by (subst length_concat_512) (auto simp: lhd_inv_def dest!: in_set_takeD in_set_dropD)
  then have "usend ?rest (usend ?x u) = usend (?x @ ?rest) u"
    using usend_usend [OF Suc.prems(6), of ?x ?rest] x Suc.prems(5) by simp
  then show ?case using 1(3) 2 s by (auto simp: Cons_nth_drop_Suc [symmetric])
qed auto

lemma lhd_io_loop_write:
  assumes "lhd_inv lh" "lhd_good lh" "unat sect + k \<le> length (hd_sectors lh)" "512 * k \<le> unat (uio_resid u)"
    "512 * k \<le> unat (iov_len u)" "ureg u = Some bs" "uio_rw u = UIO_WRITE" "s32 (uio_offset u) = uio_offset u"
  shows "\<exists>lh'. lhd_inv lh' \<and> lhd_good lh' \<and> hd_sectors lh' = patch (hd_sectors lh) (unat sect) (chunks k bs) \<and>
    lhd_io_loop k sect lh u = Some (Inr (), lh', uadv (512 * k) u)"
  using assms
proof (induction k arbitrary: sect lh u bs)
  case (Suc k)
  have s: "unat sect < length (hd_sectors lh)" using Suc.prems(3) by simp
  have r: "512 \<le> uio_resid u" "512 \<le> iov_len u" using Suc.prems(4,5) by (simp_all add: word_le_nat_alt)
  obtain lh1 where 1: "lhd_inv lh1" "hd_sectors lh1 = (hd_sectors lh)[unat sect := take 512 bs]"
      "lhd_io_sector sect lh u = Some (Inr (), lh1, uadv 512 u)"
    using lhd_io_sector_write [OF Suc.prems(1) s r Suc.prems(6-8)] lhd.good_next [OF Suc.prems(1,2)] by auto
  note nxt = unat_next_sector [OF Suc.prems(1) s]
  have le: "512 * k \<le> unat (uio_resid (uadv 512 u))" "512 * k \<le> unat (iov_len (uadv 512 u))"
    using Suc.prems(4,5) r unat_sub_of_nat [of 512] by (simp_all add: word_le_nat_alt)
  have reg: "ureg (uadv 512 u) = Some (drop 512 bs)"
    using ureg_uadv [OF Suc.prems(6), of 512] r(2) by (simp add: word_le_nat_alt)
  obtain lh2 where 2: "lhd_inv lh2" "lhd_good lh2"
      "hd_sectors lh2 = patch (hd_sectors lh1) (Suc (unat sect)) (chunks k (drop 512 bs))"
      "lhd_io_loop k (sect + 1) lh1 (uadv 512 u) = Some (Inr (), lh2, uadv (512 * k) (uadv 512 u))"
    using Suc.IH [OF 1(1) lhd_io_sector_good [OF 1(3) Suc.prems(2)] _ le reg, of "sect + 1"]
      Suc.prems(3,7) nxt 1(2) by auto
  have "(hd_sectors lh)[unat sect := take 512 bs] = patch (hd_sectors lh) (unat sect) [take 512 bs]"
    using s by (simp add: patch_def upd_conv_take_nth_drop)
  then have "hd_sectors lh2 = patch (hd_sectors lh) (unat sect) (chunks (Suc k) bs)"
    using 2(3) 1(2) patch_patch [of "unat sect" "[take 512 bs]" "chunks k (drop 512 bs)" "hd_sectors lh"] Suc.prems(3)
    by simp
  then show ?case using 1(3) 2 by (auto simp: uadv_uadv)
qed auto

section \<open>Properties\<close>


text \<open>A faultless disk of two sectors, filled with ones and twos.\<close>
definition lhd_ex :: lhd where
  "lhd_ex = \<lparr>lh_buf = replicate 512 0, lh_result = Inr (), lh_clear = 1, lh_done = 0, d_blocks = 2,
     d_blocksize = 512, hd_sectors = [replicate 512 1, replicate 512 2], hd_ops = 0, hd_status = (\<lambda>n. 4)\<rparr>"

lemma lhd_ex_ok: "lhd_inv lhd_ex" "lhd_good lhd_ex"
  by (simp_all add: lhd_ex_def lhd_inv_def lhd_good_def lhd_consts LHD_STATEMASK_def)

lemma lhd_ex_sectors: "hd_sectors lhd_ex = [replicate 512 1, replicate 512 2]"
  by (simp add: lhd_ex_def)


end
