(* ===== verification/Sfs_Layout.thy ===== *)
theory Sfs_Layout
  imports Kern_Prelude
begin

unbundle bit_operations_syntax

text \<open>
  The on-disk structures of SFS, \<^verbatim>\<open>kern/include/kern/sfs.h\<close>: \<^verbatim>\<open>struct sfs_super\<close>,
  \<^verbatim>\<open>struct sfs_inode\<close> and \<^verbatim>\<open>struct sfs_dir\<close> as records, and the bytes they occupy. The kernel
  reads and writes the structures as memory images; the MIPS machine is big-endian and the
  structures have no padding.
\<close>

section \<open>Model\<close>

abbreviation (input) SFS_MAGIC :: u32 where "SFS_MAGIC \<equiv> 0xabadf001"
abbreviation (input) SFS_BLOCKSIZE :: nat where "SFS_BLOCKSIZE \<equiv> 512"
abbreviation (input) SFS_VOLNAME_SIZE :: nat where "SFS_VOLNAME_SIZE \<equiv> 32"
abbreviation (input) SFS_NDIRECT :: nat where "SFS_NDIRECT \<equiv> 15"
abbreviation (input) SFS_DBPERIDB :: nat where "SFS_DBPERIDB \<equiv> 128"
abbreviation (input) SFS_NAMELEN :: nat where "SFS_NAMELEN \<equiv> 60"
abbreviation (input) SFS_SB_LOCATION :: u32 where "SFS_SB_LOCATION \<equiv> 0"
abbreviation (input) SFS_ROOT_LOCATION :: u32 where "SFS_ROOT_LOCATION \<equiv> 1"
abbreviation (input) SFS_MAP_LOCATION :: u32 where "SFS_MAP_LOCATION \<equiv> 2"
abbreviation (input) SFS_NOINO :: u32 where "SFS_NOINO \<equiv> 0"
abbreviation (input) SFS_TYPE_INVAL :: u16 where "SFS_TYPE_INVAL \<equiv> 0"
abbreviation (input) SFS_TYPE_FILE :: u16 where "SFS_TYPE_FILE \<equiv> 1"
abbreviation (input) SFS_TYPE_DIR :: u16 where "SFS_TYPE_DIR \<equiv> 2"

text \<open>\<^verbatim>\<open>SFS_BITMAPSIZE\<close> and \<^verbatim>\<open>SFS_BITBLOCKS\<close>, on \<^verbatim>\<open>u_int32_t\<close>: 4096 bits per block.\<close>
definition SFS_BITMAPSIZE :: "u32 \<Rightarrow> u32" where
  "SFS_BITMAPSIZE nblocks = (nblocks + 4096 - 1) div 4096 * 4096"

definition SFS_BITBLOCKS :: "u32 \<Rightarrow> u32" where
  "SFS_BITBLOCKS nblocks = SFS_BITMAPSIZE nblocks div 4096"

record sfs_super =
  sp_magic :: u32
  sp_nblocks :: u32
  sp_volname :: "u8 list"
  sp_reserved :: "u32 list"

record sfs_inode =
  sfi_size :: u32
  sfi_type :: u16
  sfi_linkcount :: u16
  sfi_direct :: "u32 list"
  sfi_indirect :: u32
  sfi_waste :: "u32 list"

record sfs_dir =
  sfd_ino :: u32
  sfd_name :: "u8 list"

section \<open>Memory images\<close>

definition be32 :: "u32 \<Rightarrow> u8 list" where
  "be32 w = [ucast (drop_bit 24 w), ucast (drop_bit 16 w), ucast (drop_bit 8 w), ucast w]"

definition de32 :: "u8 list \<Rightarrow> u32" where
  "de32 bs = push_bit 24 (ucast (bs ! 0)) OR push_bit 16 (ucast (bs ! 1))
     OR push_bit 8 (ucast (bs ! 2)) OR ucast (bs ! 3)"

definition be16 :: "u16 \<Rightarrow> u8 list" where
  "be16 w = [ucast (drop_bit 8 w), ucast w]"

definition de16 :: "u8 list \<Rightarrow> u16" where
  "de16 bs = push_bit 8 (ucast (bs ! 0)) OR ucast (bs ! 1)"

text \<open>An array of \<open>n\<close> words.\<close>
primrec words32 :: "nat \<Rightarrow> u8 list \<Rightarrow> u32 list" where
  "words32 0 bs = []"
| "words32 (Suc n) bs = de32 (take 4 bs) # words32 n (drop 4 bs)"

definition bytes32 :: "u32 list \<Rightarrow> u8 list" where
  "bytes32 ws = concat (map be32 ws)"

definition super_bytes :: "sfs_super \<Rightarrow> u8 list" where
  "super_bytes sp = be32 (sp_magic sp) @ be32 (sp_nblocks sp) @ sp_volname sp @ bytes32 (sp_reserved sp)"

definition super_of :: "u8 list \<Rightarrow> sfs_super" where
  "super_of bs = \<lparr>sp_magic = de32 (take 4 bs), sp_nblocks = de32 (take 4 (drop 4 bs)),
     sp_volname = take 32 (drop 8 bs), sp_reserved = words32 118 (drop 40 bs)\<rparr>"

definition inode_bytes :: "sfs_inode \<Rightarrow> u8 list" where
  "inode_bytes i = be32 (sfi_size i) @ be16 (sfi_type i) @ be16 (sfi_linkcount i)
     @ bytes32 (sfi_direct i) @ be32 (sfi_indirect i) @ bytes32 (sfi_waste i)"

definition inode_of :: "u8 list \<Rightarrow> sfs_inode" where
  "inode_of bs = \<lparr>sfi_size = de32 (take 4 bs), sfi_type = de16 (take 2 (drop 4 bs)),
     sfi_linkcount = de16 (take 2 (drop 6 bs)), sfi_direct = words32 15 (drop 8 bs),
     sfi_indirect = de32 (take 4 (drop 68 bs)), sfi_waste = words32 110 (drop 72 bs)\<rparr>"

definition dir_bytes :: "sfs_dir \<Rightarrow> u8 list" where
  "dir_bytes d = be32 (sfd_ino d) @ sfd_name d"

definition dir_of :: "u8 list \<Rightarrow> sfs_dir" where
  "dir_of bs = \<lparr>sfd_ino = de32 (take 4 bs), sfd_name = drop 4 bs\<rparr>"

section \<open>Round trips\<close>

lemma bit_u8_high: "8 \<le> n \<Longrightarrow> \<not> bit (w :: u8) n"
  using bit_imp_le_length [of w n] by auto

lemma be32_de32: "length bs = 4 \<Longrightarrow> be32 (de32 bs) = bs"
proof -
  assume "length bs = 4"
  then obtain a b c d where bs: "bs = [a, b, c, d]"
    by (auto simp: numeral_eq_Suc length_Suc_conv)
  show ?thesis
    unfolding bs be32_def de32_def
    by (auto intro!: bit_word_eqI simp: bit_simps bit_u8_high)
qed

lemma de32_be32 [simp]: "de32 (be32 w) = w"
proof (rule bit_word_eqI)
  fix n
  assume "n < LENGTH(32)"
  consider "n < 8" | "8 \<le> n" "n < 16" | "16 \<le> n" "n < 24" | "24 \<le> n" by linarith
  then show "bit (de32 (be32 w)) n = bit w n"
    using \<open>n < LENGTH(32)\<close> by cases (auto simp: de32_def be32_def bit_simps)
qed

lemma be16_de16: "length bs = 2 \<Longrightarrow> be16 (de16 bs) = bs"
proof -
  assume "length bs = 2"
  then obtain a b where bs: "bs = [a, b]"
    by (auto simp: numeral_eq_Suc length_Suc_conv)
  show ?thesis
    unfolding bs be16_def de16_def
    by (auto intro!: bit_word_eqI simp: bit_simps bit_u8_high)
qed

lemma de16_be16 [simp]: "de16 (be16 w) = w"
proof (rule bit_word_eqI)
  fix n
  assume "n < LENGTH(16)"
  consider "n < 8" | "8 \<le> n" by linarith
  then show "bit (de16 (be16 w)) n = bit w n"
    using \<open>n < LENGTH(16)\<close> by cases (auto simp: de16_def be16_def bit_simps)
qed

lemma length_be [simp]: "length (be32 w) = 4" "length (be16 v) = 2"
  by (simp_all add: be32_def be16_def)

lemma length_words32 [simp]: "length (words32 n bs) = n"
  by (induction n arbitrary: bs) auto

lemma length_bytes32 [simp]: "length (bytes32 ws) = 4 * length ws"
  by (induction ws) (auto simp: bytes32_def)

lemma words32_bytes32 [simp]: "words32 (length ws) (bytes32 ws @ bs) = ws"
  by (induction ws) (auto simp: bytes32_def)

lemma bytes32_words32: "4 * n \<le> length bs \<Longrightarrow> bytes32 (words32 n bs) = take (4 * n) bs"
proof (induction n arbitrary: bs)
  case (Suc n)
  then have "bytes32 (words32 n (drop 4 bs)) = take (4 * n) (drop 4 bs)" by simp
  moreover have "be32 (de32 (take 4 bs)) = take 4 bs" using Suc.prems by (intro be32_de32) simp
  ultimately have "bytes32 (words32 (Suc n) bs) = take 4 bs @ take (4 * n) (drop 4 bs)"
    by (simp add: bytes32_def)
  then show ?case by (simp add: take_add)
qed (simp add: bytes32_def)

lemma nth_words32: "i < n \<Longrightarrow> words32 n bs ! i = de32 (take 4 (drop (4 * i) bs))"
proof (induction n arbitrary: bs i)
  case (Suc n)
  then show ?case by (cases i) (simp_all add: add.commute)
qed simp

text \<open>The sizes the C declarations fix.\<close>
definition super_wf :: "sfs_super \<Rightarrow> bool" where
  "super_wf sp \<longleftrightarrow> length (sp_volname sp) = 32 \<and> length (sp_reserved sp) = 118"

definition inode_wf :: "sfs_inode \<Rightarrow> bool" where
  "inode_wf i \<longleftrightarrow> length (sfi_direct i) = 15 \<and> length (sfi_waste i) = 110"

definition dir_wf :: "sfs_dir \<Rightarrow> bool" where
  "dir_wf d \<longleftrightarrow> length (sfd_name d) = 60"

lemma words32_bytes32': "n = length ws \<Longrightarrow> words32 n (bytes32 ws @ bs) = ws"
  by simp

lemma take_drop_join: "m = n + k \<Longrightarrow> take n (drop k xs) @ drop m xs = drop k xs"
  by (metis append_take_drop_id drop_drop)

lemma inode_roundtrip:
  "inode_wf i \<Longrightarrow> length (inode_bytes i) = 512" "inode_wf i \<Longrightarrow> inode_of (inode_bytes i) = i"
  "length bs = 512 \<Longrightarrow> inode_wf (inode_of bs)" "length bs = 512 \<Longrightarrow> inode_bytes (inode_of bs) = bs"
proof -
  show "inode_wf i \<Longrightarrow> length (inode_bytes i) = 512"
    by (simp add: inode_wf_def inode_bytes_def)
  show "inode_wf i \<Longrightarrow> inode_of (inode_bytes i) = i"
    using words32_bytes32 [of "sfi_waste i" "[]"]
    by (simp add: inode_wf_def inode_bytes_def inode_of_def words32_bytes32')
  show "length bs = 512 \<Longrightarrow> inode_wf (inode_of bs)"
    by (simp add: inode_wf_def inode_of_def)
  show "inode_bytes (inode_of bs) = bs" if "length bs = 512"
  proof -
    have "take 4 (drop 68 bs) @ drop 72 bs = drop 68 bs" "take 60 (drop 8 bs) @ drop 68 bs = drop 8 bs"
      "take 2 (drop 6 bs) @ drop 8 bs = drop 6 bs" "take 2 (drop 4 bs) @ drop 6 bs = drop 4 bs"
      by (rule take_drop_join; simp)+
    then show ?thesis using that
      by (simp add: inode_bytes_def inode_of_def be32_de32 be16_de16 bytes32_words32)
  qed
qed

lemma super_roundtrip:
  "super_wf sp \<Longrightarrow> length (super_bytes sp) = 512" "super_wf sp \<Longrightarrow> super_of (super_bytes sp) = sp"
  "length bs = 512 \<Longrightarrow> super_wf (super_of bs)" "length bs = 512 \<Longrightarrow> super_bytes (super_of bs) = bs"
proof -
  show "super_wf sp \<Longrightarrow> length (super_bytes sp) = 512"
    by (simp add: super_wf_def super_bytes_def)
  show "super_wf sp \<Longrightarrow> super_of (super_bytes sp) = sp"
    using words32_bytes32 [of "sp_reserved sp" "[]"]
    by (simp add: super_wf_def super_bytes_def super_of_def)
  show "length bs = 512 \<Longrightarrow> super_wf (super_of bs)"
    by (simp add: super_wf_def super_of_def)
  show "super_bytes (super_of bs) = bs" if "length bs = 512"
  proof -
    have "take 32 (drop 8 bs) @ drop 40 bs = drop 8 bs" "take 4 (drop 4 bs) @ drop 8 bs = drop 4 bs"
      by (rule take_drop_join; simp)+
    then show ?thesis using that
      by (simp add: super_bytes_def super_of_def be32_de32 bytes32_words32)
  qed
qed

lemma dir_roundtrip:
  "dir_wf d \<Longrightarrow> length (dir_bytes d) = 64" "dir_wf d \<Longrightarrow> dir_of (dir_bytes d) = d"
  "length bs = 64 \<Longrightarrow> dir_wf (dir_of bs)" "length bs = 64 \<Longrightarrow> dir_bytes (dir_of bs) = bs"
  by (simp_all add: dir_wf_def dir_bytes_def dir_of_def be32_de32)

section \<open>Properties\<close>



end
