(* ===== verification/Kern_Array.thy ===== *)
theory Kern_Array
  imports Kern_Prelude
begin

text \<open>
  The resizable array of \<^verbatim>\<open>kern/lib/array.c\<close>. \<open>'a karray\<close> is \<^verbatim>\<open>struct array\<close>; its block
  \<^verbatim>\<open>v\<close> is a list of cells, \<open>None\<close> for \<^verbatim>\<open>NULL\<close>. The doubling loop of
  \<^verbatim>\<open>array_preallocate\<close> may run forever and is a partial function. The contract is the
  locale \<open>vector\<close>, interpreted on these definitions.
\<close>

section \<open>Model\<close>

record 'a karray =
  a_num :: int
  a_max :: int
  a_v :: "'a cell list option"

text \<open>The elements of the block behind a pointer; nothing can be read through \<^verbatim>\<open>NULL\<close>.\<close>
definition vblock :: "'a list option \<Rightarrow> 'a list" where
  "vblock v = (case v of None \<Rightarrow> [] | Some xs \<Rightarrow> xs)"

text \<open>\<^verbatim>\<open>sizeof(struct array)\<close> is 12.\<close>
definition array_create :: "kmalloc_oracle \<Rightarrow> unit + 'a karray" where
  "array_create km = (if \<not> km 12 then Inl () else Inr \<lparr>a_num = 0, a_max = 0, a_v = None\<rparr>)"

definition array_getnum :: "'a karray \<Rightarrow> int" where
  "array_getnum a = a_num a"

definition array_getguy :: "'a karray \<Rightarrow> int \<Rightarrow> 'a option" where
  "array_getguy a index = do {
     kassert (a_num a \<le> a_max a);
     kassert (0 \<le> index \<and> index < a_num a);
     c \<leftarrow> cnth (vblock (a_v a)) index;
     read_cell c
   }"

partial_function (option) array_newmax :: "int \<Rightarrow> int \<Rightarrow> int option" where
  "array_newmax nguys newmax =
     (if nguys > newmax then array_newmax nguys (s32 ((newmax + 1) * 2)) else Some newmax)"

primrec array_copy :: "nat \<Rightarrow> 'a cell list \<Rightarrow> 'a cell list \<Rightarrow> 'a cell list option" where
  "array_copy 0 v newv = Some newv"
| "array_copy (Suc i) v newv = do {
     newv \<leftarrow> array_copy i v newv;
     c \<leftarrow> cnth v (int i);
     cupd newv (int i) c
   }"

definition array_preallocate :: "kmalloc_oracle \<Rightarrow> 'a karray \<Rightarrow> int \<Rightarrow> ((errno + unit) \<times> 'a karray) option" where
  "array_preallocate km a nguys = do {
     kassert (a_num a \<ge> 0 \<and> a_num a \<le> a_max a);
     newmax \<leftarrow> array_newmax nguys (a_max a);
     if \<not> km (ptr_bytes newmax) then Some (Inl ENOMEM, a)
     else do {
       newv \<leftarrow> array_copy (nat (a_num a)) (vblock (a_v a)) (replicate (ptr_cells newmax) Indet);
       Some (Inr (), a\<lparr>a_max := newmax, a_v := Some newv\<rparr>)
     }
   }"

definition array_setsize :: "kmalloc_oracle \<Rightarrow> 'a karray \<Rightarrow> int \<Rightarrow> ((errno + unit) \<times> 'a karray) option" where
  "array_setsize km a nguys = do {
     kassert (a_num a \<ge> 0 \<and> a_num a \<le> a_max a);
     (result, a) \<leftarrow>
       (if nguys > a_max a then array_preallocate km a nguys
        else if nguys = 0 \<and> a_max a > 16 then do {
          kassert (a_v a \<noteq> None);
          Some (Inr (), a\<lparr>a_v := None, a_max := 0\<rparr>)
        }
        else Some (Inr (), a));
     case result of
       Inl err \<Rightarrow> Some (Inl err, a)
     | Inr _ \<Rightarrow> Some (Inr (), a\<lparr>a_num := nguys\<rparr>)
   }"

definition array_setguy :: "'a karray \<Rightarrow> int \<Rightarrow> 'a \<Rightarrow> 'a karray option" where
  "array_setguy a index ptr = do {
     kassert (a_num a \<le> a_max a);
     kassert (0 \<le> index \<and> index < a_num a);
     v \<leftarrow> cupd (vblock (a_v a)) index (Val ptr);
     Some (a\<lparr>a_v := Some v\<rparr>)
   }"

definition array_add :: "kmalloc_oracle \<Rightarrow> 'a karray \<Rightarrow> 'a \<Rightarrow> ((errno + unit) \<times> 'a karray) option" where
  "array_add km a guy = do {
     let ix = a_num a;
     (result, a) \<leftarrow> array_setsize km a (s32 (ix + 1));
     case result of
       Inl err \<Rightarrow> Some (Inl err, a)
     | Inr _ \<Rightarrow> do {
         v \<leftarrow> cupd (vblock (a_v a)) ix (Val guy);
         Some (Inr (), a\<lparr>a_v := Some v\<rparr>)
       }
   }"

definition array_remove :: "'a karray \<Rightarrow> int \<Rightarrow> 'a karray option" where
  "array_remove a index = do {
     kassert (a_num a \<le> a_max a);
     kassert (0 \<le> index \<and> index < a_num a);
     let nmove = a_num a - (index + 1);
     v \<leftarrow> cmemmove (vblock (a_v a)) (nat index) (nat (index + 1)) (ptr_cells nmove);
     Some (a\<lparr>a_v := Some v, a_num := a_num a - 1\<rparr>)
   }"

section \<open>The array as a list\<close>

definition arr_inv :: "'a karray \<Rightarrow> bool" where
  "arr_inv a \<longleftrightarrow> 0 \<le> a_num a \<and> a_num a \<le> a_max a \<and> a_max a < 2 ^ 27
     \<and> int (length (vblock (a_v a))) = a_max a \<and> (a_v a = None \<longrightarrow> a_max a = 0)"

definition arr_list :: "'a karray \<Rightarrow> 'a cell list" where
  "arr_list a = take (nat (a_num a)) (vblock (a_v a))"

lemma vblock_simps [simp]: "vblock None = []" "vblock (Some xs) = xs"
  by (simp_all add: vblock_def)

lemma arr_inv_dest:
  assumes "arr_inv a"
  shows "0 \<le> a_num a" "a_num a \<le> a_max a" "a_max a < 2 ^ 27"
    "int (length (vblock (a_v a))) = a_max a" "a_v a = None \<Longrightarrow> a_max a = 0"
  using assms by (auto simp: arr_inv_def)

lemma length_arr_list: "arr_inv a \<Longrightarrow> int (length (arr_list a)) = a_num a"
  by (auto simp: arr_inv_def arr_list_def)

lemma length_arr_list_nat: "arr_inv a \<Longrightarrow> length (arr_list a) = nat (a_num a)"
  using length_arr_list [of a] by simp

lemma array_newmax_ok:
  "0 \<le> m \<Longrightarrow> m < 2 ^ 30 - 2 \<Longrightarrow> n \<le> 2 ^ 28 \<Longrightarrow>
    \<exists>r. array_newmax n m = Some r \<and> n \<le> r \<and> m \<le> r \<and> r < 2 ^ 30 - 2"
proof (induction "nat (n - m)" arbitrary: m rule: less_induct)
  case less
  show ?case
  proof (cases "n > m")
    case True
    then have s: "s32 ((m + 1) * 2) = (m + 1) * 2" using less.prems by simp
    with less.hyps [of "(m + 1) * 2"] True less.prems
    show ?thesis by (subst array_newmax.simps) fastforce
  next
    case False
    then show ?thesis using less.prems by (subst array_newmax.simps) auto
  qed
qed

lemma array_newmax_stop: "n \<le> m \<Longrightarrow> array_newmax n m = Some m"
  by (subst array_newmax.simps) simp

text \<open>
  For the largest request the loop never ends: \<^verbatim>\<open>newmax\<close> stays even, so it never reaches
  \<^verbatim>\<open>INT_MAX\<close>.
\<close>
lemma s32_even: "even x \<Longrightarrow> even (s32 x)"
  unfolding s32_def by (simp add: dvd_mod_iff)

lemma array_newmax_hang:
  assumes "array_newmax n m = Some r" "n = 2 ^ 31 - 1" "even m" "m < 2 ^ 31"
  shows False
proof -
  have "n = 2 ^ 31 - 1 \<longrightarrow> even m \<longrightarrow> m < 2 ^ 31 \<longrightarrow> False"
  proof (rule array_newmax.raw_induct [where P = "\<lambda>n m r. n = 2 ^ 31 - 1 \<longrightarrow> even m \<longrightarrow> m < 2 ^ 31 \<longrightarrow> False", OF _ assms(1)], intro impI)
    fix f and n m r :: int
    assume IH: "\<And>n m r. f n m = Some r \<Longrightarrow> n = 2 ^ 31 - 1 \<longrightarrow> even m \<longrightarrow> m < 2 ^ 31 \<longrightarrow> False"
      and step: "(if m < n then f n (s32 ((m + 1) * 2)) else Some m) = Some r"
      and n: "n = 2 ^ 31 - 1" and m: "even m" "m < 2 ^ 31"
    have "m < n"
      using n m by simp presburger
    then show False
      using IH [of n "s32 ((m + 1) * 2)" r] step n s32_even [of "(m + 1) * 2"] s32_bounds(2) [of "(m + 1) * 2"]
      by simp
  qed
  then show ?thesis using assms by blast
qed

lemma array_copy_ok:
  "n \<le> length v \<Longrightarrow> n \<le> length w \<Longrightarrow> array_copy n v w = Some (take n v @ drop n w)"
proof (induction n)
  case (Suc n)
  then show ?case
    by (simp add: take_Suc_conv_app_nth list_update_append Cons_nth_drop_Suc [symmetric])
qed simp

lemma array_preallocate_ok:
  assumes inv: "arr_inv a" and n: "n \<le> 2 ^ 28" and km: "km_kseg0 km"
  shows "array_preallocate km a n = Some (Inl ENOMEM, a) \<and> (\<exists>b. \<not> km b) \<or>
    (\<exists>a'. array_preallocate km a n = Some (Inr (), a') \<and> arr_inv a' \<and> arr_list a' = arr_list a
      \<and> a_num a' = a_num a \<and> n \<le> a_max a' \<and> a_max a \<le> a_max a')"
proof -
  note d = arr_inv_dest [OF inv]
  obtain m where m: "array_newmax n (a_max a) = Some m" "n \<le> m" "a_max a \<le> m" "m < 2 ^ 30 - 2"
    using array_newmax_ok [of "a_max a" n] d n by auto
  show ?thesis
  proof (cases "km (ptr_bytes m)")
    case True
    have m0: "0 \<le> m" using d m(3) by linarith
    have "m < 2 ^ 27" using km_kseg0_ptr [OF km True m0] m(4) by simp
    moreover have "array_copy (nat (a_num a)) (vblock (a_v a)) (replicate (ptr_cells m) Indet) =
        Some (arr_list a @ replicate (nat m - nat (a_num a)) Indet)"
      using d m m0 by (subst array_copy_ok) (auto simp: arr_list_def ptr_cells_small)
    ultimately show ?thesis
      using d m m0 True length_arr_list [OF inv]
      by (auto simp: array_preallocate_def arr_inv_def arr_list_def [of "_\<lparr>a_v := _\<rparr>"])
  qed (use d m in \<open>auto simp: array_preallocate_def\<close>)
qed

lemma array_setsize_ok:
  assumes inv: "arr_inv a" and n: "0 \<le> n" "n \<le> 2 ^ 28" and km: "km_kseg0 km"
  shows "array_setsize km a n = Some (Inl ENOMEM, a) \<and> a_max a < n \<and> (\<exists>b. \<not> km b) \<or>
    (\<exists>a'. array_setsize km a n = Some (Inr (), a') \<and> arr_inv a' \<and> a_num a' = n
      \<and> take (min (length (arr_list a)) (nat n)) (arr_list a') = take (nat n) (arr_list a))"
proof -
  note d = arr_inv_dest [OF inv]
  consider (grow) "n > a_max a" | (drop) "n = 0" "a_max a > 16" | (keep) "n \<le> a_max a" "\<not> (n = 0 \<and> a_max a > 16)"
    by linarith
  then show ?thesis
  proof cases
    case grow
    then consider (fail) "array_preallocate km a n = Some (Inl ENOMEM, a)" "\<exists>b. \<not> km b"
      | (ok) a' where "array_preallocate km a n = Some (Inr (), a')" "arr_inv a'" "arr_list a' = arr_list a"
        "a_num a' = a_num a" "n \<le> a_max a'"
      using array_preallocate_ok [OF inv n(2) km] by blast
    then show ?thesis
    proof cases
      case ok
      have "take (length (arr_list a)) (arr_list (a'\<lparr>a_num := n\<rparr>)) = arr_list a'"
        unfolding length_arr_list_nat [OF inv] using ok(4) grow d by (simp add: arr_list_def min_def)
      then show ?thesis
        using ok grow n d length_arr_list [OF inv]
        by (auto simp: array_setsize_def arr_inv_def min_def intro!: exI [of _ "a'\<lparr>a_num := n\<rparr>"])
    qed (use grow d in \<open>auto simp: array_setsize_def\<close>)
  next
    case drop
    then obtain xs where "a_v a = Some xs" using d by (cases "a_v a") auto
    then show ?thesis using d drop
      by (simp add: array_setsize_def arr_inv_def arr_list_def)
  next
    case keep
    then show ?thesis
      using d n length_arr_list [OF inv]
      by (auto simp: array_setsize_def arr_inv_def arr_list_def min_def intro!: exI [of _ "a\<lparr>a_num := n\<rparr>"])
  qed
qed

lemma array_add_ok:
  assumes inv: "arr_inv a" and km: "km_kseg0 km"
  shows "array_add km a x = Some (Inl ENOMEM, a) \<and> a_num a = a_max a \<and> (\<exists>b. \<not> km b) \<or>
    (\<exists>a'. array_add km a x = Some (Inr (), a') \<and> arr_inv a' \<and> arr_list a' = arr_list a @ [Val x])"
proof -
  note d = arr_inv_dest [OF inv]
  have s: "s32 (a_num a + 1) = a_num a + 1" using d by simp
  consider (fail) "array_setsize km a (a_num a + 1) = Some (Inl ENOMEM, a)" "a_num a = a_max a" "\<exists>b. \<not> km b"
    | (ok) a' where "array_setsize km a (a_num a + 1) = Some (Inr (), a')" "arr_inv a'" "a_num a' = a_num a + 1"
        "take (length (arr_list a)) (arr_list a') = arr_list a"
  proof -
    have eqs: "min (length (arr_list a)) (nat (a_num a + 1)) = length (arr_list a)"
      "take (nat (a_num a + 1)) (arr_list a) = arr_list a" "a_max a < a_num a + 1 \<longleftrightarrow> a_num a = a_max a"
      using d by (auto simp: length_arr_list_nat [OF inv])
    have "0 \<le> a_num a + 1" "a_num a + 1 \<le> 2 ^ 28" using d by auto
    from array_setsize_ok [OF inv this km, unfolded eqs] that show ?thesis by blast
  qed
  then show ?thesis
  proof cases
    case ok
    note d' = arr_inv_dest [OF ok(2)]
    let ?a = "a'\<lparr>a_v := Some ((vblock (a_v a'))[nat (a_num a) := Val x])\<rparr>"
    have "array_add km a x = Some (Inr (), ?a)"
      using ok d d' s by (simp add: array_add_def)
    moreover have "arr_inv ?a" using d' by (simp add: arr_inv_def)
    moreover have "arr_list ?a = arr_list a @ [Val x]"
    proof -
      have len: "nat (a_num a) < length (vblock (a_v a'))" using d d' ok(3) by linarith
      have "arr_list ?a = take (nat (a_num a)) (vblock (a_v a')) @ [Val x]"
        using len d ok(3) by (simp add: arr_list_def nat_add_distrib take_Suc_conv_app_nth)
      also have "take (nat (a_num a)) (vblock (a_v a')) = take (length (arr_list a)) (arr_list a')"
        unfolding length_arr_list_nat [OF inv] using len d ok(3) by (simp add: arr_list_def min_def)
      finally show ?thesis using ok(4) by simp
    qed
    ultimately show ?thesis by blast
  qed (use s in \<open>auto simp: array_add_def\<close>)
qed

lemma array_remove_ok:
  assumes inv: "arr_inv a" and i: "i < length (arr_list a)"
  shows "\<exists>a'. array_remove a (int i) = Some a' \<and> arr_inv a'
    \<and> arr_list a' = take i (arr_list a) @ drop (Suc i) (arr_list a)"
proof -
  note d = arr_inv_dest [OF inv]
  define k where "k = nat (a_num a) - Suc i"
  have il: "int i < a_num a" using i length_arr_list [OF inv] by simp
  then have k: "ptr_cells (a_num a - (int i + 1)) = k" "Suc i + k = nat (a_num a)" "nat (a_num a - 1) = i + k"
    using d by (auto simp: k_def ptr_cells_small)
  define v where "v = take i (vblock (a_v a)) @ take k (drop (Suc i) (vblock (a_v a))) @ drop (i + k) (vblock (a_v a))"
  have len: "Suc i + k \<le> length (vblock (a_v a))" using k(2) d by linarith
  have mv: "cmemmove (vblock (a_v a)) i (Suc i) k = Some v"
    using len by (simp add: cmemmove_def v_def)
  have run: "array_remove a (int i) = Some (a\<lparr>a_v := Some v, a_num := a_num a - 1\<rparr>)"
    using il d mv k(1) by (simp add: array_remove_def nat_add_distrib)
  have "length v = length (vblock (a_v a))" using len by (simp add: v_def)
  then have inv': "arr_inv (a\<lparr>a_v := Some v, a_num := a_num a - 1\<rparr>)"
    using d il by (simp add: arr_inv_def)
  have "take (i + k) v = take i (arr_list a) @ drop (Suc i) (arr_list a)"
  proof -
    have "arr_list a = take (Suc i + k) (vblock (a_v a))" by (simp only: arr_list_def k(2))
    moreover have "min (length (vblock (a_v a)) - Suc i) k = k" using len by simp
    ultimately show ?thesis using len by (simp add: v_def drop_take)
  qed
  then have "arr_list (a\<lparr>a_v := Some v, a_num := a_num a - 1\<rparr>) = take i (arr_list a) @ drop (Suc i) (arr_list a)"
    by (subst arr_list_def) (simp add: k(3))
  with run inv' show ?thesis by blast
qed

section \<open>The contract of the array\<close>

text \<open>
  The loop \<^verbatim>\<open>for (i=0; i<num; i++)\<close> over an array that stops at the first element with a
  property: the index and the element, or nothing.
\<close>
primrec scan :: "nat \<Rightarrow> ('a \<Rightarrow> bool) \<Rightarrow> (int \<Rightarrow> 'a option) \<Rightarrow> int \<Rightarrow> (int \<times> 'a) option option" where
  "scan 0 P get i = Some None"
| "scan (Suc n) P get i = do {
     x \<leftarrow> get i;
     if P x then Some (Some (i, x)) else scan n P get (i + 1)
   }"

lemma scan_none:
  "(\<And>j. j < length xs \<Longrightarrow> get (i + int j) = Some (xs ! j)) \<Longrightarrow> \<forall>x\<in>set xs. \<not> P x \<Longrightarrow>
    scan (length xs) P get i = Some None"
proof (induction xs arbitrary: i)
  case (Cons x xs)
  have "get i = Some x" using Cons.prems(1) [of 0] by simp
  moreover have "scan (length xs) P get (i + 1) = Some None"
    using Cons.prems(1) [of "Suc _"] Cons.prems(2) by (intro Cons.IH) (simp_all add: algebra_simps)
  ultimately show ?case using Cons.prems(2) by simp
qed simp

lemma scan_some:
  "(\<And>j. j < length xs \<Longrightarrow> get (i + int j) = Some (xs ! j)) \<Longrightarrow> k < length xs \<Longrightarrow> P (xs ! k) \<Longrightarrow>
    \<forall>j<k. \<not> P (xs ! j) \<Longrightarrow> scan (length xs) P get i = Some (Some (i + int k, xs ! k))"
proof (induction xs arbitrary: i k)
  case (Cons x xs)
  have g: "get i = Some x" using Cons.prems(1) [of 0] by simp
  show ?case
  proof (cases k)
    case 0
    then show ?thesis using g Cons.prems(3) by simp
  next
    case (Suc k')
    have "\<not> P x" using Cons.prems(4) Suc by auto
    moreover have "scan (length xs) P get (i + 1) = Some (Some (i + 1 + int k', xs ! k'))"
      using Cons.prems Suc Cons.prems(1) [of "Suc _"] by (intro Cons.IH) (auto simp: algebra_simps)
    ultimately show ?thesis using g Suc by (simp add: algebra_simps)
  qed
qed simp

locale vector =
  fixes inv :: "'v \<Rightarrow> bool" and contents :: "'v \<Rightarrow> 'a cell list" and getnum :: "'v \<Rightarrow> int"
    and getguy :: "'v \<Rightarrow> int \<Rightarrow> 'a option"
    and add :: "kmalloc_oracle \<Rightarrow> 'v \<Rightarrow> 'a \<Rightarrow> ((errno + unit) \<times> 'v) option"
    and remove :: "'v \<Rightarrow> int \<Rightarrow> 'v option"
  assumes getnum: "inv a \<Longrightarrow> getnum a = int (length (contents a))"
    and getguy: "inv a \<Longrightarrow> i < length (contents a) \<Longrightarrow> getguy a (int i) = read_cell (contents a ! i)"
    and getguy_range: "inv a \<Longrightarrow> j < 0 \<or> int (length (contents a)) \<le> j \<Longrightarrow> getguy a j = None"
    and add_cases: "km_kseg0 km \<Longrightarrow> inv a \<Longrightarrow>
      add km a x = Some (Inl ENOMEM, a) \<and> (\<exists>b. \<not> km b) \<or>
      (\<exists>a'. add km a x = Some (Inr (), a') \<and> inv a' \<and> contents a' = contents a @ [Val x])"
    and remove: "inv a \<Longrightarrow> i < length (contents a) \<Longrightarrow>
      \<exists>a'. remove a (int i) = Some a' \<and> inv a' \<and> contents a' = take i (contents a) @ drop (Suc i) (contents a)"
begin

text \<open>An array without holes holds a list of values.\<close>
definition holds :: "'v \<Rightarrow> 'a list \<Rightarrow> bool" where
  "holds a xs \<longleftrightarrow> inv a \<and> contents a = map Val xs"

lemma holds_getnum: "holds a xs \<Longrightarrow> getnum a = int (length xs)"
  by (auto simp: holds_def getnum)

lemma holds_getguy: "holds a xs \<Longrightarrow> i < length xs \<Longrightarrow> getguy a (int i) = Some (xs ! i)"
  by (auto simp: holds_def getguy)

lemma holds_add:
  assumes "km_kseg0 km" "holds a xs"
  obtains "add km a x = Some (Inl ENOMEM, a)" "\<exists>b. \<not> km b"
  | a' where "add km a x = Some (Inr (), a')" "holds a' (xs @ [x])"
  using add_cases [OF assms(1), of a x] assms(2) by (auto simp: holds_def)

lemma holds_remove:
  assumes "holds a xs" "i < length xs"
  obtains a' where "remove a (int i) = Some a'" "holds a' (take i xs @ drop (Suc i) xs)"
  using remove [of a i] assms that by (auto simp: holds_def take_map drop_map)

lemma holds_scan_none:
  "holds a xs \<Longrightarrow> \<forall>x\<in>set xs. \<not> P x \<Longrightarrow> scan (nat (getnum a)) P (getguy a) 0 = Some None"
  by (simp add: holds_getnum) (rule scan_none, simp_all add: holds_getguy)

lemma holds_scan_some:
  "holds a xs \<Longrightarrow> k < length xs \<Longrightarrow> P (xs ! k) \<Longrightarrow> \<forall>j<k. \<not> P (xs ! j) \<Longrightarrow>
    scan (nat (getnum a)) P (getguy a) 0 = Some (Some (int k, xs ! k))"
  using scan_some [of xs "getguy a" 0 k P] by (simp add: holds_getnum holds_getguy)

end

lemma array_getguy_ok:
  assumes "arr_inv a" "i < length (arr_list a)"
  shows "array_getguy a (int i) = read_cell (arr_list a ! i)"
proof -
  note d = arr_inv_dest [OF assms(1)]
  have "int i < a_num a" using assms(2) length_arr_list [OF assms(1)] by linarith
  then show ?thesis using d by (simp add: array_getguy_def arr_list_def)
qed

lemma array_remove_range:
  assumes "arr_inv a"
  shows "if 0 \<le> i \<and> i < int (length (arr_list a))
    then \<exists>a'. array_remove a i = Some a' \<and> arr_inv a'
      \<and> arr_list a' = take (nat i) (arr_list a) @ drop (Suc (nat i)) (arr_list a)
    else array_remove a i = None"
proof (cases "0 \<le> i \<and> i < int (length (arr_list a))")
  case True
  then show ?thesis using array_remove_ok [OF assms, of "nat i"] by (simp add: nat_less_iff)
next
  case False
  then show ?thesis
    unfolding length_arr_list [OF assms] by (auto simp: array_remove_def kassert_def)
qed

lemma array_setguy_range:
  assumes "arr_inv a"
  shows "if 0 \<le> i \<and> i < int (length (arr_list a))
    then \<exists>a'. array_setguy a i x = Some a' \<and> arr_inv a' \<and> arr_list a' = (arr_list a)[nat i := Val x]
    else array_setguy a i x = None"
proof (cases "0 \<le> i \<and> i < a_num a")
  case True
  note d = arr_inv_dest [OF assms]
  have "array_setguy a i x = Some (a\<lparr>a_v := Some ((vblock (a_v a))[nat i := Val x])\<rparr>)"
    using d True by (simp add: array_setguy_def)
  then show ?thesis
    using True length_arr_list [OF assms] d by (simp add: arr_inv_def arr_list_def take_update_swap)
next
  case False
  then show ?thesis
    unfolding length_arr_list [OF assms] by (auto simp: array_setguy_def kassert_def)
qed

interpretation ka: vector arr_inv arr_list array_getnum array_getguy array_add array_remove
proof
  fix a :: "'a karray" and i :: nat
  assume inv: "arr_inv a"
  show "array_getnum a = int (length (arr_list a))"
    by (simp add: array_getnum_def length_arr_list [OF inv])
  show "i < length (arr_list a) \<Longrightarrow> array_getguy a (int i) = read_cell (arr_list a ! i)"
    by (rule array_getguy_ok [OF inv])
  show "array_getguy a j = None" if "j < 0 \<or> int (length (arr_list a)) \<le> j" for j
    using that length_arr_list [OF inv] by (auto simp: array_getguy_def kassert_def)
  show "array_add km a x = Some (Inl ENOMEM, a) \<and> (\<exists>b. \<not> km b) \<or>
      (\<exists>a'. array_add km a x = Some (Inr (), a') \<and> arr_inv a' \<and> arr_list a' = arr_list a @ [Val x])"
    if "km_kseg0 km" for km x
    using array_add_ok [OF inv that, of x] by blast
  show "i < length (arr_list a) \<Longrightarrow> \<exists>a'. array_remove a (int i) = Some a' \<and> arr_inv a'
      \<and> arr_list a' = take i (arr_list a) @ drop (Suc i) (arr_list a)"
    by (rule array_remove_ok [OF inv])
qed

section \<open>Properties\<close>

text \<open>The three-element array with one free cell that the witnesses use.\<close>
definition arr_three :: "nat karray" where
  "arr_three = \<lparr>a_num = 3, a_max = 4, a_v = Some [Val 1, Val 2, Val 3, Indet]\<rparr>"

lemma arr_three_inv: "arr_inv arr_three" "arr_list arr_three = [Val 1, Val 2, Val 3]"
  by (simp_all add: arr_three_def arr_inv_def arr_list_def)

text \<open>
  C16. The array behaves as a list: \<^verbatim>\<open>array_add\<close> appends, or fails with \<open>ENOMEM\<close> and changes
  nothing, which happens only if the block is full; \<^verbatim>\<open>array_remove\<close> closes the gap at any
  valid index and panics at every other one; \<^verbatim>\<open>array_setguy\<close> replaces one element and
  panics outside the array. All keep the array well-formed.
\<close>
theorem array_refines_list:
  assumes "km_kseg0 km" "arr_inv a"
  shows "(array_add km a x = Some (Inl ENOMEM, a) \<and> a_num a = a_max a \<or>
      (\<exists>a'. array_add km a x = Some (Inr (), a') \<and> arr_inv a' \<and> arr_list a' = arr_list a @ [Val x]))
    \<and> (if 0 \<le> i \<and> i < int (length (arr_list a))
      then (\<exists>a'. array_remove a i = Some a' \<and> arr_inv a'
        \<and> arr_list a' = take (nat i) (arr_list a) @ drop (Suc (nat i)) (arr_list a))
        \<and> (\<exists>a'. array_setguy a i x = Some a' \<and> arr_inv a' \<and> arr_list a' = (arr_list a)[nat i := Val x])
      else array_remove a i = None \<and> array_setguy a i x = None)"
  using array_add_ok [OF assms(2,1), of x] array_remove_range [OF assms(2), of i]
    array_setguy_range [OF assms(2), of i x]
  by (auto split: if_splits)

theorem array_refines_list_witness:
  "(\<exists>a'. array_add (\<lambda>b. False) arr_three 4 = Some (Inr (), a') \<and> arr_list a' = map Val [1, 2, 3, 4])
    \<and> (\<exists>a'. array_remove arr_three 1 = Some a' \<and> arr_list a' = map Val [1, 3])
    \<and> array_remove arr_three 3 = None"
  using array_refines_list [of "\<lambda>b. False", OF _ arr_three_inv(1), of 4 1]
    array_refines_list [of "\<lambda>b. False", OF _ arr_three_inv(1), of 4 3]
  by (auto simp: arr_three_inv km_kseg0_def) (auto simp: arr_three_def)



end
