(* ===== verification/Kern_Bitmap.thy ===== *)
theory Kern_Bitmap
  imports Kern_Prelude
begin

unbundle bit_operations_syntax

text \<open>
  The bitmap of \<^verbatim>\<open>kern/lib/bitmap.c\<close>: \<open>bitmap\<close> is \<^verbatim>\<open>struct bitmap\<close> with the bytes behind
  \<^verbatim>\<open>v\<close>. Its contract, an allocator of bit numbers, is the locale \<open>bit_allocator\<close>,
  interpreted on these definitions and used by the file system's block allocation.
\<close>

section \<open>Model\<close>

record bitmap =
  bm_nbits :: u32
  bm_v :: "u8 list"

text \<open>\<^verbatim>\<open>DIVROUNDUP\<close> of \<^verbatim>\<open>lib.h\<close> on \<^verbatim>\<open>u_int32_t\<close>, which wraps.\<close>
definition DIVROUNDUP :: "u32 \<Rightarrow> u32 \<Rightarrow> u32" where
  "DIVROUNDUP a b = (a + b - 1) div b"

text \<open>\<^verbatim>\<open>sizeof(struct bitmap)\<close> is 8; \<open>Inl ()\<close> is \<^verbatim>\<open>NULL\<close>.\<close>
definition bitmap_create :: "kmalloc_oracle \<Rightarrow> u32 \<Rightarrow> (unit + bitmap) option" where
  "bitmap_create km nbits = do {
     let words = DIVROUNDUP nbits 8;
     if \<not> km 8 then Some (Inl ())
     else if \<not> km words then Some (Inl ())
     else do {
       let v = replicate (unat words) 0;
       if nbits div 8 < words
       then do {
         let ix = words - 1;
         let overbits = nbits - ix * 8;
         kassert (nbits div 8 = words - 1);
         kassert (overbits > 0 \<and> overbits < 8);
         w \<leftarrow> cnth v (uint ix);
         let w = foldl (\<lambda>w j. w OR push_bit j 1) w [unat overbits..<8];
         v \<leftarrow> cupd v (uint ix) w;
         Some (Inr \<lparr>bm_nbits = nbits, bm_v = v\<rparr>)
       }
       else Some (Inr \<lparr>bm_nbits = nbits, bm_v = v\<rparr>)
     }
   }"

definition bitmap_getdata :: "bitmap \<Rightarrow> u8 list" where
  "bitmap_getdata b = bm_v b"

text \<open>
  The two loops of \<^verbatim>\<open>bitmap_alloc\<close>: the outer one from word \<open>ix\<close> with \<open>n\<close> words to go,
  the inner one as the search for the first offset whose bit is clear.
\<close>
primrec bitmap_alloc_from :: "nat \<Rightarrow> u32 \<Rightarrow> bitmap \<Rightarrow> ((errno + u32) \<times> bitmap) option" where
  "bitmap_alloc_from 0 ix b = Some (Inl ENOSPC, b)"
| "bitmap_alloc_from (Suc n) ix b = do {
     w \<leftarrow> cnth (bm_v b) (uint ix);
     if w \<noteq> 0xff
     then (case find (\<lambda>offset. w AND push_bit offset 1 = 0) [0..<8] of
         None \<Rightarrow> None
       | Some offset \<Rightarrow> do {
           v \<leftarrow> cupd (bm_v b) (uint ix) (w OR push_bit offset 1);
           let index = ix * 8 + of_nat offset;
           kassert (index < bm_nbits b);
           Some (Inr index, b\<lparr>bm_v := v\<rparr>)
         })
     else bitmap_alloc_from n (ix + 1) b
   }"

definition bitmap_alloc :: "bitmap \<Rightarrow> ((errno + u32) \<times> bitmap) option" where
  "bitmap_alloc b = bitmap_alloc_from (unat (DIVROUNDUP (bm_nbits b) 8)) 0 b"

definition bitmap_translate :: "u32 \<Rightarrow> u32 \<times> u8" where
  "bitmap_translate bitno = (bitno div 8, push_bit (unat (bitno mod 8)) 1)"

definition bitmap_mark :: "bitmap \<Rightarrow> u32 \<Rightarrow> bitmap option" where
  "bitmap_mark b index = do {
     kassert (index < bm_nbits b);
     let (ix, mask) = bitmap_translate index;
     w \<leftarrow> cnth (bm_v b) (uint ix);
     kassert (w AND mask = 0);
     v \<leftarrow> cupd (bm_v b) (uint ix) (w OR mask);
     Some (b\<lparr>bm_v := v\<rparr>)
   }"

definition bitmap_unmark :: "bitmap \<Rightarrow> u32 \<Rightarrow> bitmap option" where
  "bitmap_unmark b index = do {
     kassert (index < bm_nbits b);
     let (ix, mask) = bitmap_translate index;
     w \<leftarrow> cnth (bm_v b) (uint ix);
     kassert (w AND mask \<noteq> 0);
     v \<leftarrow> cupd (bm_v b) (uint ix) (w AND NOT mask);
     Some (b\<lparr>bm_v := v\<rparr>)
   }"

definition bitmap_isset :: "bitmap \<Rightarrow> u32 \<Rightarrow> u8 option" where
  "bitmap_isset b index = do {
     let (ix, mask) = bitmap_translate index;
     w \<leftarrow> cnth (bm_v b) (uint ix);
     Some (w AND mask)
   }"

section \<open>The bitmap as a set of bit numbers\<close>

definition bm_bit :: "u8 list \<Rightarrow> nat \<Rightarrow> bool" where
  "bm_bit v i \<longleftrightarrow> bit (v ! (i div 8)) (i mod 8)"

definition bm_used :: "bitmap \<Rightarrow> nat set" where
  "bm_used b = {i. i < unat (bm_nbits b) \<and> bm_bit (bm_v b) i}"

text \<open>The block has the size \<^verbatim>\<open>bitmap_create\<close> gave it and the bits past the end are set.\<close>
definition bm_inv :: "bitmap \<Rightarrow> bool" where
  "bm_inv b \<longleftrightarrow> unat (bm_nbits b) \<le> 2 ^ 32 - 8
     \<and> length (bm_v b) = (unat (bm_nbits b) + 7) div 8
     \<and> (\<forall>i. unat (bm_nbits b) \<le> i \<and> i < 8 * length (bm_v b) \<longrightarrow> bm_bit (bm_v b) i)"

declare push_bit_of_1 [simp del]

lemma and_mask_eq_0: "k < 8 \<Longrightarrow> (w :: u8) AND push_bit k 1 = 0 \<longleftrightarrow> \<not> bit w k"
  by (auto simp: bit_eq_iff [of "w AND push_bit k 1" 0] bit_simps)

lemma all_bits: "(w :: u8) \<noteq> 0xff \<longleftrightarrow> (\<exists>k<8. \<not> bit w k)"
proof -
  have e: "(0xff :: u8) = - 1" by simp
  show ?thesis unfolding e by (auto simp: bit_eq_iff [of w "- 1"] bit_simps)
qed

lemma bit_or_mask: "k < 8 \<Longrightarrow> bit ((w :: u8) OR push_bit k 1) j \<longleftrightarrow> bit w j \<or> j = k"
  by (auto simp: bit_simps)

lemma bit_and_not_mask: "k < 8 \<Longrightarrow> bit ((w :: u8) AND NOT (push_bit k 1)) j \<longleftrightarrow> bit w j \<and> j \<noteq> k"
  by (auto simp: bit_simps dest: bit_imp_le_length)

text \<open>Changing one bit of one byte changes one bit of the bitmap.\<close>
lemma bm_bit_update:
  assumes "i div 8 < length v" "\<And>j. j < 8 \<Longrightarrow> bit w j = (if j = i mod 8 then c else bit (v ! (i div 8)) j)"
  shows "bm_bit (v[i div 8 := w]) j = (if j = i then c else bm_bit v j)"
proof (cases "j div 8 = i div 8")
  case True
  then have "j = i \<longleftrightarrow> j mod 8 = i mod 8" by (metis div_mult_mod_eq)
  then show ?thesis using True assms by (simp add: bm_bit_def)
next
  case False
  then show ?thesis by (auto simp: bm_bit_def)
qed

lemma unat_DIVROUNDUP: "unat n \<le> 2 ^ 32 - 8 \<Longrightarrow> unat (DIVROUNDUP n 8) = (unat n + 7) div 8"
proof -
  assume n: "unat n \<le> 2 ^ 32 - 8"
  have "n + 8 - 1 = n + 7" by simp
  moreover have "unat (n + 7) = unat n + 7"
    using n by (subst unat_add_lem [THEN iffD1]) simp_all
  ultimately show ?thesis by (simp only: DIVROUNDUP_def unat_div) simp
qed

lemma unat_mod_8: "unat ((i :: u32) mod 8) = unat i mod 8" and unat_div_8: "unat (i div 8) = unat i div 8"
  by (simp_all add: unat_mod unat_div)

lemma bm_index:
  assumes "bm_inv b" "i < bm_nbits b"
  shows "unat i div 8 < length (bm_v b)"
  using assms by (simp add: bm_inv_def word_less_nat_alt)

text \<open>Replacing one bit below \<open>nbits\<close> keeps the invariant.\<close>
lemma bm_put:
  assumes "bm_inv b" "i < unat (bm_nbits b)"
    "\<And>j. j < 8 \<Longrightarrow> bit w j = (if j = i mod 8 then c else bit (bm_v b ! (i div 8)) j)"
  shows "bm_inv (b\<lparr>bm_v := (bm_v b)[i div 8 := w]\<rparr>)"
    "bm_used (b\<lparr>bm_v := (bm_v b)[i div 8 := w]\<rparr>) = (if c then insert i (bm_used b) else bm_used b - {i})"
proof -
  have "i div 8 < length (bm_v b)" using assms(1,2) by (simp add: bm_inv_def)
  note upd = bm_bit_update [OF this assms(3)]
  show "bm_inv (b\<lparr>bm_v := (bm_v b)[i div 8 := w]\<rparr>)"
    using assms(1,2) by (auto simp: bm_inv_def upd)
  show "bm_used (b\<lparr>bm_v := (bm_v b)[i div 8 := w]\<rparr>) = (if c then insert i (bm_used b) else bm_used b - {i})"
    using assms(2) by (auto simp: bm_used_def upd)
qed

lemma bitmap_mark_ok:
  assumes "bm_inv b" "i < bm_nbits b"
  shows "if unat i \<in> bm_used b then bitmap_mark b i = None
    else \<exists>b'. bitmap_mark b i = Some b' \<and> bm_inv b' \<and> bm_nbits b' = bm_nbits b
      \<and> bm_used b' = insert (unat i) (bm_used b)"
proof -
  note ix = bm_index [OF assms]
  let ?w = "bm_v b ! (unat i div 8)"
  have m: "?w AND push_bit (unat i mod 8) 1 = 0 \<longleftrightarrow> unat i \<notin> bm_used b"
    using assms(2) by (simp add: and_mask_eq_0 bm_used_def bm_bit_def word_less_nat_alt)
  have put: "bm_inv (b\<lparr>bm_v := (bm_v b)[unat i div 8 := ?w OR push_bit (unat i mod 8) 1]\<rparr>)"
    "bm_used (b\<lparr>bm_v := (bm_v b)[unat i div 8 := ?w OR push_bit (unat i mod 8) 1]\<rparr>) =
      insert (unat i) (bm_used b)"
    using bm_put [OF assms(1), of "unat i" _ True] assms(2) by (simp_all add: bit_or_mask word_less_nat_alt)
  show ?thesis
    using m put assms(2) ix
    by (simp add: bitmap_mark_def bitmap_translate_def cnth_word cupd_word unat_div_8 unat_mod_8)
qed

lemma bitmap_unmark_ok:
  assumes "bm_inv b" "i < bm_nbits b"
  shows "if unat i \<notin> bm_used b then bitmap_unmark b i = None
    else \<exists>b'. bitmap_unmark b i = Some b' \<and> bm_inv b' \<and> bm_nbits b' = bm_nbits b
      \<and> bm_used b' = bm_used b - {unat i}"
proof -
  note ix = bm_index [OF assms]
  let ?w = "bm_v b ! (unat i div 8)"
  have m: "?w AND push_bit (unat i mod 8) 1 = 0 \<longleftrightarrow> unat i \<notin> bm_used b"
    using assms(2) by (simp add: and_mask_eq_0 bm_used_def bm_bit_def word_less_nat_alt)
  have put: "bm_inv (b\<lparr>bm_v := (bm_v b)[unat i div 8 := ?w AND NOT (push_bit (unat i mod 8) 1)]\<rparr>)"
    "bm_used (b\<lparr>bm_v := (bm_v b)[unat i div 8 := ?w AND NOT (push_bit (unat i mod 8) 1)]\<rparr>) =
      bm_used b - {unat i}"
    using bm_put [OF assms(1), of "unat i" _ False] assms(2) by (simp_all add: bit_and_not_mask word_less_nat_alt)
  show ?thesis
    using m put assms(2) ix
    by (simp add: bitmap_unmark_def bitmap_translate_def cnth_word cupd_word unat_div_8 unat_mod_8)
qed

lemma bitmap_isset_ok:
  assumes "bm_inv b" "i < bm_nbits b"
  shows "\<exists>w. bitmap_isset b i = Some w \<and> (w \<noteq> 0 \<longleftrightarrow> unat i \<in> bm_used b)"
  using bm_index [OF assms] assms(2)
  by (simp add: bitmap_isset_def bitmap_translate_def cnth_word unat_div_8 unat_mod_8 and_mask_eq_0
      bm_used_def bm_bit_def word_less_nat_alt)

lemma bm_inv_length: "bm_inv b \<Longrightarrow> length (bm_v b) < 2 ^ 29"
  by (simp add: bm_inv_def) linarith

lemma bitmap_alloc_hit:
  assumes inv: "bm_inv b" and ix: "unat ix < length (bm_v b)"
    and w: "w = bm_v b ! unat ix" "w \<noteq> 0xff" and below: "\<forall>i<8 * unat ix. bm_bit (bm_v b) i"
  shows "\<exists>index b'. bitmap_alloc_from (Suc n) ix b = Some (Inr index, b') \<and> index < bm_nbits b
    \<and> unat index \<notin> bm_used b \<and> (\<forall>j<unat index. j \<in> bm_used b) \<and> bm_inv b'
    \<and> bm_nbits b' = bm_nbits b \<and> bm_used b' = insert (unat index) (bm_used b)"
proof -
  from w(2) obtain k where "k < 8" "\<not> bit w k" by (auto simp: all_bits)
  then have "find (\<lambda>offset. w AND push_bit offset 1 = 0) [0..<8] \<noteq> None"
    by (auto simp: find_None_iff and_mask_eq_0)
  then obtain off where off: "find (\<lambda>offset. w AND push_bit offset 1 = 0) [0..<8] = Some off" by blast
  then have o: "off < 8" "\<not> bit w off" "\<forall>j<off. bit w j"
    by (auto simp: find_Some_iff and_mask_eq_0)
  define i where "i = 8 * unat ix + off"
  have i: "i div 8 = unat ix" "i mod 8 = off" using o(1) by (simp_all add: i_def)
  have clear: "\<not> bm_bit (bm_v b) i" using o(2) w(1) i by (simp add: bm_bit_def)
  have "i < 8 * length (bm_v b)" using ix o(1) by (simp add: i_def)
  then have less: "i < unat (bm_nbits b)"
    using inv clear by (auto simp: bm_inv_def not_le [symmetric])
  have lower: "bm_bit (bm_v b) j" if "j < i" for j
  proof (cases "j < 8 * unat ix")
    case False
    define r where "r = j - 8 * unat ix"
    have r: "j = 8 * unat ix + r" "r < off" using False that by (auto simp: r_def i_def)
    have "j div 8 = unat ix" "j mod 8 < off" using o(1) r by simp_all
    then show ?thesis using o(3) w(1) by (simp add: bm_bit_def)
  qed (use below in blast)
  have idx: "unat (ix * 8 + of_nat off :: u32) = i"
  proof -
    have "unat (of_nat i :: u32) = i"
      using less inv by (intro unat_of_nat_u32) (simp add: bm_inv_def)
    moreover have "(of_nat i :: u32) = ix * 8 + of_nat off" by (simp add: i_def)
    ultimately show ?thesis by simp
  qed
  let ?b = "b\<lparr>bm_v := (bm_v b)[i div 8 := w OR push_bit off 1]\<rparr>"
  have put: "bm_inv ?b" "bm_used ?b = insert i (bm_used b)"
    using bm_put [OF inv less, of _ True] o(1) i w(1) by (simp_all add: bit_or_mask)
  have "bitmap_alloc_from (Suc n) ix b = Some (Inr (ix * 8 + of_nat off), ?b)"
    using ix w off less idx i(1) by (simp add: word_less_nat_alt)
  then show ?thesis
    using idx less clear lower put by (auto simp: word_less_nat_alt bm_used_def)
qed

lemma bitmap_alloc_from_ok:
  assumes inv: "bm_inv b" and "unat ix + n = length (bm_v b)" "\<forall>i<8 * unat ix. bm_bit (bm_v b) i"
  shows "(bm_used b = {..<unat (bm_nbits b)} \<and> bitmap_alloc_from n ix b = Some (Inl ENOSPC, b)) \<or>
    (\<exists>index b'. bitmap_alloc_from n ix b = Some (Inr index, b') \<and> index < bm_nbits b
      \<and> unat index \<notin> bm_used b \<and> (\<forall>j<unat index. j \<in> bm_used b) \<and> bm_inv b'
      \<and> bm_nbits b' = bm_nbits b \<and> bm_used b' = insert (unat index) (bm_used b))"
  using assms(2,3)
proof (induction n arbitrary: ix)
  case 0
  then have "bm_bit (bm_v b) i" if "i < unat (bm_nbits b)" for i
    using that inv by (simp add: bm_inv_def)
  then show ?case by (auto simp: bm_used_def)
next
  case (Suc n)
  have ix: "unat ix < length (bm_v b)" using Suc.prems(1) by simp
  show ?case
  proof (cases "bm_v b ! unat ix = 0xff")
    case True
    have full: "bit (bm_v b ! unat ix) k" if "k < 8" for k
      using True all_bits [of "bm_v b ! unat ix"] that by blast
    have next_ix: "unat (ix + 1) = Suc (unat ix)"
      using ix bm_inv_length [OF inv] by (simp add: unat_add_lem [THEN iffD1])
    have "bm_bit (bm_v b) i" if "i < 8 * unat (ix + 1)" for i
    proof (cases "i < 8 * unat ix")
      case False
      then have "i div 8 = unat ix" using that next_ix by auto
      then show ?thesis using full by (simp add: bm_bit_def)
    qed (use Suc.prems(2) in blast)
    moreover have "unat (ix + 1) + n = length (bm_v b)" using Suc.prems(1) next_ix by simp
    ultimately show ?thesis using Suc.IH [of "ix + 1"] ix True by simp
  next
    case False
    then show ?thesis using bitmap_alloc_hit [OF inv ix refl False Suc.prems(2)] by blast
  qed
qed

lemma bitmap_alloc_ok:
  assumes inv: "bm_inv b"
  shows "(bm_used b = {..<unat (bm_nbits b)} \<and> bitmap_alloc b = Some (Inl ENOSPC, b)) \<or>
    (\<exists>index b'. bitmap_alloc b = Some (Inr index, b') \<and> index < bm_nbits b
      \<and> unat index \<notin> bm_used b \<and> (\<forall>j<unat index. j \<in> bm_used b) \<and> bm_inv b'
      \<and> bm_nbits b' = bm_nbits b \<and> bm_used b' = insert (unat index) (bm_used b))"
  unfolding bitmap_alloc_def
  using inv by (intro bitmap_alloc_from_ok [OF inv]) (simp_all add: bm_inv_def unat_DIVROUNDUP)

lemma bit_foldl_or:
  "\<forall>j\<in>set js. j < 8 \<Longrightarrow>
    bit (foldl (\<lambda>w j. w OR push_bit j 1) (w :: u8) js) k \<longleftrightarrow> bit w k \<or> k \<in> set js"
  by (induction js arbitrary: w) (auto simp: bit_or_mask)

lemma bitmap_create_ok:
  assumes n: "unat nbits \<le> 2 ^ 32 - 8"
  shows "if km 8 \<and> km (DIVROUNDUP nbits 8)
    then \<exists>b. bitmap_create km nbits = Some (Inr b) \<and> bm_inv b \<and> bm_nbits b = nbits \<and> bm_used b = {}
    else bitmap_create km nbits = Some (Inl ())"
proof (cases "km 8 \<and> km (DIVROUNDUP nbits 8)")
  case True
  define q r where "q = unat nbits div 8" and "r = unat nbits mod 8"
  have nb: "unat nbits = 8 * q + r" "r < 8" by (simp_all add: q_def r_def)
  have words: "unat (DIVROUNDUP nbits 8) = (unat nbits + 7) div 8" by (rule unat_DIVROUNDUP [OF n])
  have div: "unat (nbits div 8) = q" by (simp add: unat_div_8 q_def)
  show ?thesis
  proof (cases "r = 0")
    case r0: True
    then have w: "unat (DIVROUNDUP nbits 8) = q" using words nb by simp
    then have "\<not> nbits div 8 < DIVROUNDUP nbits 8" using div by (simp add: word_less_nat_alt)
    then show ?thesis
      using True w nb r0 n
      by (auto simp: bitmap_create_def Let_def bm_inv_def bm_used_def bm_bit_def)
  next
    case False
    then have w: "unat (DIVROUNDUP nbits 8) = Suc q" using words nb by simp
    then have ne: "DIVROUNDUP nbits 8 \<noteq> 0" by auto
    define ix where "ix = DIVROUNDUP nbits 8 - 1"
    have uix: "unat ix = q" using ne w by (simp add: ix_def unat_minus_one)
    have ixd: "ix = nbits div 8" using uix div by (simp add: word_unat_eq_iff)
    have over: "unat (nbits - ix * 8) = r"
    proof -
      have "nbits - ix * 8 = nbits mod 8" by (simp add: ixd minus_div_mult_eq_mod)
      then show ?thesis by (simp add: unat_mod_8 r_def)
    qed
    define w where "w = foldl (\<lambda>w j. w OR push_bit j 1) (0 :: u8) [r..<8]"
    have wbit: "bit w k \<longleftrightarrow> r \<le> k \<and> k < 8" for k
      using nb(2) by (auto simp: w_def bit_foldl_or)
    let ?b = "\<lparr>bm_nbits = nbits, bm_v = (replicate (Suc q) 0)[q := w]\<rparr>"
    have "bitmap_create km nbits = Some (Inr ?b)"
      using True \<open>unat (DIVROUNDUP nbits 8) = Suc q\<close> False nb(2) over uix ixd div
      by (auto simp: bitmap_create_def Let_def w_def word_less_nat_alt simp flip: ix_def simp del: replicate_Suc)
    moreover have "bm_bit (bm_v ?b) i \<longleftrightarrow> unat nbits \<le> i" if "i < 8 * Suc q" for i
    proof (cases "i div 8 = q")
      case True
      then have "i = 8 * q + i mod 8" by (metis mult_div_mod_eq)
      then have "unat nbits \<le> i \<longleftrightarrow> r \<le> i mod 8" using nb(1) by linarith
      then show ?thesis using True by (simp add: bm_bit_def wbit del: replicate_Suc)
    next
      case False
      then have lt: "i div 8 < q" using that by (simp add: div_less_iff_less_mult)
      then have "i < 8 * q" by (simp add: div_less_iff_less_mult)
      moreover have "(replicate (Suc q) 0)[q := w] ! (i div 8) = 0"
        using lt by (simp del: replicate_Suc)
      ultimately show ?thesis using nb(1) by (simp add: bm_bit_def del: replicate_Suc)
    qed
    ultimately show ?thesis
      using True n nb False by (auto simp: bm_inv_def bm_used_def simp del: replicate_Suc)
  qed
qed (auto simp: bitmap_create_def Let_def)

section \<open>The contract of the bitmap\<close>

locale bit_allocator =
  fixes inv :: "'b \<Rightarrow> bool" and nbits :: "'b \<Rightarrow> u32" and used :: "'b \<Rightarrow> nat set"
    and alloc :: "'b \<Rightarrow> ((errno + u32) \<times> 'b) option"
    and mark :: "'b \<Rightarrow> u32 \<Rightarrow> 'b option" and unmark :: "'b \<Rightarrow> u32 \<Rightarrow> 'b option"
    and isset :: "'b \<Rightarrow> u32 \<Rightarrow> u8 option"
  assumes used_bound: "inv b \<Longrightarrow> used b \<subseteq> {..<unat (nbits b)}"
    and alloc_cases: "inv b \<Longrightarrow>
      (used b = {..<unat (nbits b)} \<and> alloc b = Some (Inl ENOSPC, b)) \<or>
      (\<exists>i b'. alloc b = Some (Inr i, b') \<and> i < nbits b \<and> unat i \<notin> used b
        \<and> inv b' \<and> nbits b' = nbits b \<and> used b' = insert (unat i) (used b))"
    and mark_free: "inv b \<Longrightarrow> i < nbits b \<Longrightarrow> unat i \<notin> used b \<Longrightarrow>
      \<exists>b'. mark b i = Some b' \<and> inv b' \<and> nbits b' = nbits b \<and> used b' = insert (unat i) (used b)"
    and unmark_used: "inv b \<Longrightarrow> unat i \<in> used b \<Longrightarrow>
      \<exists>b'. unmark b i = Some b' \<and> inv b' \<and> nbits b' = nbits b \<and> used b' = used b - {unat i}"
    and unmark_free: "inv b \<Longrightarrow> unat i \<notin> used b \<Longrightarrow> unmark b i = None"
    and isset_used: "inv b \<Longrightarrow> i < nbits b \<Longrightarrow> \<exists>w. isset b i = Some w \<and> (w \<noteq> 0 \<longleftrightarrow> unat i \<in> used b)"
begin

text \<open>What is allocated can be freed again, which gives back the old set.\<close>
lemma alloc_unmark:
  assumes "inv b" "alloc b = Some (Inr i, b')"
  shows "\<exists>b''. unmark b' i = Some b'' \<and> inv b'' \<and> used b'' = used b"
proof -
  from alloc_cases [OF assms(1)] assms(2) have "inv b'" "unat i \<notin> used b"
    "used b' = insert (unat i) (used b)" by simp_all
  then show ?thesis using unmark_used [of b' i] by auto
qed

text \<open>The number of free bits; an allocation takes exactly one.\<close>
definition nfree :: "'b \<Rightarrow> nat" where
  "nfree b = card ({..<unat (nbits b)} - used b)"

lemma alloc_nfree:
  assumes "inv b" "alloc b = Some (Inr i, b')"
  shows "nfree b = Suc (nfree b')"
proof -
  from assms alloc_cases [OF assms(1)] have i: "i < nbits b" "unat i \<notin> used b" "nbits b' = nbits b"
    "used b' = insert (unat i) (used b)"
    by simp_all
  then have "{..<unat (nbits b')} - used b' = ({..<unat (nbits b)} - used b) - {unat i}"
    and "unat i \<in> {..<unat (nbits b)} - used b"
    by (auto simp: word_less_nat_alt)
  then show ?thesis unfolding nfree_def by (metis card.remove finite_Diff finite_lessThan)
qed

lemma alloc_none_iff:
  assumes "inv b"
  shows "(\<exists>i b'. alloc b = Some (Inr i, b')) \<longleftrightarrow> nfree b \<noteq> 0"
proof (cases "alloc b = Some (Inl ENOSPC, b)")
  case True
  then have "used b = {..<unat (nbits b)}" using alloc_cases [OF assms] by simp
  then show ?thesis using True by (simp add: nfree_def)
next
  case False
  then obtain i b' where "alloc b = Some (Inr i, b')" using alloc_cases [OF assms] by blast
  then show ?thesis using alloc_nfree [OF assms] by auto
qed

end

interpretation bm: bit_allocator bm_inv bm_nbits bm_used bitmap_alloc bitmap_mark bitmap_unmark bitmap_isset
proof
  fix b :: bitmap and i :: u32
  assume inv: "bm_inv b"
  show "bm_used b \<subseteq> {..<unat (bm_nbits b)}" by (auto simp: bm_used_def)
  show "(bm_used b = {..<unat (bm_nbits b)} \<and> bitmap_alloc b = Some (Inl ENOSPC, b)) \<or>
      (\<exists>i b'. bitmap_alloc b = Some (Inr i, b') \<and> i < bm_nbits b \<and> unat i \<notin> bm_used b
        \<and> bm_inv b' \<and> bm_nbits b' = bm_nbits b \<and> bm_used b' = insert (unat i) (bm_used b))"
    using bitmap_alloc_ok [OF inv] by blast
  show "i < bm_nbits b \<Longrightarrow> unat i \<notin> bm_used b \<Longrightarrow> \<exists>b'. bitmap_mark b i = Some b' \<and> bm_inv b'
      \<and> bm_nbits b' = bm_nbits b \<and> bm_used b' = insert (unat i) (bm_used b)"
    using bitmap_mark_ok [OF inv, of i] by simp
  show "unat i \<in> bm_used b \<Longrightarrow> \<exists>b'. bitmap_unmark b i = Some b' \<and> bm_inv b'
      \<and> bm_nbits b' = bm_nbits b \<and> bm_used b' = bm_used b - {unat i}"
    using bitmap_unmark_ok [OF inv, of i] by (simp add: bm_used_def word_less_nat_alt)
  show "unat i \<notin> bm_used b \<Longrightarrow> bitmap_unmark b i = None"
    using bitmap_unmark_ok [OF inv, of i]
    by (cases "i < bm_nbits b") (simp_all add: bitmap_unmark_def)
  show "i < bm_nbits b \<Longrightarrow> \<exists>w. bitmap_isset b i = Some w \<and> (w \<noteq> 0 \<longleftrightarrow> unat i \<in> bm_used b)"
    by (rule bitmap_isset_ok [OF inv])
qed

section \<open>Properties\<close>

text \<open>
  C18. \<^verbatim>\<open>bitmap_create\<close> returns an empty bitmap whose leftover bits are marked, or \<^verbatim>\<open>NULL\<close>
  exactly when one of its two allocations fails; its assertions hold.
\<close>
theorem bitmap_create_empty:
  assumes "unat nbits \<le> 2 ^ 32 - 8"
  shows "if km 8 \<and> km (DIVROUNDUP nbits 8)
    then \<exists>b. bitmap_create km nbits = Some (Inr b) \<and> bm_inv b \<and> bm_nbits b = nbits \<and> bm_used b = {}
    else bitmap_create km nbits = Some (Inl ())"
  by (rule bitmap_create_ok [OF assms])

theorem bitmap_create_empty_witness:
  "\<exists>b. bitmap_create (\<lambda>b. b < 4096) 13 = Some (Inr b) \<and> bm_inv b \<and> bm_used b = {}"
  using bitmap_create_empty [of 13 "\<lambda>b. b < 4096"] by (auto simp: DIVROUNDUP_def)

text \<open>
  C19. \<^verbatim>\<open>bitmap_alloc\<close> returns the lowest clear bit and sets it, or \<open>ENOSPC\<close> exactly when all
  bits are set; its assertions hold.
\<close>
theorem bitmap_alloc_lowest:
  assumes "bm_inv b"
  shows "if bm_used b = {..<unat (bm_nbits b)} then bitmap_alloc b = Some (Inl ENOSPC, b)
    else \<exists>i b'. bitmap_alloc b = Some (Inr i, b') \<and> i < bm_nbits b \<and> unat i \<notin> bm_used b
      \<and> (\<forall>j<unat i. j \<in> bm_used b) \<and> bm_inv b' \<and> bm_used b' = insert (unat i) (bm_used b)"
  using bitmap_alloc_ok [OF assms] by (auto simp: word_less_nat_alt)

text \<open>
  C20. Bits are independent: after \<^verbatim>\<open>bitmap_mark\<close> or \<^verbatim>\<open>bitmap_unmark\<close> of a bit, \<^verbatim>\<open>bitmap_isset\<close>
  sees the change at that bit and the old value at every other one; marking a set bit and
  unmarking a clear one panic.
\<close>
theorem bitmap_mark_isset:
  assumes "bm_inv b" "i < bm_nbits b" "j < bm_nbits b"
  shows "\<exists>wi wj. bitmap_isset b i = Some wi \<and> bitmap_isset b j = Some wj \<and>
    (if wi = 0
     then bitmap_unmark b i = None \<and> (\<exists>b' w. bitmap_mark b i = Some b' \<and> bm_inv b'
       \<and> bitmap_isset b' j = Some w \<and> (w \<noteq> 0 \<longleftrightarrow> j = i \<or> wj \<noteq> 0))
     else bitmap_mark b i = None \<and> (\<exists>b' w. bitmap_unmark b i = Some b' \<and> bm_inv b'
       \<and> bitmap_isset b' j = Some w \<and> (w \<noteq> 0 \<longleftrightarrow> j \<noteq> i \<and> wj \<noteq> 0)))"
proof -
  obtain wi wj where w: "bitmap_isset b i = Some wi" "wi \<noteq> 0 \<longleftrightarrow> unat i \<in> bm_used b"
    "bitmap_isset b j = Some wj" "wj \<noteq> 0 \<longleftrightarrow> unat j \<in> bm_used b"
    using bitmap_isset_ok [OF assms(1,2)] bitmap_isset_ok [OF assms(1,3)] by auto
  have eq: "unat j = unat i \<longleftrightarrow> j = i" by (simp add: word_unat_eq_iff)
  show ?thesis
  proof (cases "wi = 0")
    case True
    then obtain b' where "bitmap_mark b i = Some b'" "bm_inv b'" "bm_nbits b' = bm_nbits b"
      "bm_used b' = insert (unat i) (bm_used b)" "bitmap_unmark b i = None"
      using bitmap_mark_ok [OF assms(1,2)] bitmap_unmark_ok [OF assms(1,2)] w by auto
    then show ?thesis using bitmap_isset_ok [of b' j] assms(3) w True eq by auto
  next
    case False
    then obtain b' where "bitmap_unmark b i = Some b'" "bm_inv b'" "bm_nbits b' = bm_nbits b"
      "bm_used b' = bm_used b - {unat i}" "bitmap_mark b i = None"
      using bitmap_mark_ok [OF assms(1,2)] bitmap_unmark_ok [OF assms(1,2)] w by auto
    then show ?thesis using bitmap_isset_ok [of b' j] assms(3) w False eq by auto
  qed
qed

text \<open>A bitmap of five bits with bit 0 set, for the witnesses.\<close>
definition bm_five :: bitmap where
  "bm_five = \<lparr>bm_nbits = 5, bm_v = [0xe1]\<rparr>"

lemma bm_five_inv: "bm_inv bm_five" "bm_used bm_five = {0}"
proof -
  have b: "bit (0xe1 :: u8) i \<longleftrightarrow> i \<in> {0, 5, 6, 7}" if "i < 8" for i
    using that by (simp add: numeral_eq_Suc less_Suc_eq) (auto simp: bit_simps)
  show "bm_inv bm_five"
    using b by (auto simp: bm_five_def bm_inv_def bm_bit_def)
  show "bm_used bm_five = {0}"
    using b by (auto simp: bm_five_def bm_used_def bm_bit_def)
qed

theorem bitmap_alloc_lowest_witness:
  "\<exists>b'. bitmap_alloc bm_five = Some (Inr 1, b') \<and> bm_used b' = {0, 1}"
proof -
  have "(1 :: nat) \<in> {..<unat (bm_nbits bm_five)}" by (simp add: bm_five_def)
  then have "bm_used bm_five \<noteq> {..<unat (bm_nbits bm_five)}" by (metis bm_five_inv(2) singletonD zero_neq_one)
  with bitmap_alloc_lowest [OF bm_five_inv(1)] obtain i b' where
    i: "bitmap_alloc bm_five = Some (Inr i, b')" "unat i \<notin> {0}" "\<forall>j<unat i. j \<in> {0}"
      "bm_used b' = insert (unat i) {0}"
    by (auto simp: bm_five_inv)
  then have "\<not> 1 < unat i" by auto
  then have "unat i = 1" using i(2) by auto
  then have "i = 1" by (metis unat_1 word_unat_eq_iff)
  then show ?thesis using i by (simp add: insert_commute)
qed

theorem bitmap_mark_isset_witness:
  "bitmap_mark bm_five 0 = None \<and> (\<exists>b' w. bitmap_unmark bm_five 0 = Some b' \<and> bitmap_isset b' 0 = Some 0)"
proof -
  have n: "0 < bm_nbits bm_five" by (simp add: bm_five_def)
  obtain wi where "bitmap_isset bm_five 0 = Some wi" "wi \<noteq> 0"
    using bitmap_isset_ok [OF bm_five_inv(1) n] bm_five_inv(2) by auto
  then show ?thesis
    using bitmap_mark_isset [OF bm_five_inv(1) n n] by auto
qed

end
