(* ===== verification/Sfs_Core.thy ===== *)
theory Sfs_Core
  imports Lhd_Disk Sfs_Layout Kern_Array Kern_Bitmap
begin

text \<open>
  Files of SFS: \<^verbatim>\<open>kern/fs/sfs/sfs_io.c\<close> and the space allocation, block mapping, file I/O and
  truncation of \<^verbatim>\<open>kern/fs/sfs/sfs_vnode.c\<close>.

  \<open>sfs_fs\<close> is \<^verbatim>\<open>struct sfs_fs\<close>; the \<^verbatim>\<open>struct sfs_vnode\<close> objects live in \<open>sfs_heap\<close> and the
  vnode table holds their addresses. The operations of this theory work on the one vnode they
  are given, which is passed and returned by value. The static I/O buffers are always
  filled before they are used, and are local here.
\<close>

section \<open>Model\<close>

text \<open>Which of the two function tables a vnode uses.\<close>
datatype sfs_ops = sfs_fileops | sfs_dirops

record sfs_vnode =
  sv_ops :: sfs_ops
  sv_refcount :: int
  sv_opencount :: int
  sv_i :: sfs_inode
  sv_ino :: u32
  sv_dirty :: bool

record sfs_fs =
  sfs_super :: sfs_super
  sfs_superdirty :: bool
  sfs_device :: lhd
  sfs_vnodes :: "nat karray"
  sfs_freemap :: bitmap
  sfs_freemapdirty :: bool
  sfs_heap :: "nat \<Rightarrow> sfs_vnode option"

subsection \<open>Block I/O\<close>

definition sfs_rwblock :: "sfs_fs \<Rightarrow> uio \<Rightarrow> ((errno + unit) \<times> sfs_fs \<times> uio) option" where
  "sfs_rwblock sfs uio = do {
     (result, dev, uio) \<leftarrow> retry_io 10 lhd_io (sfs_device sfs) uio;
     Some (result, sfs\<lparr>sfs_device := dev\<rparr>, uio)
   }"

text \<open>\<^verbatim>\<open>SFSUIO\<close>: a block of a kernel object at an offset.\<close>
definition SFSUIO :: "u8 list \<Rightarrow> nat \<Rightarrow> u32 \<Rightarrow> uio_rw \<Rightarrow> uio" where
  "SFSUIO buf off block rw = mk_kuio buf off 512 (s32 (s32 (uint block) * 512)) rw"

text \<open>\<^verbatim>\<open>sfs_rblock\<close> into the object \<open>buf\<close> at \<open>off\<close>, which it returns changed.\<close>
definition sfs_rblock :: "sfs_fs \<Rightarrow> u8 list \<Rightarrow> nat \<Rightarrow> u32 \<Rightarrow> ((errno + unit) \<times> u8 list \<times> sfs_fs) option" where
  "sfs_rblock sfs buf off block = do {
     (result, sfs, ku) \<leftarrow> sfs_rwblock sfs (SFSUIO buf off block UIO_READ);
     Some (result, iov_kbuf ku, sfs)
   }"

definition sfs_wblock :: "sfs_fs \<Rightarrow> u8 list \<Rightarrow> nat \<Rightarrow> u32 \<Rightarrow> ((errno + unit) \<times> sfs_fs) option" where
  "sfs_wblock sfs buf off block = do {
     (result, sfs, ku) \<leftarrow> sfs_rwblock sfs (SFSUIO buf off block UIO_WRITE);
     Some (result, sfs)
   }"

subsection \<open>Simple stuff and space allocation\<close>

definition sfs_clearblock :: "sfs_fs \<Rightarrow> u32 \<Rightarrow> ((errno + unit) \<times> sfs_fs) option" where
  "sfs_clearblock sfs block = sfs_wblock sfs (replicate 512 0) 0 block"

definition sfs_sync_inode :: "sfs_fs \<Rightarrow> sfs_vnode \<Rightarrow> ((errno + unit) \<times> sfs_fs \<times> sfs_vnode) option" where
  "sfs_sync_inode sfs sv =
     (if sv_dirty sv
      then do {
        (result, sfs) \<leftarrow> sfs_wblock sfs (inode_bytes (sv_i sv)) 0 (sv_ino sv);
        case result of
          Inl err \<Rightarrow> Some (Inl err, sfs, sv)
        | Inr _ \<Rightarrow> Some (Inr (), sfs, sv\<lparr>sv_dirty := False\<rparr>)
      }
      else Some (Inr (), sfs, sv))"

definition sfs_balloc :: "sfs_fs \<Rightarrow> ((errno + u32) \<times> sfs_fs) option" where
  "sfs_balloc sfs = do {
     (result, freemap) \<leftarrow> bitmap_alloc (sfs_freemap sfs);
     let sfs = sfs\<lparr>sfs_freemap := freemap\<rparr>;
     case result of
       Inl err \<Rightarrow> Some (Inl err, sfs)
     | Inr diskblock \<Rightarrow> do {
         let sfs = sfs\<lparr>sfs_freemapdirty := True\<rparr>;
         kassert (diskblock < sp_nblocks (sfs_super sfs));
         (result, sfs) \<leftarrow> sfs_clearblock sfs diskblock;
         case result of
           Inl err \<Rightarrow> Some (Inl err, sfs)
         | Inr _ \<Rightarrow> Some (Inr diskblock, sfs)
       }
   }"

definition sfs_bfree :: "sfs_fs \<Rightarrow> u32 \<Rightarrow> sfs_fs option" where
  "sfs_bfree sfs diskblock = do {
     freemap \<leftarrow> bitmap_unmark (sfs_freemap sfs) diskblock;
     Some (sfs\<lparr>sfs_freemap := freemap, sfs_freemapdirty := True\<rparr>)
   }"

definition sfs_bused :: "sfs_fs \<Rightarrow> u32 \<Rightarrow> bool option" where
  "sfs_bused sfs diskblock = do {
     kassert (diskblock < sp_nblocks (sfs_super sfs));
     w \<leftarrow> bitmap_isset (sfs_freemap sfs) diskblock;
     Some (w \<noteq> 0)
   }"

subsection \<open>Block mapping\<close>

text \<open>The check at the end of both branches of \<^verbatim>\<open>sfs_bmap\<close>, which panics on a free block.\<close>
definition sfs_handback :: "sfs_fs \<Rightarrow> u32 \<Rightarrow> unit option" where
  "sfs_handback sfs block =
     (if block \<noteq> 0 then do { used \<leftarrow> sfs_bused sfs block; kassert used } else Some ())"

text \<open>The branch of \<^verbatim>\<open>sfs_bmap\<close> for direct blocks (lines 140--169).\<close>
definition sfs_bmap_direct :: "sfs_fs \<Rightarrow> sfs_vnode \<Rightarrow> nat \<Rightarrow> bool
    \<Rightarrow> ((errno + u32) \<times> sfs_fs \<times> sfs_vnode) option" where
  "sfs_bmap_direct sfs sv fileblock doalloc = do {
     block \<leftarrow> cnth (sfi_direct (sv_i sv)) (int fileblock);
     (result, sfs, sv) \<leftarrow>
       (if block = 0 \<and> doalloc
        then do {
          (result, sfs) \<leftarrow> sfs_balloc sfs;
          case result of
            Inl err \<Rightarrow> Some (Inl err, sfs, sv)
          | Inr block \<Rightarrow> do {
              direct \<leftarrow> cupd (sfi_direct (sv_i sv)) (int fileblock) block;
              Some (Inr block, sfs, sv\<lparr>sv_i := (sv_i sv)\<lparr>sfi_direct := direct\<rparr>, sv_dirty := True\<rparr>)
            }
        }
        else Some (Inr block, sfs, sv));
     case result of
       Inl err \<Rightarrow> Some (Inl err, sfs, sv)
     | Inr block \<Rightarrow> do {
         sfs_handback sfs block;
         Some (Inr block, sfs, sv)
       }
   }"

text \<open>
  The part of \<^verbatim>\<open>sfs_bmap\<close> after the indirect block has been loaded into \<open>idbuf\<close> or created
  (lines 234--260).
\<close>
definition sfs_bmap_entry :: "sfs_fs \<Rightarrow> sfs_vnode \<Rightarrow> u32 list \<Rightarrow> u32 \<Rightarrow> nat \<Rightarrow> bool
    \<Rightarrow> ((errno + u32) \<times> sfs_fs \<times> sfs_vnode) option" where
  "sfs_bmap_entry sfs sv idbuf idblock idoff doalloc = do {
     block \<leftarrow> cnth idbuf (int idoff);
     (result, sfs) \<leftarrow>
       (if block = 0 \<and> doalloc
        then do {
          (result, sfs) \<leftarrow> sfs_balloc sfs;
          case result of
            Inl err \<Rightarrow> Some (Inl err, sfs)
          | Inr block \<Rightarrow> do {
              idbuf \<leftarrow> cupd idbuf (int idoff) block;
              (result, sfs) \<leftarrow> sfs_wblock sfs (bytes32 idbuf) 0 idblock;
              case result of
                Inl err \<Rightarrow> Some (Inl err, sfs)
              | Inr _ \<Rightarrow> Some (Inr block, sfs)
            }
        }
        else Some (Inr block, sfs));
     case result of
       Inl err \<Rightarrow> Some (Inl err, sfs, sv)
     | Inr block \<Rightarrow> do {
         sfs_handback sfs block;
         Some (Inr block, sfs, sv)
       }
   }"

definition sfs_bmap :: "sfs_fs \<Rightarrow> sfs_vnode \<Rightarrow> u32 \<Rightarrow> bool \<Rightarrow> ((errno + u32) \<times> sfs_fs \<times> sfs_vnode) option" where
  "sfs_bmap sfs sv fileblock doalloc =
     (if fileblock < 15 then sfs_bmap_direct sfs sv (unat fileblock) doalloc
      else do {
        let fileblock = fileblock - 15;
        let idnum = fileblock div 128;
        let idoff = fileblock mod 128;
        if idnum > 0 then Some (Inl EINVAL, sfs, sv)
        else do {
          let idblock = sfi_indirect (sv_i sv);
          if idblock = 0 \<and> \<not> doalloc then Some (Inr 0, sfs, sv)
          else if idblock = 0
          then do {
            (result, sfs) \<leftarrow> sfs_balloc sfs;
            case result of
              Inl err \<Rightarrow> Some (Inl err, sfs, sv)
            | Inr idblock \<Rightarrow> do {
                let sv = sv\<lparr>sv_i := (sv_i sv)\<lparr>sfi_indirect := idblock\<rparr>, sv_dirty := True\<rparr>;
                sfs_bmap_entry sfs sv (replicate 128 0) idblock (unat idoff) doalloc
              }
          }
          else do {
            (result, buf, sfs) \<leftarrow> sfs_rblock sfs (replicate 512 0) 0 idblock;
            case result of
              Inl err \<Rightarrow> Some (Inl err, sfs, sv)
            | Inr _ \<Rightarrow> sfs_bmap_entry sfs sv (words32 128 buf) idblock (unat idoff) doalloc
          }
        }
      })"

subsection \<open>File-level I/O\<close>

definition sfs_partialio :: "sfs_fs \<Rightarrow> sfs_vnode \<Rightarrow> uio \<Rightarrow> u32 \<Rightarrow> u32
    \<Rightarrow> ((errno + unit) \<times> sfs_fs \<times> sfs_vnode \<times> uio) option" where
  "sfs_partialio sfs sv uio skipstart len = do {
     let doalloc = (uio_rw uio = UIO_WRITE);
     kassert (skipstart + len \<le> 512);
     let fileblock = word_of_int (uio_offset uio sdiv 512);
     (result, sfs, sv) \<leftarrow> sfs_bmap sfs sv fileblock doalloc;
     case result of
       Inl err \<Rightarrow> Some (Inl err, sfs, sv, uio)
     | Inr diskblock \<Rightarrow> do {
         (result, iobuf, sfs) \<leftarrow>
           (if diskblock = 0
            then do {
              kassert (uio_rw uio = UIO_READ);
              Some (Inr (), replicate 512 0, sfs)
            }
            else sfs_rblock sfs (replicate 512 0) 0 diskblock);
         case result of
           Inl err \<Rightarrow> Some (Inl err, sfs, sv, uio)
         | Inr _ \<Rightarrow> do {
             (result, iobuf, uio) \<leftarrow> uiomove iobuf (unat skipstart) len uio;
             case result of
               Inl err \<Rightarrow> Some (Inl err, sfs, sv, uio)
             | Inr _ \<Rightarrow>
                 if uio_rw uio = UIO_WRITE
                 then do {
                   (result, sfs) \<leftarrow> sfs_wblock sfs iobuf 0 diskblock;
                   Some (result, sfs, sv, uio)
                 }
                 else Some (Inr (), sfs, sv, uio)
           }
       }
   }"

definition sfs_blockio :: "sfs_fs \<Rightarrow> sfs_vnode \<Rightarrow> uio \<Rightarrow> ((errno + unit) \<times> sfs_fs \<times> sfs_vnode \<times> uio) option" where
  "sfs_blockio sfs sv uio = do {
     let doalloc = (uio_rw uio = UIO_WRITE);
     let fileblock = word_of_int (uio_offset uio sdiv 512);
     (result, sfs, sv) \<leftarrow> sfs_bmap sfs sv fileblock doalloc;
     case result of
       Inl err \<Rightarrow> Some (Inl err, sfs, sv, uio)
     | Inr diskblock \<Rightarrow>
         if diskblock = 0
         then do {
           kassert (uio_rw uio = UIO_READ);
           (result, uio) \<leftarrow> uiomovezeros 512 uio;
           Some (result, sfs, sv, uio)
         }
         else do {
           let saveoff = uio_offset uio;
           let diskoff = s32 (uint (diskblock * 512));
           kassert (uio_resid uio \<ge> 512);
           let saveres = uio_resid uio;
           (result, sfs, uio) \<leftarrow> sfs_rwblock sfs (uio\<lparr>uio_offset := diskoff, uio_resid := 512\<rparr>);
           let uio = uio\<lparr>uio_offset := s32 (s32 (uio_offset uio - diskoff) + saveoff),
                         uio_resid := uio_resid uio - 512 + saveres\<rparr>;
           Some (result, sfs, sv, uio)
         }
   }"

text \<open>The loop over whole blocks in \<^verbatim>\<open>sfs_io\<close> (lines 480--485).\<close>
primrec sfs_io_blocks :: "nat \<Rightarrow> sfs_fs \<Rightarrow> sfs_vnode \<Rightarrow> uio
    \<Rightarrow> ((errno + unit) \<times> sfs_fs \<times> sfs_vnode \<times> uio) option" where
  "sfs_io_blocks 0 sfs sv uio = Some (Inr (), sfs, sv, uio)"
| "sfs_io_blocks (Suc n) sfs sv uio = do {
     (result, sfs, sv, uio) \<leftarrow> sfs_blockio sfs sv uio;
     case result of
       Inl err \<Rightarrow> Some (Inl err, sfs, sv, uio)
     | Inr _ \<Rightarrow> sfs_io_blocks n sfs sv uio
   }"

text \<open>The part of \<^verbatim>\<open>sfs_io\<close> for the remaining whole blocks and the end (lines 471--495).\<close>
definition sfs_io_rest :: "sfs_fs \<Rightarrow> sfs_vnode \<Rightarrow> uio
    \<Rightarrow> ((errno + unit) \<times> sfs_fs \<times> sfs_vnode \<times> uio) option" where
  "sfs_io_rest sfs sv uio = do {
     kassert (uio_offset uio smod 512 = 0);
     let nblocks = uio_resid uio div 512;
     (result, sfs, sv, uio) \<leftarrow> sfs_io_blocks (unat nblocks) sfs sv uio;
     case result of
       Inl err \<Rightarrow> Some (Inl err, sfs, sv, uio)
     | Inr _ \<Rightarrow> do {
         kassert (uio_resid uio < 512);
         if uio_resid uio > 0 then sfs_partialio sfs sv uio 0 (uio_resid uio)
         else Some (Inr (), sfs, sv, uio)
       }
   }"

text \<open>\<^verbatim>\<open>sfs_io\<close> between the check for EOF and the label \<^verbatim>\<open>out\<close> (lines 444--495).\<close>
definition sfs_io_body :: "sfs_fs \<Rightarrow> sfs_vnode \<Rightarrow> uio
    \<Rightarrow> ((errno + unit) \<times> sfs_fs \<times> sfs_vnode \<times> uio) option" where
  "sfs_io_body sfs sv uio = do {
     let blkoff = (word_of_int (uio_offset uio smod 512) :: u32);
     (result, sfs, sv, uio) \<leftarrow>
       (if blkoff \<noteq> 0
        then do {
          let len = 512 - blkoff;
          let len = (if len > uio_resid uio then uio_resid uio else len);
          sfs_partialio sfs sv uio blkoff len
        }
        else Some (Inr (), sfs, sv, uio));
     case result of
       Inl err \<Rightarrow> Some (Inl err, sfs, sv, uio)
     | Inr _ \<Rightarrow>
         if uio_resid uio = 0 then Some (Inr (), sfs, sv, uio)
         else sfs_io_rest sfs sv uio
   }"

text \<open>\<^verbatim>\<open>sfs_io\<close> from the label \<^verbatim>\<open>out\<close> on.\<close>
definition sfs_io_out :: "u32 \<Rightarrow> (errno + unit) \<times> sfs_fs \<times> sfs_vnode \<times> uio
    \<Rightarrow> (errno + unit) \<times> sfs_fs \<times> sfs_vnode \<times> uio" where
  "sfs_io_out extraresid r =
     (case r of (result, sfs, sv, uio) \<Rightarrow>
        let sv = (if uio_rw uio = UIO_WRITE \<and> uio_offset uio > s32 (uint (sfi_size (sv_i sv)))
                  then sv\<lparr>sv_i := (sv_i sv)\<lparr>sfi_size := word_of_int (uio_offset uio)\<rparr>, sv_dirty := True\<rparr>
                  else sv)
        in (result, sfs, sv, uio\<lparr>uio_resid := uio_resid uio + extraresid\<rparr>))"

definition sfs_io :: "sfs_fs \<Rightarrow> sfs_vnode \<Rightarrow> uio \<Rightarrow> ((errno + unit) \<times> sfs_fs \<times> sfs_vnode \<times> uio) option" where
  "sfs_io sfs sv uio =
     (let fsize = s32 (uint (sfi_size (sv_i sv)));
          endpos = s32 (uio_offset uio + uint (uio_resid uio))
      in if uio_rw uio = UIO_READ \<and> uio_offset uio \<ge> fsize then Some (Inr (), sfs, sv, uio)
         else do {
           let extraresid = (if uio_rw uio = UIO_READ \<and> endpos > fsize
                             then word_of_int (endpos - fsize) else 0 :: u32);
           kassert (uio_rw uio = UIO_READ \<and> endpos > fsize \<longrightarrow> uio_resid uio > extraresid);
           r \<leftarrow> sfs_io_body sfs sv (uio\<lparr>uio_resid := uio_resid uio - extraresid\<rparr>);
           Some (sfs_io_out extraresid r)
         })"

subsection \<open>Truncation\<close>

text \<open>The loop over the direct blocks, for the block numbers from \<open>i\<close> on, \<open>n\<close> to go.\<close>
primrec sfs_trunc_direct :: "nat \<Rightarrow> nat \<Rightarrow> u32 \<Rightarrow> sfs_fs \<Rightarrow> sfs_vnode \<Rightarrow> (sfs_fs \<times> sfs_vnode) option" where
  "sfs_trunc_direct 0 i blocklen sfs sv = Some (sfs, sv)"
| "sfs_trunc_direct (Suc n) i blocklen sfs sv = do {
     block \<leftarrow> cnth (sfi_direct (sv_i sv)) (int i);
     (sfs, sv) \<leftarrow>
       (if of_nat i \<ge> blocklen \<and> block \<noteq> 0
        then do {
          sfs \<leftarrow> sfs_bfree sfs block;
          direct \<leftarrow> cupd (sfi_direct (sv_i sv)) (int i) 0;
          Some (sfs, sv\<lparr>sv_i := (sv_i sv)\<lparr>sfi_direct := direct\<rparr>, sv_dirty := True\<rparr>)
        }
        else Some (sfs, sv));
     sfs_trunc_direct n (Suc i) blocklen sfs sv
   }"

text \<open>
  The loop over the entries of the indirect block, from entry \<open>j\<close> on: the buffer, and whether
  an entry was discarded and whether one is left.
\<close>
primrec sfs_trunc_entries :: "nat \<Rightarrow> nat \<Rightarrow> u32 \<Rightarrow> sfs_fs \<Rightarrow> u32 list \<Rightarrow> bool \<Rightarrow> bool
    \<Rightarrow> (sfs_fs \<times> u32 list \<times> bool \<times> bool) option" where
  "sfs_trunc_entries 0 j blocklen sfs idbuf iddirty hasnonzero = Some (sfs, idbuf, iddirty, hasnonzero)"
| "sfs_trunc_entries (Suc n) j blocklen sfs idbuf iddirty hasnonzero = do {
     e \<leftarrow> cnth idbuf (int j);
     (sfs, idbuf, iddirty) \<leftarrow>
       (if blocklen < 15 + of_nat j \<and> e \<noteq> 0
        then do {
          sfs \<leftarrow> sfs_bfree sfs e;
          idbuf \<leftarrow> cupd idbuf (int j) 0;
          Some (sfs, idbuf, True)
        }
        else Some (sfs, idbuf, iddirty));
     e \<leftarrow> cnth idbuf (int j);
     sfs_trunc_entries n (Suc j) blocklen sfs idbuf iddirty (hasnonzero \<or> e \<noteq> 0)
   }"

text \<open>The part of \<^verbatim>\<open>sfs_truncate\<close> for the indirect block (lines 1100--1148).\<close>
definition sfs_trunc_indirect :: "u32 \<Rightarrow> sfs_fs \<Rightarrow> sfs_vnode \<Rightarrow> ((errno + unit) \<times> sfs_fs \<times> sfs_vnode) option" where
  "sfs_trunc_indirect blocklen sfs sv =
     (let idblock = sfi_indirect (sv_i sv); highblock = 15 + 128 - 1
      in if blocklen < highblock \<and> idblock \<noteq> 0
         then do {
           (result, buf, sfs) \<leftarrow> sfs_rblock sfs (replicate 512 0) 0 idblock;
           case result of
             Inl err \<Rightarrow> Some (Inl err, sfs, sv)
           | Inr _ \<Rightarrow> do {
               (sfs, idbuf, iddirty, hasnonzero) \<leftarrow>
                 sfs_trunc_entries 128 0 blocklen sfs (words32 128 buf) False False;
               if \<not> hasnonzero
               then do {
                 sfs \<leftarrow> sfs_bfree sfs idblock;
                 Some (Inr (), sfs, sv\<lparr>sv_i := (sv_i sv)\<lparr>sfi_indirect := 0\<rparr>, sv_dirty := True\<rparr>)
               }
               else if iddirty
               then do {
                 (result, sfs) \<leftarrow> sfs_wblock sfs (bytes32 idbuf) 0 idblock;
                 Some (result, sfs, sv)
               }
               else Some (Inr (), sfs, sv)
             }
         }
         else Some (Inr (), sfs, sv))"

definition sfs_truncate :: "sfs_fs \<Rightarrow> sfs_vnode \<Rightarrow> int \<Rightarrow> ((errno + unit) \<times> sfs_fs \<times> sfs_vnode) option" where
  "sfs_truncate sfs sv len = do {
     let blocklen = (word_of_int (s32 (len + 512 - 1) sdiv 512) :: u32);
     (sfs, sv) \<leftarrow> sfs_trunc_direct 15 0 blocklen sfs sv;
     (result, sfs, sv) \<leftarrow> sfs_trunc_indirect blocklen sfs sv;
     case result of
       Inl err \<Rightarrow> Some (Inl err, sfs, sv)
     | Inr _ \<Rightarrow> Some (Inr (), sfs,
         sv\<lparr>sv_i := (sv_i sv)\<lparr>sfi_size := word_of_int len\<rparr>, sv_dirty := True\<rparr>)
   }"

end
