(* ===== verification/Sfs_File.thy ===== *)
theory Sfs_File
  imports Sfs_Core
begin

text \<open>
  What the file operations of SFS do, in terms of the file as a sequence of bytes: block
  mapping, allocation and I/O on a disk that reports no errors.
\<close>

section \<open>The abstract file\<close>

text \<open>
  \<open>fmap d i k\<close> is the disk block of block \<open>k\<close> of the file with inode \<open>i\<close>, 0 for none;
  \<open>fblk\<close> is its contents and \<open>fimage\<close> the bytes of the whole file, holes read as zero.
\<close>
definition fmap :: "u8 list list \<Rightarrow> sfs_inode \<Rightarrow> nat \<Rightarrow> u32" where
  "fmap d i k =
     (if k < 15 then sfi_direct i ! k
      else if sfi_indirect i = 0 then 0 else words32 128 (d ! unat (sfi_indirect i)) ! (k - 15))"

definition fblk :: "u8 list list \<Rightarrow> sfs_inode \<Rightarrow> nat \<Rightarrow> u8 list" where
  "fblk d i k = (if fmap d i k = 0 then replicate 512 0 else d ! unat (fmap d i k))"

definition fimage :: "u8 list list \<Rightarrow> sfs_inode \<Rightarrow> u8 list" where
  "fimage d i = concat (map (fblk d i) [0..<143])"

text \<open>The disk blocks of a file, the indirect block among them.\<close>
definition fblocks :: "u8 list list \<Rightarrow> sfs_inode \<Rightarrow> nat set" where
  "fblocks d i = unat ` (insert (sfi_indirect i) (fmap d i ` {..<143}) - {0})"

text \<open>The blocks of a file are live, and it uses none of them twice.\<close>
definition finv :: "u8 list list \<Rightarrow> nat set \<Rightarrow> sfs_inode \<Rightarrow> bool" where
  "finv d live i \<longleftrightarrow> inode_wf i \<and> fblocks d i \<subseteq> live
     \<and> (\<forall>k<143. \<forall>l<143. fmap d i k = fmap d i l \<and> fmap d i k \<noteq> 0 \<longrightarrow> k = l)
     \<and> (\<forall>k<143. fmap d i k \<noteq> 0 \<longrightarrow> fmap d i k \<noteq> sfi_indirect i)"

abbreviation sdisk :: "sfs_fs \<Rightarrow> u8 list list" where
  "sdisk sfs \<equiv> hd_sectors (sfs_device sfs)"

abbreviation sused :: "sfs_fs \<Rightarrow> nat set" where
  "sused sfs \<equiv> bm_used (sfs_freemap sfs)"

abbreviation snblocks :: "sfs_fs \<Rightarrow> nat" where
  "snblocks sfs \<equiv> unat (sp_nblocks (sfs_super sfs))"

text \<open>The blocks of the volume that are marked in the free map.\<close>
definition slive :: "sfs_fs \<Rightarrow> nat set" where
  "slive sfs = sused sfs \<inter> {..<snblocks sfs}"

text \<open>
  A mounted volume: the disk is there and works, and the free map covers it, with block 0
  (the superblock) and the bits past the end of the volume marked.
\<close>
definition sinv :: "sfs_fs \<Rightarrow> bool" where
  "sinv sfs \<longleftrightarrow> lhd_inv (sfs_device sfs) \<and> lhd_good (sfs_device sfs) \<and> bm_inv (sfs_freemap sfs)
     \<and> snblocks sfs \<le> length (sdisk sfs) \<and> snblocks sfs \<le> unat (bm_nbits (sfs_freemap sfs))
     \<and> {snblocks sfs..<unat (bm_nbits (sfs_freemap sfs))} \<subseteq> sused sfs \<and> 0 \<in> sused sfs"

section \<open>Reading and writing blocks\<close>

lemma sinv_device:
  assumes "sinv sfs" "lhd_inv dev" "lhd_good dev" "length (hd_sectors dev) = length (sdisk sfs)"
  shows "sinv (sfs\<lparr>sfs_device := dev\<rparr>)"
  using assms by (simp add: sinv_def)

lemma SFSUIO_offset: "unat block < 2 ^ 22 \<Longrightarrow> uio_offset (SFSUIO buf off block rw) = int (unat block) * 512"
proof -
  assume "unat block < 2 ^ 22"
  then have "unat block < 4194304" by simp
  moreover have "uint block = int (unat block)" by simp
  ultimately have b: "0 \<le> uint block" "uint block < 4194304" by linarith+
  have "s32 (s32 x * 512) = x * 512" if "0 \<le> x" "x < 4194304" for x using that by simp
  from this [OF b] show ?thesis by (simp add: SFSUIO_def)
qed

lemma SFSUIO_simps [simp]:
  "uio_resid (SFSUIO buf off block rw) = 512" "iov_len (SFSUIO buf off block rw) = 512"
  "uio_rw (SFSUIO buf off block rw) = rw"
  "off + 512 \<le> length buf \<Longrightarrow> ureg (SFSUIO buf off block rw) = Some (take 512 (drop off buf))"
  "iov_kbuf (usend xs (SFSUIO buf off block rw)) = patch buf off xs"
  by (simp_all add: SFSUIO_def ureg_mk_kuio)

lemma sfs_rwblock_read:
  assumes "sinv sfs" "s < snblocks sfs" "uio_offset u = int s * 512" "uio_resid u = 512"
    "512 \<le> iov_len u" "ureg u = Some bs" "uio_rw u = UIO_READ"
  shows "\<exists>dev. lhd_inv dev \<and> lhd_good dev \<and> hd_sectors dev = sdisk sfs \<and>
    sfs_rwblock sfs u = Some (Inr (), sfs\<lparr>sfs_device := dev\<rparr>, usend (sdisk sfs ! s) u)"
proof -
  have "lhd_inv (sfs_device sfs)" "lhd_good (sfs_device sfs)" "s < length (sdisk sfs)"
    using assms(1,2) by (auto simp: sinv_def)
  from lhd.good_read [OF this assms(3-7), of 10] show ?thesis
    by (auto simp: sfs_rwblock_def)
qed

lemma sfs_rwblock_write:
  assumes "sinv sfs" "s < snblocks sfs" "uio_offset u = int s * 512" "uio_resid u = 512"
    "512 \<le> iov_len u" "ureg u = Some bs" "uio_rw u = UIO_WRITE"
  shows "\<exists>dev. lhd_inv dev \<and> lhd_good dev \<and> hd_sectors dev = (sdisk sfs)[s := take 512 bs] \<and>
    sfs_rwblock sfs u = Some (Inr (), sfs\<lparr>sfs_device := dev\<rparr>, uadv 512 u)"
proof -
  have "lhd_inv (sfs_device sfs)" "lhd_good (sfs_device sfs)" "s < length (sdisk sfs)"
    using assms(1,2) by (auto simp: sinv_def)
  moreover have ten: "(10 :: nat) = Suc 9" by simp
  ultimately show ?thesis
    using lhd.good_write [of "sfs_device sfs" s, OF _ _ _ assms(3-7), of 9]
    by (simp only: sfs_rwblock_def ten) auto
qed

lemma snblocks_small: "sinv sfs \<Longrightarrow> snblocks sfs < 2 ^ 22"
  using lhd_inv_dest(4) [of "sfs_device sfs"] by (auto simp: sinv_def)

lemma sdisk_length: "sinv sfs \<Longrightarrow> s < snblocks sfs \<Longrightarrow> length (sdisk sfs ! s) = 512"
  using lhd_inv_dest(6) [of "sfs_device sfs" s] by (auto simp: sinv_def)

lemma sfs_rblock_ok:
  assumes "sinv sfs" "unat b < snblocks sfs" "off + 512 \<le> length buf"
  shows "\<exists>dev. lhd_inv dev \<and> lhd_good dev \<and> hd_sectors dev = sdisk sfs \<and>
    sfs_rblock sfs buf off b = Some (Inr (), patch buf off (sdisk sfs ! unat b), sfs\<lparr>sfs_device := dev\<rparr>)"
  using sfs_rwblock_read [OF assms(1,2), of "SFSUIO buf off b UIO_READ" "take 512 (drop off buf)"]
    assms snblocks_small [OF assms(1)] by (auto simp: sfs_rblock_def SFSUIO_offset)

lemma sfs_wblock_ok:
  assumes "sinv sfs" "unat b < snblocks sfs" "off + 512 \<le> length buf"
  shows "\<exists>dev. lhd_inv dev \<and> lhd_good dev \<and> hd_sectors dev = (sdisk sfs)[unat b := take 512 (drop off buf)] \<and>
    sfs_wblock sfs buf off b = Some (Inr (), sfs\<lparr>sfs_device := dev\<rparr>)"
  using sfs_rwblock_write [OF assms(1,2), of "SFSUIO buf off b UIO_WRITE" "take 512 (drop off buf)"]
    assms snblocks_small [OF assms(1)] by (auto simp: sfs_wblock_def SFSUIO_offset)

section \<open>Allocation\<close>

text \<open>A block is allocated fresh and zeroed, unless the map is full.\<close>
lemma sfs_balloc_ok:
  assumes inv: "sinv sfs"
  shows "(sused sfs = {..<unat (bm_nbits (sfs_freemap sfs))} \<and> sfs_balloc sfs = Some (Inl ENOSPC, sfs)) \<or>
    (\<exists>b dev fm. sfs_balloc sfs = Some (Inr b, sfs\<lparr>sfs_freemap := fm, sfs_freemapdirty := True, sfs_device := dev\<rparr>)
      \<and> unat b \<notin> sused sfs \<and> unat b < snblocks sfs \<and> b \<noteq> 0
      \<and> bm_nbits fm = bm_nbits (sfs_freemap sfs) \<and> bm_used fm = insert (unat b) (sused sfs)
      \<and> hd_sectors dev = (sdisk sfs)[unat b := replicate 512 0]
      \<and> sinv (sfs\<lparr>sfs_freemap := fm, sfs_freemapdirty := True, sfs_device := dev\<rparr>))"
proof -
  have bm: "bm_inv (sfs_freemap sfs)" using inv by (simp add: sinv_def)
  from bitmap_alloc_ok [OF bm] show ?thesis
  proof (elim disjE exE conjE)
    assume "sused sfs = {..<unat (bm_nbits (sfs_freemap sfs))}"
      "bitmap_alloc (sfs_freemap sfs) = Some (Inl ENOSPC, sfs_freemap sfs)"
    then show ?thesis by (simp add: sfs_balloc_def)
  next
    fix b fm
    assume b: "bitmap_alloc (sfs_freemap sfs) = Some (Inr b, fm)" "b < bm_nbits (sfs_freemap sfs)"
      "unat b \<notin> sused sfs" and fm: "bm_inv fm" "bm_nbits fm = bm_nbits (sfs_freemap sfs)"
      "bm_used fm = insert (unat b) (sused sfs)"
    let ?sfs = "sfs\<lparr>sfs_freemap := fm, sfs_freemapdirty := True\<rparr>"
    have "unat b \<notin> {snblocks sfs..<unat (bm_nbits (sfs_freemap sfs))}" "unat b \<noteq> 0"
      using inv b(3) unfolding sinv_def by (blast, metis)
    then have n: "unat b < snblocks sfs" "b \<noteq> 0"
      using b(2) by (auto simp: word_less_nat_alt)
    have inv': "sinv ?sfs" using inv fm by (auto simp: sinv_def)
    from sfs_wblock_ok [OF inv', of b 0 "replicate 512 0"] n(1) obtain dev where
      dev: "lhd_inv dev" "lhd_good dev" "hd_sectors dev = (sdisk sfs)[unat b := replicate 512 0]"
        "sfs_wblock ?sfs (replicate 512 0) 0 b = Some (Inr (), ?sfs\<lparr>sfs_device := dev\<rparr>)" by auto
    have "sinv (?sfs\<lparr>sfs_device := dev\<rparr>)" by (rule sinv_device [OF inv' dev(1,2)]) (simp add: dev(3))
    then show ?thesis using b n fm dev(3,4)
      by (intro disjI2 exI [of _ b] exI [of _ dev] exI [of _ fm])
        (simp add: sfs_balloc_def sfs_clearblock_def word_less_nat_alt)
  qed
qed

section \<open>Changing the map of a file\<close>

lemma unat_eq_u32 [simp]: "unat (a :: u32) = unat b \<longleftrightarrow> a = b"
  by (simp add: word_unat_eq_iff)

lemma fmap_live: "finv d live i \<Longrightarrow> k < 143 \<Longrightarrow> fmap d i k \<noteq> 0 \<Longrightarrow> unat (fmap d i k) \<in> live"
  by (auto simp: finv_def fblocks_def)

lemma indirect_live: "finv d live i \<Longrightarrow> sfi_indirect i \<noteq> 0 \<Longrightarrow> unat (sfi_indirect i) \<in> live"
  by (auto simp: finv_def fblocks_def)

lemma finv_inj: "finv d live i \<Longrightarrow> k < 143 \<Longrightarrow> l < 143 \<Longrightarrow> fmap d i k \<noteq> 0 \<Longrightarrow> fmap d i k = fmap d i l \<Longrightarrow> k = l"
  by (auto simp: finv_def)

lemma finv_not_indirect: "finv d live i \<Longrightarrow> k < 143 \<Longrightarrow> fmap d i k \<noteq> 0 \<Longrightarrow> fmap d i k \<noteq> sfi_indirect i"
  by (auto simp: finv_def)

text \<open>A fresh block becomes block \<open>k\<close> of the file.\<close>
lemma finv_add_block:
  assumes inv: "finv d live i" and b: "unat b \<notin> live" "b \<noteq> 0" and k: "k < 143" "fmap d i k = 0"
    and i': "inode_wf i'" "sfi_indirect i' = sfi_indirect i"
    and m: "\<And>l. l < 143 \<Longrightarrow> fmap d' i' l = (if l = k then b else fmap d i l)"
  shows "finv d' (insert (unat b) live) i'" "fblocks d' i' \<subseteq> insert (unat b) (fblocks d i)"
proof -
  have old: "fmap d i l \<noteq> b" if "l < 143" for l using fmap_live [OF inv that] b by auto
  have ib: "sfi_indirect i \<noteq> b" using indirect_live [OF inv] b by auto
  show sub: "fblocks d' i' \<subseteq> insert (unat b) (fblocks d i)"
    by (auto simp: fblocks_def m i'(2) split: if_splits)
  show "finv d' (insert (unat b) live) i'"
    using sub inv old ib k(1) by (auto simp: finv_def m i' split: if_splits)
qed

text \<open>A fresh zeroed block becomes the indirect block.\<close>
lemma finv_add_indirect:
  assumes inv: "finv d live i" and b: "unat b \<notin> live" "b \<noteq> 0"
    and i': "inode_wf i'" "sfi_indirect i' = b" "sfi_indirect i = 0"
    and m: "\<And>l. l < 143 \<Longrightarrow> fmap d' i' l = fmap d i l"
  shows "finv d' (insert (unat b) live) i'" "fblocks d' i' \<subseteq> insert (unat b) (fblocks d i)"
proof -
  have old: "fmap d i l \<noteq> b" if "l < 143" for l using fmap_live [OF inv that] b by auto
  show sub: "fblocks d' i' \<subseteq> insert (unat b) (fblocks d i)"
    by (auto simp: fblocks_def m i'(2,3))
  show "finv d' (insert (unat b) live) i'"
    using sub inv old by (auto simp: finv_def m i')
qed

text \<open>Data of a block that belongs to a file changes nothing in its map.\<close>
lemma fmap_data:
  assumes "finv d live i" "b \<noteq> sfi_indirect i"
  shows "fmap (d[unat b := x]) i k = fmap d i k"
  using assms by (auto simp: fmap_def)

lemma fimage_cong: "(\<And>l. l < 143 \<Longrightarrow> fblk d' i' l = fblk d i l) \<Longrightarrow> fimage d' i' = fimage d i"
  unfolding fimage_def by (rule arg_cong [where f = concat]) simp

lemma concat_patch:
  assumes "\<forall>x\<in>set xss. length x = 512" "k < length xss" "off + length ys \<le> 512"
  shows "concat (xss[k := patch (xss ! k) off ys]) = patch (concat xss) (512 * k + off) ys"
  using assms
proof (induction xss arbitrary: k)
  case (Cons x xss)
  show ?case
  proof (cases k)
    case 0
    then show ?thesis using Cons.prems by (simp add: patch_def)
  next
    case (Suc k')
    then have "concat (xss[k' := patch (xss ! k') off ys]) = patch (concat xss) (512 * k' + off) ys"
      using Cons by simp
    then show ?thesis using Suc Cons.prems by (simp add: patch_def add.assoc)
  qed
qed simp

lemma concat_slice:
  assumes "\<forall>x\<in>set xss. length x = 512" "k < length xss" "off + n \<le> 512"
  shows "take n (drop (512 * k + off) (concat xss)) = take n (drop off (xss ! k))"
  using assms
proof (induction xss arbitrary: k)
  case (Cons x xss)
  then show ?case by (cases k) (auto simp: add.assoc)
qed simp

section \<open>Steps of a file operation\<close>

text \<open>
  What every operation on the file of \<open>sv\<close> keeps: the invariants, everything of the volume
  but the device and the free map, the contents of all live blocks of other files, and the
  attributes of the inode. Allocated blocks stay allocated, changes are recorded in the
  dirty flags, and what the file gains was free.
\<close>
definition fstep :: "sfs_fs \<Rightarrow> sfs_vnode \<Rightarrow> sfs_fs \<Rightarrow> sfs_vnode \<Rightarrow> bool" where
  "fstep sfs sv sfs' sv' \<longleftrightarrow> sinv sfs' \<and> finv (sdisk sfs') (slive sfs') (sv_i sv')
     \<and> sfs_super sfs' = sfs_super sfs \<and> sfs_superdirty sfs' = sfs_superdirty sfs
     \<and> sfs_vnodes sfs' = sfs_vnodes sfs \<and> sfs_heap sfs' = sfs_heap sfs
     \<and> bm_nbits (sfs_freemap sfs') = bm_nbits (sfs_freemap sfs) \<and> length (sdisk sfs') = length (sdisk sfs)
     \<and> sused sfs \<subseteq> sused sfs' \<and> (sused sfs' \<noteq> sused sfs \<or> sfs_freemapdirty sfs \<longrightarrow> sfs_freemapdirty sfs')
     \<and> (\<forall>b\<in>slive sfs - fblocks (sdisk sfs) (sv_i sv). sdisk sfs' ! b = sdisk sfs ! b)
     \<and> fblocks (sdisk sfs') (sv_i sv') \<subseteq> fblocks (sdisk sfs) (sv_i sv) \<union> (slive sfs' - slive sfs)
     \<and> sv_ops sv' = sv_ops sv \<and> sv_refcount sv' = sv_refcount sv \<and> sv_opencount sv' = sv_opencount sv
     \<and> sv_ino sv' = sv_ino sv \<and> (sv_i sv' \<noteq> sv_i sv \<or> sv_dirty sv \<longrightarrow> sv_dirty sv')
     \<and> sfi_size (sv_i sv') = sfi_size (sv_i sv) \<and> sfi_type (sv_i sv') = sfi_type (sv_i sv)
     \<and> sfi_linkcount (sv_i sv') = sfi_linkcount (sv_i sv)"

abbreviation fimg :: "sfs_fs \<Rightarrow> sfs_vnode \<Rightarrow> u8 list" where
  "fimg sfs sv \<equiv> fimage (sdisk sfs) (sv_i sv)"

definition vinv :: "sfs_fs \<Rightarrow> sfs_vnode \<Rightarrow> bool" where
  "vinv sfs sv \<longleftrightarrow> sinv sfs \<and> finv (sdisk sfs) (slive sfs) (sv_i sv)"

lemma fstep_vinv: "fstep sfs sv sfs' sv' \<Longrightarrow> vinv sfs' sv'"
  by (simp add: fstep_def vinv_def)

lemma fstep_refl: "vinv sfs sv \<Longrightarrow> fstep sfs sv sfs sv"
  by (simp add: fstep_def vinv_def)

lemma slive_mono: "sused sfs \<subseteq> sused sfs' \<Longrightarrow> sfs_super sfs' = sfs_super sfs \<Longrightarrow> slive sfs \<subseteq> slive sfs'"
  by (auto simp: slive_def)

lemma fstep_trans:
  assumes "fstep sfs sv sfs' sv'" "fstep sfs' sv' sfs'' sv''"
  shows "fstep sfs sv sfs'' sv''"
proof -
  have live: "slive sfs \<subseteq> slive sfs'" "slive sfs' \<subseteq> slive sfs''"
    using assms by (auto simp: fstep_def slive_def)
  have fb: "fblocks (sdisk sfs') (sv_i sv') \<subseteq> fblocks (sdisk sfs) (sv_i sv) \<union> (slive sfs' - slive sfs)"
    "fblocks (sdisk sfs'') (sv_i sv'') \<subseteq> fblocks (sdisk sfs') (sv_i sv') \<union> (slive sfs'' - slive sfs')"
    using assms by (simp_all add: fstep_def)
  have "sdisk sfs'' ! b = sdisk sfs ! b" if "b \<in> slive sfs - fblocks (sdisk sfs) (sv_i sv)" for b
  proof -
    have "sdisk sfs' ! b = sdisk sfs ! b" using assms(1) that by (simp add: fstep_def)
    moreover have "b \<in> slive sfs' - fblocks (sdisk sfs') (sv_i sv')" using that live fb(1) by blast
    then have "sdisk sfs'' ! b = sdisk sfs' ! b" using assms(2) by (simp add: fstep_def)
    ultimately show ?thesis by simp
  qed
  moreover have "fblocks (sdisk sfs'') (sv_i sv'') \<subseteq> fblocks (sdisk sfs) (sv_i sv) \<union> (slive sfs'' - slive sfs)"
    using fb live by blast
  moreover have "sused sfs \<subseteq> sused sfs''" using assms by (auto simp: fstep_def)
  moreover have "sused sfs'' \<noteq> sused sfs \<or> sfs_freemapdirty sfs \<longrightarrow> sfs_freemapdirty sfs''"
    "sv_i sv'' \<noteq> sv_i sv \<or> sv_dirty sv \<longrightarrow> sv_dirty sv''"
    using assms unfolding fstep_def by metis+
  ultimately show ?thesis using assms by (simp add: fstep_def)
qed

text \<open>Only the device has moved on.\<close>
lemma fstep_device:
  assumes "vinv sfs sv" "lhd_inv dev" "lhd_good dev" "hd_sectors dev = sdisk sfs"
  shows "fstep sfs sv (sfs\<lparr>sfs_device := dev\<rparr>) sv"
  using assms sinv_device [of sfs dev] by (simp add: fstep_def vinv_def slive_def)

text \<open>A block was allocated and put into the map of the file.\<close>
lemma fstep_alloc:
  assumes vinv: "vinv sfs sv" and b: "unat b \<notin> sused sfs" "unat b < snblocks sfs"
    and s': "sfs' = sfs\<lparr>sfs_freemap := fm, sfs_freemapdirty := True, sfs_device := dev\<rparr>" "sinv sfs'"
      "bm_nbits fm = bm_nbits (sfs_freemap sfs)" "bm_used fm = insert (unat b) (sused sfs)"
      "length (hd_sectors dev) = length (sdisk sfs)"
    and d': "\<And>c. c \<in> slive sfs \<Longrightarrow> c \<notin> fblocks (sdisk sfs) (sv_i sv) \<Longrightarrow> hd_sectors dev ! c = sdisk sfs ! c"
    and i': "finv (hd_sectors dev) (insert (unat b) (slive sfs)) i'"
      "fblocks (hd_sectors dev) i' \<subseteq> insert (unat b) (fblocks (sdisk sfs) (sv_i sv))"
      "sfi_size i' = sfi_size (sv_i sv)" "sfi_type i' = sfi_type (sv_i sv)"
      "sfi_linkcount i' = sfi_linkcount (sv_i sv)" "i' \<noteq> sv_i sv \<or> sv_dirty sv \<longrightarrow> dirty"
  shows "fstep sfs sv sfs' (sv\<lparr>sv_i := i', sv_dirty := dirty\<rparr>)"
proof -
  have live: "slive sfs' = insert (unat b) (slive sfs)" using b(2) s'(1,4) by (auto simp: slive_def)
  have new: "unat b \<notin> slive sfs" using b(1) by (simp add: slive_def)
  show ?thesis
    unfolding fstep_def live using s' d' i' new by auto
qed

lemma sfs_handback_ok: "sinv sfs \<Longrightarrow> b = 0 \<or> unat b \<in> slive sfs \<Longrightarrow> sfs_handback sfs b = Some ()"
proof -
  assume inv: "sinv sfs" and b: "b = 0 \<or> unat b \<in> slive sfs"
  show ?thesis
  proof (cases "b = 0")
    case False
    with b have "unat b < snblocks sfs" "unat b \<in> sused sfs" by (auto simp: slive_def)
    moreover from this inv have "b < bm_nbits (sfs_freemap sfs)" "bm_inv (sfs_freemap sfs)"
      by (auto simp: sinv_def word_less_nat_alt)
    ultimately show ?thesis using bitmap_isset_ok [of "sfs_freemap sfs" b]
      by (auto simp: sfs_handback_def sfs_bused_def word_less_nat_alt)
  qed (simp add: sfs_handback_def)
qed

text \<open>
  What \<^verbatim>\<open>sfs_bmap\<close> promises for block \<open>k\<close>: the contents of the file stay, and the result is
  the block of the map; it is 0 or a failure only as \<open>doalloc\<close> says.
\<close>
definition bmap_post :: "nat \<Rightarrow> bool \<Rightarrow> sfs_fs \<Rightarrow> sfs_vnode \<Rightarrow> errno + u32 \<Rightarrow> sfs_fs \<Rightarrow> sfs_vnode \<Rightarrow> bool" where
  "bmap_post k doalloc sfs sv r sfs' sv' \<longleftrightarrow> fstep sfs sv sfs' sv' \<and> fimg sfs' sv' = fimg sfs sv
     \<and> (case r of
          Inl e \<Rightarrow> doalloc \<and> e = ENOSPC \<and> sused sfs' = {..<unat (bm_nbits (sfs_freemap sfs'))}
            \<and> fmap (sdisk sfs) (sv_i sv) k = 0
        | Inr b \<Rightarrow> b = fmap (sdisk sfs') (sv_i sv') k \<and> (b = 0 \<longrightarrow> \<not> doalloc))
     \<and> (doalloc \<or> sv' = sv \<and> sdisk sfs' = sdisk sfs \<and> sused sfs' = sused sfs)"

lemma bmap_post_trans:
  "fstep sfs sv sfs' sv' \<Longrightarrow> fimg sfs' sv' = fimg sfs sv \<Longrightarrow>
    doalloc \<or> sv' = sv \<and> sdisk sfs' = sdisk sfs \<and> sused sfs' = sused sfs \<Longrightarrow>
    (fmap (sdisk sfs') (sv_i sv') k = 0 \<Longrightarrow> fmap (sdisk sfs) (sv_i sv) k = 0) \<Longrightarrow>
    bmap_post k doalloc sfs' sv' r sfs'' sv'' \<Longrightarrow> bmap_post k doalloc sfs sv r sfs'' sv''"
  by (cases r) (auto simp: bmap_post_def intro: fstep_trans)

lemma fblk_data:
  assumes "finv d live i" "k < 143" "unat b \<notin> live" "\<And>c. c \<in> live \<Longrightarrow> c \<noteq> unat (sfi_indirect i) \<Longrightarrow> d' ! c = d ! c"
    "fmap d' i' k = fmap d i k \<or> fmap d i k = 0 \<and> fmap d' i' k = b" "d' ! unat b = replicate 512 0"
  shows "fblk d' i' k = fblk d i k"
proof (cases "fmap d i k = 0")
  case True
  then show ?thesis using assms(5,6) by (auto simp: fblk_def)
next
  case False
  then have "fmap d' i' k = fmap d i k" using assms(5) by simp
  moreover have "unat (fmap d i k) \<noteq> unat (sfi_indirect i)" using finv_not_indirect [OF assms(1,2) False] by simp
  ultimately show ?thesis using False assms(4) [OF fmap_live [OF assms(1,2) False]] by (simp add: fblk_def)
qed

lemma nth_update_other: "b \<notin> live \<Longrightarrow> c \<in> live \<Longrightarrow> d[b := x] ! c = d ! c"
  by (metis nth_list_update_neq)

lemma sfs_bmap_direct_ok:
  assumes vinv: "vinv sfs sv" and k: "k < 15"
  shows "\<exists>r sfs' sv'. sfs_bmap_direct sfs sv k doalloc = Some (r, sfs', sv') \<and> bmap_post k doalloc sfs sv r sfs' sv'"
proof -
  let ?i = "sv_i sv" and ?b = "sfi_direct (sv_i sv) ! k"
  have inv: "sinv sfs" and finv: "finv (sdisk sfs) (slive sfs) ?i" using vinv by (simp_all add: vinv_def)
  have len: "length (sfi_direct ?i) = 15" using finv by (simp add: finv_def inode_wf_def)
  have fm: "fmap (sdisk sfs) ?i k = ?b" using k by (simp add: fmap_def)
  show ?thesis
  proof (cases "?b = 0 \<and> doalloc")
    case False
    have "sfs_handback sfs ?b = Some ()"
      using fmap_live [OF finv, of k] fm k by (intro sfs_handback_ok [OF inv]) auto
    then show ?thesis using False k len fm fstep_refl [OF vinv]
      by (auto simp: sfs_bmap_direct_def cnth_in bmap_post_def)
  next
    case True
    from sfs_balloc_ok [OF inv] show ?thesis
    proof (elim disjE exE conjE)
      assume "sused sfs = {..<unat (bm_nbits (sfs_freemap sfs))}" "sfs_balloc sfs = Some (Inl ENOSPC, sfs)"
      then show ?thesis using True k len fm fstep_refl [OF vinv]
        by (auto simp: sfs_bmap_direct_def cnth_in bmap_post_def)
    next
      fix b dev fm'
      let ?s = "sfs\<lparr>sfs_freemap := fm', sfs_freemapdirty := True, sfs_device := dev\<rparr>"
      let ?i' = "?i\<lparr>sfi_direct := (sfi_direct ?i)[k := b]\<rparr>"
      assume ba: "sfs_balloc sfs = Some (Inr b, ?s)" and b: "unat b \<notin> sused sfs" "unat b < snblocks sfs" "b \<noteq> 0"
        and s': "bm_nbits fm' = bm_nbits (sfs_freemap sfs)" "bm_used fm' = insert (unat b) (sused sfs)"
          "hd_sectors dev = (sdisk sfs)[unat b := replicate 512 0]" "sinv ?s"
      have bl: "unat b \<notin> slive sfs" using b by (simp add: slive_def)
      have ib: "b \<noteq> sfi_indirect ?i" using indirect_live [OF finv] bl b(3) by metis
      have m: "fmap (hd_sectors dev) ?i' l = (if l = k then b else fmap (sdisk sfs) ?i l)" for l
        using len k ib fmap_data [OF finv ib] by (auto simp: fmap_def s'(3))
      have wf: "inode_wf ?i'" using finv by (simp add: finv_def inode_wf_def)
      note f' = finv_add_block [OF finv bl b(3) _ _ wf _ m, unfolded fm]
      have step: "fstep sfs sv ?s (sv\<lparr>sv_i := ?i', sv_dirty := True\<rparr>)"
        by (rule fstep_alloc [OF vinv b(1,2) refl s'(4,1,2)])
          (use s'(3) f' True k nth_update_other [OF bl] in auto)
      have z: "hd_sectors dev ! unat b = replicate 512 0"
        using b(2) inv s'(3) by (simp add: sinv_def)
      have "fimage (hd_sectors dev) ?i' = fimage (sdisk sfs) ?i"
      proof (rule fimage_cong)
        fix l :: nat
        assume "l < 143"
        then show "fblk (hd_sectors dev) ?i' l = fblk (sdisk sfs) ?i l"
          by (rule fblk_data [OF finv _ bl]) (use m True fm z s'(3) nth_update_other [OF bl] in auto)
      qed
      moreover have "sfs_handback ?s b = Some ()"
        using b(2) s'(2) by (intro sfs_handback_ok [OF s'(4)]) (simp add: slive_def)
      ultimately show ?thesis using True k len fm step ba m [of k] b(3)
        by (auto simp: sfs_bmap_direct_def cnth_in cupd_in bmap_post_def)
    qed
  qed
qed

lemma words32_bytes: "length ws = n \<Longrightarrow> words32 n (bytes32 ws) = ws"
  using words32_bytes32 [of ws "[]"] by simp

lemma sfs_bmap_entry_ok:
  assumes vinv: "vinv sfs sv" and ib: "sfi_indirect (sv_i sv) = ib" "ib \<noteq> 0" and j: "j < 128"
    and ws: "ws = words32 128 (sdisk sfs ! unat ib)"
  shows "\<exists>r sfs' sv'. sfs_bmap_entry sfs sv ws ib j doalloc = Some (r, sfs', sv') \<and>
    bmap_post (15 + j) doalloc sfs sv r sfs' sv'"
proof -
  let ?i = "sv_i sv" and ?d = "sdisk sfs"
  have inv: "sinv sfs" and finv: "finv ?d (slive sfs) ?i" using vinv by (simp_all add: vinv_def)
  have fm: "fmap ?d ?i (15 + j) = ws ! j" using ib ws by (simp add: fmap_def)
  have len: "length ws = 128" using ws by simp
  have ibl: "unat ib \<in> slive sfs" using indirect_live [OF finv] ib by simp
  show ?thesis
  proof (cases "ws ! j = 0 \<and> doalloc")
    case False
    have "sfs_handback sfs (ws ! j) = Some ()"
      using fmap_live [OF finv, of "15 + j"] fm j by (intro sfs_handback_ok [OF inv]) auto
    then show ?thesis using False j len fm fstep_refl [OF vinv]
      by (auto simp: sfs_bmap_entry_def cnth_in bmap_post_def)
  next
    case True
    from sfs_balloc_ok [OF inv] show ?thesis
    proof (elim disjE exE conjE)
      assume "sused sfs = {..<unat (bm_nbits (sfs_freemap sfs))}" "sfs_balloc sfs = Some (Inl ENOSPC, sfs)"
      then show ?thesis using True j len fm fstep_refl [OF vinv]
        by (auto simp: sfs_bmap_entry_def cnth_in bmap_post_def)
    next
      fix b dev fm'
      let ?s = "sfs\<lparr>sfs_freemap := fm', sfs_freemapdirty := True, sfs_device := dev\<rparr>"
      let ?x = "bytes32 (ws[j := b])"
      assume ba: "sfs_balloc sfs = Some (Inr b, ?s)" and b: "unat b \<notin> sused sfs" "unat b < snblocks sfs" "b \<noteq> 0"
        and s': "bm_nbits fm' = bm_nbits (sfs_freemap sfs)" "bm_used fm' = insert (unat b) (sused sfs)"
          "hd_sectors dev = ?d[unat b := replicate 512 0]" "sinv ?s"
      have bl: "unat b \<notin> slive sfs" using b by (simp add: slive_def)
      then have neq: "b \<noteq> ib" using ibl by auto
      have ibn: "unat ib < snblocks sfs" "unat ib < length ?d" "unat b < length ?d"
        using ibl inv b(2) by (auto simp: slive_def sinv_def)
      from sfs_wblock_ok [OF s'(4), of ib 0 ?x] ibn(1) len obtain dev' where
        dev': "lhd_inv dev'" "lhd_good dev'" "hd_sectors dev' = ?d[unat b := replicate 512 0, unat ib := ?x]"
          "sfs_wblock ?s ?x 0 ib = Some (Inr (), ?s\<lparr>sfs_device := dev'\<rparr>)" by (auto simp: s'(3))
      let ?s' = "?s\<lparr>sfs_device := dev'\<rparr>"
      have inv': "sinv ?s'" by (rule sinv_device [OF s'(4) dev'(1,2)]) (simp add: dev'(3) s'(3))
      have m: "fmap (hd_sectors dev') ?i l = (if l = 15 + j then b else fmap ?d ?i l)" if "l < 143" for l
        using that ib len ibn j ws by (auto simp: fmap_def dev'(3) words32_bytes nth_list_update)
      have wf: "inode_wf ?i" using finv by (simp add: finv_def)
      have f': "finv (hd_sectors dev') (insert (unat b) (slive sfs)) ?i"
        "fblocks (hd_sectors dev') ?i \<subseteq> insert (unat b) (fblocks ?d ?i)"
        using finv_add_block [OF finv bl b(3), of "15 + j", OF _ _ wf refl m] fm True j by auto
      have same: "hd_sectors dev' ! c = ?d ! c" if "c \<in> slive sfs" "c \<noteq> unat ib" for c
        using that bl by (metis dev'(3) nth_list_update_neq)
      have "unat ib \<in> fblocks ?d ?i" using ib by (auto simp: fblocks_def)
      then have other: "hd_sectors dev' ! c = ?d ! c" if "c \<in> slive sfs" "c \<notin> fblocks ?d ?i" for c
        using that same by blast
      have len': "length (hd_sectors dev') = length ?d" by (simp add: dev'(3))
      have "fstep sfs sv ?s' (sv\<lparr>sv_i := ?i, sv_dirty := sv_dirty sv\<rparr>)"
        by (intro fstep_alloc [OF vinv b(1,2), where fm = fm' and dev = dev'])
          (use s'(1,2) inv' len' f' other in simp_all)
      then have step: "fstep sfs sv ?s' sv" by simp
      have z: "hd_sectors dev' ! unat b = replicate 512 0" using dev'(3) neq ibn by simp
      have "fimage (hd_sectors dev') ?i = fimage ?d ?i"
      proof (rule fimage_cong)
        fix l :: nat
        assume "l < 143"
        then show "fblk (hd_sectors dev') ?i l = fblk ?d ?i l"
          by (intro fblk_data [OF finv _ bl]) (use m True fm z same ib in auto)
      qed
      moreover have "sfs_handback ?s' b = Some ()"
        using b(2) s'(2) by (intro sfs_handback_ok [OF inv']) (simp add: slive_def)
      ultimately show ?thesis using True j len fm step ba m [of "15 + j"] b(3) dev'(4)
        by (auto simp: sfs_bmap_entry_def cnth_in cupd_in bmap_post_def)
    qed
  qed
qed

lemma bytes32_zeros: "words32 n (replicate (4 * n) 0) = replicate n 0"
proof (induction n)
  case (Suc n)
  have "replicate (4 * Suc n) (0 :: u8) = replicate 4 0 @ replicate (4 * n) 0" by (simp add: replicate_add)
  moreover have "replicate 4 (0 :: u8) = [0, 0, 0, 0]" by (simp add: eval_nat_numeral)
  moreover have "de32 [0, 0, 0, 0] = 0" by (simp add: de32_def)
  ultimately show ?case using Suc by simp
qed simp

text \<open>A new indirect block: all entries are empty, as the missing ones were.\<close>
lemma sfs_balloc_indirect:
  assumes vinv: "vinv sfs sv" and i0: "sfi_indirect (sv_i sv) = 0"
    and ba: "sfs_balloc sfs = Some (Inr b, s)" 
  defines "sv' \<equiv> sv\<lparr>sv_i := (sv_i sv)\<lparr>sfi_indirect := b\<rparr>, sv_dirty := True\<rparr>"
  shows "fstep sfs sv s sv' \<and> fimg s sv' = fimg sfs sv \<and> b \<noteq> 0 \<and> sdisk s ! unat b = replicate 512 0"
proof -
  let ?i = "sv_i sv" and ?d = "sdisk sfs"
  let ?i' = "?i\<lparr>sfi_indirect := b\<rparr>"
  have inv: "sinv sfs" and finv: "finv ?d (slive sfs) ?i" using vinv by (simp_all add: vinv_def)
  from sfs_balloc_ok [OF inv] ba obtain dev fm' where
    s: "s = sfs\<lparr>sfs_freemap := fm', sfs_freemapdirty := True, sfs_device := dev\<rparr>"
    and b: "unat b \<notin> sused sfs" "unat b < snblocks sfs" "b \<noteq> 0"
    and s': "bm_nbits fm' = bm_nbits (sfs_freemap sfs)" "bm_used fm' = insert (unat b) (sused sfs)"
      "hd_sectors dev = ?d[unat b := replicate 512 0]" "sinv s"
    by auto
  have bl: "unat b \<notin> slive sfs" using b by (simp add: slive_def)
  have z: "hd_sectors dev ! unat b = replicate 512 0" using b(2) inv s'(3) by (simp add: sinv_def)
  have m: "fmap (hd_sectors dev) ?i' l = fmap ?d ?i l" if "l < 143" for l
    using that i0 z b(3) bytes32_zeros [of 128] by (auto simp: fmap_def)
  have wf: "inode_wf ?i'" using finv by (simp add: finv_def inode_wf_def)
  note f' = finv_add_indirect [OF finv bl b(3) wf _ i0 m]
  have "fstep sfs sv s (sv\<lparr>sv_i := ?i', sv_dirty := True\<rparr>)"
    by (rule fstep_alloc [OF vinv b(1,2) s s'(4,1,2)]) (use s'(3) f' nth_update_other [OF bl] in auto)
  moreover have "fimage (hd_sectors dev) ?i' = fimage ?d ?i"
  proof (rule fimage_cong)
    fix l :: nat
    assume "l < 143"
    then show "fblk (hd_sectors dev) ?i' l = fblk ?d ?i l"
      by (intro fblk_data [OF finv _ bl]) (use m z s'(3) nth_update_other [OF bl] in auto)
  qed
  ultimately show ?thesis using b(3) z by (simp add: sv'_def s)
qed

lemma fileblock_split:
  assumes "\<not> fb < (15 :: u32)"
  shows "(fb - 15) div 128 > 0 \<longleftrightarrow> 143 \<le> unat fb" "unat ((fb - 15) mod 128) = (unat fb - 15) mod 128"
proof -
  have "unat (fb - 15) = unat fb - 15" using assms by (simp add: unat_sub word_less_nat_alt word_le_nat_alt)
  then have d: "unat ((fb - 15) div 128) = (unat fb - 15) div 128" "unat ((fb - 15) mod 128) = (unat fb - 15) mod 128"
    by (simp_all add: unat_div unat_mod)
  show "unat ((fb - 15) mod 128) = (unat fb - 15) mod 128" by (rule d(2))
  have "(fb - 15) div 128 > 0 \<longleftrightarrow> 0 < (unat fb - 15) div 128" using d(1) by (simp add: word_less_nat_alt)
  also have "\<dots> \<longleftrightarrow> 143 \<le> unat fb"
    using assms by (auto simp: word_less_nat_alt div_greater_zero_iff)
  finally show "(fb - 15) div 128 > 0 \<longleftrightarrow> 143 \<le> unat fb" .
qed

text \<open>A file has at most 143 blocks.\<close>
lemma sfs_bmap_limit: "143 \<le> unat fb \<Longrightarrow> sfs_bmap sfs sv fb doalloc = Some (Inl EINVAL, sfs, sv)"
proof -
  assume fb: "143 \<le> unat fb"
  then have "\<not> fb < 15" by (simp add: word_less_nat_alt)
  then show ?thesis using fileblock_split(1) [of fb] fb by (simp add: sfs_bmap_def)
qed

lemma sfs_bmap_ok:
  assumes vinv: "vinv sfs sv" and k: "unat fb < 143"
  shows "\<exists>r sfs' sv'. sfs_bmap sfs sv fb doalloc = Some (r, sfs', sv') \<and> bmap_post (unat fb) doalloc sfs sv r sfs' sv'"
proof (cases "fb < 15")
  case True
  then show ?thesis using sfs_bmap_direct_ok [OF vinv, of "unat fb"] by (simp add: sfs_bmap_def word_less_nat_alt)
next
  case False
  have inv: "sinv sfs" and finv: "finv (sdisk sfs) (slive sfs) (sv_i sv)" using vinv by (simp_all add: vinv_def)
  let ?ib = "sfi_indirect (sv_i sv)"
  define j where "j = unat fb - 15"
  have j: "j < 128" "unat fb = 15 + j" using k False by (simp_all add: j_def word_less_nat_alt)
  have idx: "\<not> 0 < (fb - 15) div 128" "unat ((fb - 15) mod 128) = j"
    using fileblock_split [OF False] k j by (simp_all add: not_le)
  consider (hole) "?ib = 0" "\<not> doalloc" | (new) "?ib = 0" doalloc | (old) "?ib \<noteq> 0" by blast
  then show ?thesis
  proof cases
    case hole
    then show ?thesis using False idx j fstep_refl [OF vinv] by (simp add: sfs_bmap_def bmap_post_def fmap_def)
  next
    case new
    from sfs_balloc_ok [OF inv] show ?thesis
    proof (elim disjE exE conjE)
      assume "sused sfs = {..<unat (bm_nbits (sfs_freemap sfs))}" "sfs_balloc sfs = Some (Inl ENOSPC, sfs)"
      then show ?thesis using new False idx j fstep_refl [OF vinv] by (simp add: sfs_bmap_def bmap_post_def fmap_def)
    next
      fix b dev fm'
      assume ba': "sfs_balloc sfs = Some (Inr b, sfs\<lparr>sfs_freemap := fm', sfs_freemapdirty := True, sfs_device := dev\<rparr>)"
      then obtain s where ba: "sfs_balloc sfs = Some (Inr b, s)" by blast
      let ?sv = "sv\<lparr>sv_i := (sv_i sv)\<lparr>sfi_indirect := b\<rparr>, sv_dirty := True\<rparr>"
      note st = sfs_balloc_indirect [OF vinv new(1) ba]
      then have b0: "b \<noteq> 0" and step: "fstep sfs sv s ?sv" "fimg s ?sv = fimg sfs sv" by simp_all
      have ib: "sfi_indirect (sv_i ?sv) = b" by simp
      have ws: "replicate 128 0 = words32 128 (sdisk s ! unat b)"
        using st bytes32_zeros [of 128] by simp
      from sfs_bmap_entry_ok [OF fstep_vinv [OF step(1)] ib b0 j(1) ws, of True] obtain r sfs' sv' where
        e: "sfs_bmap_entry s ?sv (replicate 128 0) b j True = Some (r, sfs', sv')"
          "bmap_post (15 + j) True s ?sv r sfs' sv'" by blast
      have "bmap_post (15 + j) True sfs sv r sfs' sv'"
        by (rule bmap_post_trans [OF step _ _ e(2)]) (use new in \<open>simp_all add: fmap_def\<close>)
      then show ?thesis using e(1) new False idx j(2) ba by (simp add: sfs_bmap_def)
    qed
  next
    case old
    have ibn: "unat ?ib < snblocks sfs" using indirect_live [OF finv old] by (simp add: slive_def)
    from sfs_rblock_ok [OF inv ibn, of 0 "replicate 512 0"] obtain dev where
      dev: "lhd_inv dev" "lhd_good dev" "hd_sectors dev = sdisk sfs"
        "sfs_rblock sfs (replicate 512 0) 0 ?ib = Some (Inr (), sdisk sfs ! unat ?ib, sfs\<lparr>sfs_device := dev\<rparr>)"
      using sdisk_length [OF inv ibn] by (auto simp: patch_def)
    let ?s = "sfs\<lparr>sfs_device := dev\<rparr>"
    have st: "fstep sfs sv ?s sv" by (rule fstep_device [OF vinv dev(1-3)])
    from sfs_bmap_entry_ok [OF fstep_vinv [OF st] refl old j(1) refl, of doalloc] obtain r sfs' sv' where
      e: "sfs_bmap_entry ?s sv (words32 128 (sdisk sfs ! unat ?ib)) ?ib j doalloc = Some (r, sfs', sv')"
        "bmap_post (15 + j) doalloc ?s sv r sfs' sv'" by (auto simp: dev(3))
    have "bmap_post (15 + j) doalloc sfs sv r sfs' sv'"
      by (rule bmap_post_trans [OF st _ _ _ e(2)]) (simp_all add: dev(3))
    then show ?thesis using e(1) old False idx j(2) dev(4) by (simp add: sfs_bmap_def)
  qed
qed

section \<open>Data\<close>

lemma length_fblk: "vinv sfs sv \<Longrightarrow> k < 143 \<Longrightarrow> length (fblk (sdisk sfs) (sv_i sv) k) = 512"
  using fmap_live [of "sdisk sfs" "slive sfs" "sv_i sv" k] sdisk_length [of sfs]
  by (auto simp: fblk_def vinv_def slive_def)

lemma fblks_512: "vinv sfs sv \<Longrightarrow> \<forall>x\<in>set (map (fblk (sdisk sfs) (sv_i sv)) [0..<143]). length x = 512"
  using length_fblk by auto

lemma length_fimg: "vinv sfs sv \<Longrightarrow> length (fimg sfs sv) = 73216"
  using length_concat_512 [OF fblks_512] by (simp add: fimage_def)

lemma fimg_slice:
  "vinv sfs sv \<Longrightarrow> k < 143 \<Longrightarrow> off + n \<le> 512 \<Longrightarrow>
    take n (drop (512 * k + off) (fimg sfs sv)) = take n (drop off (fblk (sdisk sfs) (sv_i sv) k))"
  using concat_slice [OF fblks_512, of sfs sv k off n] by (simp add: fimage_def)

text \<open>Bytes of block \<open>k\<close> are overwritten on the disk.\<close>
lemma fstep_write:
  assumes vinv: "vinv sfs sv" and k: "k < 143" "fmap (sdisk sfs) (sv_i sv) k = b" "b \<noteq> 0"
    and dev: "lhd_inv dev" "lhd_good dev" "hd_sectors dev = (sdisk sfs)[unat b := patch (sdisk sfs ! unat b) off ys]"
    and off: "off + length ys \<le> 512"
  shows "fstep sfs sv (sfs\<lparr>sfs_device := dev\<rparr>) sv"
    "fimage (hd_sectors dev) (sv_i sv) = patch (fimg sfs sv) (512 * k + off) ys"
proof -
  let ?i = "sv_i sv" and ?d = "sdisk sfs"
  have inv: "sinv sfs" and finv: "finv ?d (slive sfs) ?i" using vinv by (simp_all add: vinv_def)
  have bl: "unat b \<in> slive sfs" and nib: "b \<noteq> sfi_indirect ?i"
    using fmap_live [OF finv k(1)] finv_not_indirect [OF finv k(1)] k by simp_all
  have m: "fmap (hd_sectors dev) ?i l = fmap ?d ?i l" for l
    by (simp add: dev(3) fmap_data [OF finv nib])
  have fb: "fblocks (hd_sectors dev) ?i = fblocks ?d ?i" by (simp add: fblocks_def m)
  have bf: "unat b \<in> fblocks ?d ?i" using k by (auto simp: fblocks_def)
  have "sdisk (sfs\<lparr>sfs_device := dev\<rparr>) ! c = ?d ! c" if "c \<notin> fblocks ?d ?i" for c
    using that bf by (simp add: dev(3)) (metis nth_list_update_neq)
  moreover have "finv (hd_sectors dev) (slive sfs) ?i" using finv unfolding finv_def fb m .
  ultimately show "fstep sfs sv (sfs\<lparr>sfs_device := dev\<rparr>) sv"
    using sinv_device [OF inv dev(1,2)] fb dev(3) by (simp add: fstep_def slive_def)
  have blk: "fblk (hd_sectors dev) ?i l = (if l = k then patch (fblk ?d ?i k) off ys else fblk ?d ?i l)"
    if l: "l < 143" for l
  proof (cases "l = k")
    case True
    have "unat b < length ?d" using bl inv by (auto simp: slive_def sinv_def)
    then show ?thesis using True k by (simp add: fblk_def m [unfolded dev(3)] dev(3))
  next
    case False
    then have "fmap ?d ?i l \<noteq> b" using finv_inj [OF finv k(1) l] k by metis
    then show ?thesis using False by (simp add: fblk_def m [unfolded dev(3)] dev(3))
  qed
  have "map (fblk (hd_sectors dev) ?i) [0..<143] =
      (map (fblk ?d ?i) [0..<143])[k := patch (map (fblk ?d ?i) [0..<143] ! k) off ys]"
    using k(1) by (intro nth_equalityI) (auto simp: blk nth_list_update)
  then show "fimage (hd_sectors dev) ?i = patch (fimg sfs sv) (512 * k + off) ys"
    using concat_patch [OF fblks_512 [OF vinv], of k off ys] k(1) off unfolding fimage_def by simp
qed

section \<open>Transfers\<close>

abbreviation upos :: "uio \<Rightarrow> nat" where
  "upos u \<equiv> nat (uio_offset u)"

text \<open>
  A uio that is ready for a transfer: its region is accessible and holds the residue, and
  the end of the transfer is a valid \<^verbatim>\<open>off_t\<close>.
\<close>
definition uok :: "uio \<Rightarrow> bool" where
  "uok u \<longleftrightarrow> ureg u \<noteq> None \<and> 0 \<le> uio_offset u \<and> upos u + unat (uio_resid u) < 2 ^ 31
     \<and> uio_resid u \<le> iov_len u"

text \<open>\<open>m\<close> bytes were moved between the file of \<open>sv\<close> at the offset of the uio and its region.\<close>
definition moved :: "nat \<Rightarrow> sfs_fs \<Rightarrow> sfs_vnode \<Rightarrow> uio \<Rightarrow> sfs_fs \<Rightarrow> sfs_vnode \<Rightarrow> uio \<Rightarrow> bool" where
  "moved m sfs sv u sfs' sv' u' \<longleftrightarrow> fstep sfs sv sfs' sv' \<and> (m = 0 \<or> upos u + m \<le> 73216) \<and>
     (case uio_rw u of
        UIO_READ \<Rightarrow> sdisk sfs' = sdisk sfs \<and> sused sfs' = sused sfs \<and> sv' = sv
          \<and> u' = usend (take m (drop (upos u) (fimg sfs sv))) u
      | UIO_WRITE \<Rightarrow> fimg sfs' sv' = patch (fimg sfs sv) (upos u) (take m (the (ureg u))) \<and> u' = uadv m u)"

lemma uok_s32: "uok u \<Longrightarrow> s32 (uio_offset u) = uio_offset u"
  by (intro s32_id) (auto simp: uok_def)

lemma moved_0: "vinv sfs sv \<Longrightarrow> uok u \<Longrightarrow> moved 0 sfs sv u sfs sv u"
  using uok_s32 [of u] by (auto simp: moved_def fstep_refl split: uio_rw.splits)

lemma length_moved: "vinv sfs sv \<Longrightarrow> m = 0 \<or> p + m \<le> 73216 \<Longrightarrow> length (take m (drop p (fimg sfs sv))) = m"
  by (auto simp: length_fimg)

lemma moved_uio:
  assumes "moved m sfs sv u sfs' sv' u'" "uok u" "m \<le> unat (uio_resid u)" "vinv sfs sv"
  shows "uio_offset u' = uio_offset u + int m" "uio_resid u' = uio_resid u - of_nat m"
    "unat (uio_resid u') = unat (uio_resid u) - m" "uio_rw u' = uio_rw u"
    "ureg u' = Some (drop m (the (ureg u)))" "uok u'"
proof -
  have len: "unat (uio_resid u) \<le> unat (iov_len u)" using assms(2) by (simp add: uok_def word_le_nat_alt)
  obtain bs where bs: "ureg u = Some bs" using assms(2) by (auto simp: uok_def)
  have off: "s32 (uio_offset u + int m) = uio_offset u + int m"
    using assms(2,3) by (intro s32_id) (auto simp: uok_def)
  have all: "uio_offset u' = uio_offset u + int m \<and> uio_resid u' = uio_resid u - of_nat m
    \<and> iov_len u' = iov_len u - of_nat m \<and> uio_rw u' = uio_rw u \<and> ureg u' = Some (drop m bs)"
  proof (cases "uio_rw u")
    case UIO_READ
    let ?xs = "take m (drop (upos u) (fimg sfs sv))"
    have u': "u' = usend ?xs u" and l: "length ?xs = m"
      using assms(1,4) UIO_READ by (auto simp: moved_def length_fimg)
    show ?thesis using ureg_usend [OF bs UIO_READ, of ?xs] assms(3) len l off unfolding u' by simp
  next
    case UIO_WRITE
    then have u': "u' = uadv m u" using assms(1) by (simp add: moved_def)
    show ?thesis using ureg_uadv [OF bs, of m] assms(3) len off unfolding u' by simp
  qed
  then show "uio_offset u' = uio_offset u + int m" "uio_resid u' = uio_resid u - of_nat m"
    "uio_rw u' = uio_rw u" "ureg u' = Some (drop m (the (ureg u)))" by (simp_all add: bs)
  show r: "unat (uio_resid u') = unat (uio_resid u) - m"
    using all assms(3) by (simp add: unat_sub_of_nat)
  have "unat (iov_len u') = unat (iov_len u) - m"
    using all assms(3) len by (simp add: unat_sub_of_nat)
  then show "uok u'" using all r assms(2,3) len by (auto simp: uok_def word_le_nat_alt)
qed

lemma moved_trans:
  assumes m: "moved m sfs sv u sfs' sv' u'" and n: "moved n sfs' sv' u' sfs'' sv'' u''"
    and u: "uok u" "m + n \<le> unat (uio_resid u)" and vinv: "vinv sfs sv"
  shows "moved (m + n) sfs sv u sfs'' sv'' u''"
proof -
  have mr: "m \<le> unat (uio_resid u)" using u(2) by simp
  note u' = moved_uio [OF m u(1) mr vinv]
  obtain bs where bs: "ureg u = Some bs" using u(1) by (auto simp: uok_def)
  have len: "m + n \<le> length bs" using u length_ureg [OF bs] by (auto simp: uok_def word_le_nat_alt)
  have pos: "upos u' = upos u + m" using u'(1) u(1) by (simp add: uok_def nat_add_distrib)
  have bd: "m + n = 0 \<or> upos u + (m + n) \<le> 73216" using m n pos by (auto simp: moved_def)
  have st: "fstep sfs sv sfs'' sv''" using m n by (auto simp: moved_def intro: fstep_trans)
  show ?thesis
  proof (cases "uio_rw u")
    case UIO_READ
    let ?img = "fimg sfs sv"
    have "u' = usend (take m (drop (upos u) ?img)) u" "u'' = usend (take n (drop (upos u + m) ?img)) u'"
      "sv'' = sv" "sdisk sfs'' = sdisk sfs" "sused sfs'' = sused sfs"
      using m n UIO_READ u'(4) pos by (simp_all add: moved_def)
    moreover have "take m (drop (upos u) ?img) @ take n (drop (upos u + m) ?img) = take (m + n) (drop (upos u) ?img)"
      by (simp add: take_add add.commute)
    moreover have "length (take m (drop (upos u) ?img)) + length (take n (drop (upos u + m) ?img)) \<le> unat (iov_len u)"
      using len length_ureg [OF bs] by simp
    ultimately show ?thesis using st bd UIO_READ usend_usend [OF bs] by (simp add: moved_def)
  next
    case UIO_WRITE
    have "patch (patch (fimg sfs sv) (upos u) (take m bs)) (upos u + m) (take n (drop m bs)) =
        patch (fimg sfs sv) (upos u) (take (m + n) bs)"
      using bd len patch_patch [of "upos u" "take m bs" "take n (drop m bs)" "fimg sfs sv"] length_fimg [OF vinv]
      by (cases "m + n = 0") (auto simp: take_add)
    then show ?thesis using m n UIO_WRITE u'(4,5) pos bd st by (simp add: moved_def bs uadv_uadv)
  qed
qed

text \<open>
  The contract of the two functions that move data within one block: all \<open>n\<close> bytes are
  moved, or none, because the block is past the largest file or is not there and cannot be allocated.
\<close>
definition piece_post :: "nat \<Rightarrow> sfs_fs \<Rightarrow> sfs_vnode \<Rightarrow> uio \<Rightarrow> errno + unit \<Rightarrow> sfs_fs \<Rightarrow> sfs_vnode \<Rightarrow> uio \<Rightarrow> bool" where
  "piece_post n sfs sv u r sfs' sv' u' \<longleftrightarrow>
     (case r of
        Inr _ \<Rightarrow> upos u div 512 < 143 \<and> moved n sfs sv u sfs' sv' u'
      | Inl e \<Rightarrow> u' = u \<and> moved 0 sfs sv u sfs' sv' u
          \<and> (e = EINVAL \<and> 143 \<le> upos u div 512 \<or>
             e = ENOSPC \<and> uio_rw u = UIO_WRITE \<and> sused sfs' = {..<unat (bm_nbits (sfs_freemap sfs'))}
               \<and> fmap (sdisk sfs) (sv_i sv) (upos u div 512) = 0))"

lemma fileblock_of_offset:
  assumes "0 \<le> off" "off < 2 ^ 31"
  shows "unat (word_of_int (off sdiv 512) :: u32) = nat off div 512"
proof -
  have "off sdiv 512 = off div 512" using assms(1) by (simp add: sdiv_nonneg)
  moreover have "unat (word_of_int (off div 512) :: u32) = nat (off div 512)"
    using assms by (simp add: uint_word_of_int flip: nat_uint_eq)
  ultimately show ?thesis using assms(1) by (simp add: nat_div_distrib)
qed

lemma unat_split_512: "512 * (n div 512) + n mod 512 = (n :: nat)"
  by simp

lemma moved_0_bmap:
  assumes "bmap_post k (uio_rw u = UIO_WRITE) sfs sv r sfs' sv'" "uok u"
  shows "moved 0 sfs sv u sfs' sv' u"
  using assms uok_s32 [OF assms(2)] by (cases "uio_rw u") (auto simp: moved_def bmap_post_def)

lemma sfs_rblock_fblk:
  assumes vinv: "vinv sfs sv" and k: "k < 143" "b = fmap (sdisk sfs) (sv_i sv) k" "b \<noteq> 0"
  shows "\<exists>dev. sfs_rblock sfs (replicate 512 0) 0 b =
      Some (Inr (), fblk (sdisk sfs) (sv_i sv) k, sfs\<lparr>sfs_device := dev\<rparr>)
    \<and> fstep sfs sv (sfs\<lparr>sfs_device := dev\<rparr>) sv \<and> hd_sectors dev = sdisk sfs"
proof -
  have inv: "sinv sfs" using vinv by (simp add: vinv_def)
  have bn: "unat b < snblocks sfs"
    using vinv fmap_live [of "sdisk sfs" "slive sfs" "sv_i sv" k] k by (simp add: vinv_def slive_def)
  from sfs_rblock_ok [OF inv bn, of 0 "replicate 512 0"] sdisk_length [OF inv bn] k show ?thesis
    using fstep_device [OF vinv] by (auto simp: fblk_def patch_def)
qed

lemma sfs_wblock_fblk:
  assumes vinv: "vinv sfs sv" and k: "k < 143" "b = fmap (sdisk sfs) (sv_i sv) k" "b \<noteq> 0"
    and off: "off + length ys \<le> 512"
  shows "\<exists>dev. sfs_wblock sfs (patch (fblk (sdisk sfs) (sv_i sv) k) off ys) 0 b = Some (Inr (), sfs\<lparr>sfs_device := dev\<rparr>)
    \<and> fstep sfs sv (sfs\<lparr>sfs_device := dev\<rparr>) sv
    \<and> fimage (hd_sectors dev) (sv_i sv) = patch (fimg sfs sv) (512 * k + off) ys"
proof -
  let ?x = "patch (fblk (sdisk sfs) (sv_i sv) k) off ys"
  have inv: "sinv sfs" using vinv by (simp add: vinv_def)
  have bn: "unat b < snblocks sfs"
    using vinv fmap_live [of "sdisk sfs" "slive sfs" "sv_i sv" k] k by (simp add: vinv_def slive_def)
  have "length ?x = 512" using off length_fblk [OF vinv k(1)] by simp
  with sfs_wblock_ok [OF inv bn, of 0 ?x] obtain dev where dev: "lhd_inv dev" "lhd_good dev"
    "hd_sectors dev = (sdisk sfs)[unat b := ?x]" "sfs_wblock sfs ?x 0 b = Some (Inr (), sfs\<lparr>sfs_device := dev\<rparr>)" by auto
  have "hd_sectors dev = (sdisk sfs)[unat b := patch (sdisk sfs ! unat b) off ys]"
    using dev(3) k by (simp add: fblk_def)
  from fstep_write [OF vinv k(1) k(2) [symmetric] k(3) dev(1,2) this off] dev(4) show ?thesis by blast
qed

text \<open>After \<^verbatim>\<open>sfs_bmap\<close> has found or made the block.\<close>
lemma sfs_partialio_read:
  assumes u: "uok u" "uio_rw u = UIO_READ" and k: "upos u div 512 < 143" and as: "skipstart + len \<le> 512"
    and skip: "unat skipstart = upos u mod 512" and len: "unat len \<le> unat (uio_resid u)" "unat skipstart + unat len \<le> 512"
    and bm: "sfs_bmap sfs sv (word_of_int (uio_offset u sdiv 512)) False = Some (Inr b, s, v)"
      "bmap_post (upos u div 512) False sfs sv (Inr b) s v"
  shows "\<exists>s'. sfs_partialio sfs sv u skipstart len = Some (Inr (), s', v, usend (take (unat len) (drop (upos u) (fimg sfs sv))) u)
    \<and> moved (unat len) sfs sv u s' v (usend (take (unat len) (drop (upos u) (fimg sfs sv))) u)"
proof -
  have st: "fstep sfs sv s v" and img: "fimg s v = fimg sfs sv" and b: "b = fmap (sdisk s) (sv_i v) (upos u div 512)"
    and same: "v = sv" "sdisk s = sdisk sfs" "sused s = sused sfs"
    using bm(2) by (auto simp: bmap_post_def)
  have vinv: "vinv s v" by (rule fstep_vinv [OF st])
  obtain bs where bs: "ureg u = Some bs" using u by (auto simp: uok_def)
  have lens: "len \<le> iov_len u" "len \<le> uio_resid u" using len u by (auto simp: uok_def word_le_nat_alt)
  let ?blk = "fblk (sdisk s) (sv_i v) (upos u div 512)"
  have mvd: "uiomove ?blk (unat skipstart) len u =
      Some (Inr (), ?blk, usend (take (unat len) (drop (upos u) (fimg sfs sv))) u)"
    using uiomove_read [OF bs u(2) uok_s32 [OF u(1)] lens, of "unat skipstart" ?blk] length_fblk [OF vinv k] len(2)
      fimg_slice [OF vinv k, of "unat skipstart" "unat len"] skip img by simp
  have bound: "upos u + unat len \<le> 73216"
    using k len(2) skip unat_split_512 [of "upos u"] by linarith
  show ?thesis
  proof (cases "b = 0")
    case True
    then have "?blk = replicate 512 0" using b by (simp add: fblk_def)
    then show ?thesis using True bm(1) as u(2) mvd bound st same
      by (auto simp: sfs_partialio_def moved_def)
  next
    case False
    from sfs_rblock_fblk [OF vinv k b False] obtain dev where dev:
      "sfs_rblock s (replicate 512 0) 0 b = Some (Inr (), ?blk, s\<lparr>sfs_device := dev\<rparr>)"
      "fstep s v (s\<lparr>sfs_device := dev\<rparr>) v" "hd_sectors dev = sdisk s" by blast
    show ?thesis using False bm(1) as u(2) mvd bound dev(1,3) fstep_trans [OF st dev(2)] same
      by (auto simp: sfs_partialio_def moved_def)
  qed
qed

lemma sfs_partialio_write:
  assumes u: "uok u" "uio_rw u = UIO_WRITE" and k: "upos u div 512 < 143" and as: "skipstart + len \<le> 512"
    and skip: "unat skipstart = upos u mod 512" and len: "unat len \<le> unat (uio_resid u)" "unat skipstart + unat len \<le> 512"
    and bm: "sfs_bmap sfs sv (word_of_int (uio_offset u sdiv 512)) True = Some (Inr b, s, v)"
      "bmap_post (upos u div 512) True sfs sv (Inr b) s v"
  shows "\<exists>s'. sfs_partialio sfs sv u skipstart len = Some (Inr (), s', v, uadv (unat len) u)
    \<and> moved (unat len) sfs sv u s' v (uadv (unat len) u)"
proof -
  have st: "fstep sfs sv s v" and img: "fimg s v = fimg sfs sv" and b: "b = fmap (sdisk s) (sv_i v) (upos u div 512)" "b \<noteq> 0"
    using bm(2) by (auto simp: bmap_post_def)
  have vinv: "vinv s v" by (rule fstep_vinv [OF st])
  obtain bs where bs: "ureg u = Some bs" using u by (auto simp: uok_def)
  have lens: "len \<le> iov_len u" "len \<le> uio_resid u" using len u by (auto simp: uok_def word_le_nat_alt)
  have lbs: "unat len \<le> length bs" using length_ureg [OF bs] lens(1) by (simp add: word_le_nat_alt)
  let ?blk = "fblk (sdisk s) (sv_i v) (upos u div 512)" and ?ys = "take (unat len) bs"
  have mvd: "uiomove ?blk (unat skipstart) len u = Some (Inr (), patch ?blk (unat skipstart) ?ys, uadv (unat len) u)"
    using uiomove_write [OF bs u(2) uok_s32 [OF u(1)] lens, of "unat skipstart" ?blk] length_fblk [OF vinv k] len(2) by simp
  from sfs_rblock_fblk [OF vinv k b] obtain dev where dev:
    "sfs_rblock s (replicate 512 0) 0 b = Some (Inr (), ?blk, s\<lparr>sfs_device := dev\<rparr>)"
    "fstep s v (s\<lparr>sfs_device := dev\<rparr>) v" "hd_sectors dev = sdisk s" by blast
  have b': "b = fmap (sdisk (s\<lparr>sfs_device := dev\<rparr>)) (sv_i v) (upos u div 512)" using b(1) dev(3) by simp
  have off: "unat skipstart + length ?ys \<le> 512" using len(2) lbs by simp
  from sfs_wblock_fblk [OF fstep_vinv [OF dev(2)] k b' b(2) off] obtain dev' where dev':
    "sfs_wblock (s\<lparr>sfs_device := dev\<rparr>) (patch ?blk (unat skipstart) ?ys) 0 b = Some (Inr (), s\<lparr>sfs_device := dev'\<rparr>)"
    "fstep (s\<lparr>sfs_device := dev\<rparr>) v (s\<lparr>sfs_device := dev'\<rparr>) v"
    "fimage (hd_sectors dev') (sv_i v) = patch (fimg sfs sv) (upos u) ?ys"
    using dev(3) img skip by auto
  have "upos u + unat len \<le> 73216"
    using k len(2) skip unat_split_512 [of "upos u"] by linarith
  then show ?thesis using bm(1) as u(2) mvd b(2) dev(1) dev'(1,3) fstep_trans [OF st fstep_trans [OF dev(2) dev'(2)]]
    by (auto simp: sfs_partialio_def moved_def bs)
qed

text \<open>
  Both functions fail exactly where \<^verbatim>\<open>sfs_bmap\<close> fails, before they touch any data: what is left
  is the case that it returns a block.
\<close>
lemma piece_by_bmap:
  assumes vinv: "vinv sfs sv" and u: "uok u" and al: "al = (uio_rw u = UIO_WRITE)"
    and fail: "\<And>e s v. sfs_bmap sfs sv (word_of_int (uio_offset u sdiv 512)) al = Some (Inl e, s, v) \<Longrightarrow> io = Some (Inl e, s, v, u)"
    and found: "\<And>b s v. upos u div 512 < 143 \<Longrightarrow>
      sfs_bmap sfs sv (word_of_int (uio_offset u sdiv 512)) al = Some (Inr b, s, v) \<Longrightarrow>
      bmap_post (upos u div 512) al sfs sv (Inr b) s v \<Longrightarrow>
      \<exists>s' u'. io = Some (Inr (), s', v, u') \<and> moved n sfs sv u s' v u'"
  shows "\<exists>r sfs' sv' u'. io = Some (r, sfs', sv', u') \<and> piece_post n sfs sv u r sfs' sv' u'"
proof -
  let ?fb = "word_of_int (uio_offset u sdiv 512) :: u32"
  have k: "unat ?fb = upos u div 512" using u by (intro fileblock_of_offset) (auto simp: uok_def)
  show ?thesis
  proof (cases "upos u div 512 < 143")
    case False
    then have "sfs_bmap sfs sv ?fb al = Some (Inl EINVAL, sfs, sv)" using k by (intro sfs_bmap_limit) simp
    from fail [OF this] False moved_0 [OF vinv u] show ?thesis by (auto simp: piece_post_def)
  next
    case True
    from sfs_bmap_ok [OF vinv, of ?fb al] k True obtain r s v where
      bm: "sfs_bmap sfs sv ?fb al = Some (r, s, v)" "bmap_post (upos u div 512) al sfs sv r s v" by auto
    show ?thesis
    proof (cases r)
      case (Inl e)
      then show ?thesis using bm fail [of e s v] moved_0_bmap [OF _ u, of "upos u div 512" sfs sv r s v] al
        by (auto simp: piece_post_def bmap_post_def)
    next
      case (Inr b)
      then show ?thesis using bm found [OF True, of b s v] True by (auto simp: piece_post_def)
    qed
  qed
qed

lemma sfs_partialio_ok:
  assumes vinv: "vinv sfs sv" and u: "uok u"
    and skip: "unat skipstart = upos u mod 512" and len: "unat len \<le> unat (uio_resid u)" "unat skipstart + unat len \<le> 512"
  shows "\<exists>r sfs' sv' u'. sfs_partialio sfs sv u skipstart len = Some (r, sfs', sv', u')
    \<and> piece_post (unat len) sfs sv u r sfs' sv' u'"
proof -
  have as: "skipstart + len \<le> 512" using len(2) by (simp add: word_le_nat_alt unat_word_ariths)
  show ?thesis
  proof (rule piece_by_bmap [OF vinv u refl], goal_cases)
    case (1 e s v)
    then show ?case using as by (simp add: sfs_partialio_def)
  next
    case (2 b s v)
    show ?case
    proof (cases "uio_rw u")
      case UIO_READ
      then show ?thesis using sfs_partialio_read [OF u UIO_READ 2(1) as skip len, of sfs sv b s v] 2(2,3) by auto
    next
      case UIO_WRITE
      then show ?thesis using sfs_partialio_write [OF u UIO_WRITE 2(1) as skip len, of sfs sv b s v] 2(2,3) by auto
    qed
  qed
qed

lemma usend_redirect:
  "usend xs (u\<lparr>uio_offset := p, uio_resid := n\<rparr>) =
    (usend xs u)\<lparr>uio_offset := s32 (p + int (length xs)), uio_resid := n - of_nat (length xs)\<rparr>"
  by (simp add: usend_def uadv_def uput_def)

lemma uadv_redirect:
  "uadv k (u\<lparr>uio_offset := p, uio_resid := n\<rparr>) =
    (uadv k u)\<lparr>uio_offset := s32 (p + int k), uio_resid := n - of_nat k\<rparr>"
  by (simp add: uadv_def)

lemma ureg_redirect [simp]: "ureg (u\<lparr>uio_offset := p, uio_resid := n\<rparr>) = ureg u"
  by (auto simp: ureg_def split: uio_seg.split option.split)

text \<open>The offset of a disk block.\<close>
lemma diskoff_block:
  assumes "unat (b :: u32) < 2 ^ 22"
  shows "s32 (uint (b * 512)) = int (unat b) * 512"
proof -
  have "s32 (x * 512) = x * 512" if "0 \<le> x" "x < 2 ^ 22" for x using that by simp
  moreover have "uint (b * 512) = int (unat (b * 512))" by simp
  moreover have "unat (b * 512) = unat b * 512" using assms by (simp add: unat_word_ariths)
  ultimately show ?thesis using assms by (metis of_nat_0_le_iff of_nat_less_numeral_power_cancel_iff of_nat_mult of_nat_numeral)
qed

lemma diskoff_back:
  assumes "0 \<le> q" "q + 512 < 2 ^ 31"
  shows "s32 (s32 (s32 (p + 512) - p) + q) = q + 512"
proof -
  have "s32 (s32 (s32 (p + 512) - p) + q) = s32 (s32 (p + 512) + (q - p))" by (simp add: algebra_simps)
  also have "\<dots> = q + 512" using assms by (simp only: s32_s32_add) simp
  finally show ?thesis .
qed

text \<open>\<^verbatim>\<open>sfs_blockio\<close> redirects the uio to the disk and back.\<close>
lemma uio_restore:
  assumes q: "0 \<le> uio_offset u" "uio_offset u + 512 < 2 ^ 31"
    and u': "u' = u''\<lparr>uio_offset := s32 (p + 512), uio_resid := 512 - 512\<rparr>"
    "uio_offset u'' = s32 (uio_offset u + 512)" "uio_resid u'' = uio_resid u - 512"
  shows "u'\<lparr>uio_offset := s32 (s32 (uio_offset u' - p) + uio_offset u), uio_resid := uio_resid u' - 512 + uio_resid u\<rparr> = u''"
proof (rule uio.equality)
  show "uio_offset (u'\<lparr>uio_offset := s32 (s32 (uio_offset u' - p) + uio_offset u),
      uio_resid := uio_resid u' - 512 + uio_resid u\<rparr>) = uio_offset u''"
    using diskoff_back [OF q, of p] q by (simp add: u' del: s32_s32_add s32_add_s32)
qed (simp_all add: u')

lemma sfs_blockio_read:
  assumes vinv: "vinv s v" and u: "uok u" "uio_rw u = UIO_READ" and r: "512 \<le> unat (uio_resid u)"
    and k: "upos u div 512 < 143" "b = fmap (sdisk s) (sv_i v) (upos u div 512)" "b \<noteq> 0"
    and bm: "sfs_bmap sfs sv (word_of_int (uio_offset u sdiv 512)) False = Some (Inr b, s, v)"
  shows "\<exists>dev. sfs_blockio sfs sv u = Some (Inr (), s\<lparr>sfs_device := dev\<rparr>, v, usend (fblk (sdisk s) (sv_i v) (upos u div 512)) u)
    \<and> fstep s v (s\<lparr>sfs_device := dev\<rparr>) v \<and> hd_sectors dev = sdisk s"
proof -
  have inv: "sinv s" using vinv by (simp add: vinv_def)
  obtain bs where bs: "ureg u = Some bs" using u by (auto simp: uok_def)
  have r': "512 \<le> uio_resid u" and l: "512 \<le> iov_len u" and q: "0 \<le> uio_offset u" "uio_offset u + 512 < 2 ^ 31"
    using r u by (auto simp: uok_def word_le_nat_alt)
  have bn: "unat b < snblocks s"
    using vinv fmap_live [of "sdisk s" "slive s" "sv_i v"] k by (simp add: vinv_def slive_def)
  then have off: "s32 (uint (b * 512)) = int (unat b) * 512"
    using snblocks_small [OF inv] by (intro diskoff_block) simp
  let ?u = "u\<lparr>uio_offset := int (unat b) * 512, uio_resid := 512\<rparr>" and ?x = "sdisk s ! unat b"
  have x: "fblk (sdisk s) (sv_i v) (upos u div 512) = ?x" "length ?x = 512"
    using k sdisk_length [OF inv bn] by (simp_all add: fblk_def)
  from sfs_rwblock_read [OF inv bn, of ?u bs] bs l u(2) obtain dev where dev: "lhd_inv dev" "lhd_good dev"
    "hd_sectors dev = sdisk s" "sfs_rwblock s ?u = Some (Inr (), s\<lparr>sfs_device := dev\<rparr>, usend ?x ?u)"
    by auto
  have "(usend ?x ?u)\<lparr>uio_offset := s32 (s32 (uio_offset (usend ?x ?u) - int (unat b) * 512) + uio_offset u),
      uio_resid := uio_resid (usend ?x ?u) - 512 + uio_resid u\<rparr> = usend ?x u"
    by (rule uio_restore [OF q]) (simp_all add: usend_redirect x(2))
  then show ?thesis using bm u(2) k(3) r' dev(3,4) fstep_device [OF vinv dev(1-3)] x(1) off
    by (auto simp: sfs_blockio_def Let_def)
qed

lemma sfs_blockio_write:
  assumes vinv: "vinv s v" and u: "uok u" "uio_rw u = UIO_WRITE" and r: "512 \<le> unat (uio_resid u)"
    and k: "upos u div 512 < 143" "b = fmap (sdisk s) (sv_i v) (upos u div 512)" "b \<noteq> 0" and al: "upos u mod 512 = 0"
    and bm: "sfs_bmap sfs sv (word_of_int (uio_offset u sdiv 512)) True = Some (Inr b, s, v)"
  shows "\<exists>dev. sfs_blockio sfs sv u = Some (Inr (), s\<lparr>sfs_device := dev\<rparr>, v, uadv 512 u)
    \<and> fstep s v (s\<lparr>sfs_device := dev\<rparr>) v
    \<and> fimage (hd_sectors dev) (sv_i v) = patch (fimg s v) (upos u) (take 512 (the (ureg u)))"
proof -
  have inv: "sinv s" using vinv by (simp add: vinv_def)
  obtain bs where bs: "ureg u = Some bs" using u by (auto simp: uok_def)
  have r': "512 \<le> uio_resid u" and l: "512 \<le> iov_len u" and q: "0 \<le> uio_offset u" "uio_offset u + 512 < 2 ^ 31"
    using r u by (auto simp: uok_def word_le_nat_alt)
  have lbs: "512 \<le> length bs" using length_ureg [OF bs] l by (simp add: word_le_nat_alt)
  have bn: "unat b < snblocks s"
    using vinv fmap_live [of "sdisk s" "slive s" "sv_i v"] k by (simp add: vinv_def slive_def)
  then have off: "s32 (uint (b * 512)) = int (unat b) * 512"
    using snblocks_small [OF inv] by (intro diskoff_block) simp
  let ?u = "u\<lparr>uio_offset := int (unat b) * 512, uio_resid := 512\<rparr>"
  from sfs_rwblock_write [OF inv bn, of ?u bs] bs l u(2) obtain dev where dev: "lhd_inv dev" "lhd_good dev"
    "hd_sectors dev = (sdisk s)[unat b := take 512 bs]" "sfs_rwblock s ?u = Some (Inr (), s\<lparr>sfs_device := dev\<rparr>, uadv 512 ?u)"
    by auto
  have rest: "(uadv 512 ?u)\<lparr>uio_offset := s32 (s32 (uio_offset (uadv 512 ?u) - int (unat b) * 512) + uio_offset u),
      uio_resid := uio_resid (uadv 512 ?u) - 512 + uio_resid u\<rparr> = uadv 512 u"
    by (rule uio_restore [OF q]) (simp_all add: uadv_redirect)
  have "patch (sdisk s ! unat b) 0 (take 512 bs) = take 512 bs"
    using lbs sdisk_length [OF inv bn] by (simp add: patch_def)
  with dev(3) have upd: "hd_sectors dev = (sdisk s)[unat b := patch (sdisk s ! unat b) 0 (take 512 bs)]" by simp
  have "512 * (upos u div 512) = upos u" using al by auto
  with fstep_write [OF vinv k(1) k(2) [symmetric] k(3) dev(1,2) upd] lbs
  have "fstep s v (s\<lparr>sfs_device := dev\<rparr>) v" "fimage (hd_sectors dev) (sv_i v) = patch (fimg s v) (upos u) (take 512 bs)"
    by simp_all
  then show ?thesis using bm u(2) k(3) r' dev(4) off rest by (auto simp: sfs_blockio_def Let_def bs)
qed

lemma sfs_blockio_ok:
  assumes vinv: "vinv sfs sv" and u: "uok u" and al: "upos u mod 512 = 0" and r: "512 \<le> unat (uio_resid u)"
  shows "\<exists>r sfs' sv' u'. sfs_blockio sfs sv u = Some (r, sfs', sv', u') \<and> piece_post 512 sfs sv u r sfs' sv' u'"
proof (rule piece_by_bmap [OF vinv u refl], goal_cases)
  case (1 e s v)
  then show ?case by (simp add: sfs_blockio_def)
next
  case (2 b s v)
  let ?k = "upos u div 512"
  have st: "fstep sfs sv s v" and img: "fimg s v = fimg sfs sv" and b: "b = fmap (sdisk s) (sv_i v) ?k"
    using 2(3) by (auto simp: bmap_post_def)
  have vinv': "vinv s v" by (rule fstep_vinv [OF st])
  have bound: "upos u + 512 \<le> 73216" using 2(1) al unat_split_512 [of "upos u"] by linarith
  have "512 * ?k = upos u" using al by auto
  then have slice: "take 512 (drop (upos u) (fimg sfs sv)) = fblk (sdisk s) (sv_i v) ?k"
    using fimg_slice [OF vinv' 2(1), of 0 512] length_fblk [OF vinv' 2(1)] img by simp
  obtain bs where bs: "ureg u = Some bs" using u by (auto simp: uok_def)
  have lens: "512 \<le> iov_len u" "512 \<le> uio_resid u" using r u by (auto simp: uok_def word_le_nat_alt)
  consider (zero) "b = 0" "uio_rw u = UIO_READ" | (rd) "b \<noteq> 0" "uio_rw u = UIO_READ" | (wr) "b \<noteq> 0" "uio_rw u = UIO_WRITE"
    using 2(3) by (cases "uio_rw u") (auto simp: bmap_post_def)
  then show ?case
  proof cases
    case zero
    have "fblk (sdisk s) (sv_i v) ?k = replicate 512 0" using zero b by (simp add: fblk_def)
    then show ?thesis using zero 2 st bound slice uiomovezeros_ok [OF bs zero(2) uok_s32 [OF u] lens]
      by (auto simp: sfs_blockio_def moved_def bmap_post_def)
  next
    case rd
    from sfs_blockio_read [OF vinv' u rd(2) r 2(1) b rd(1)] 2(2) rd(2) obtain dev where
      "sfs_blockio sfs sv u = Some (Inr (), s\<lparr>sfs_device := dev\<rparr>, v, usend (fblk (sdisk s) (sv_i v) ?k) u)"
      "fstep s v (s\<lparr>sfs_device := dev\<rparr>) v" "hd_sectors dev = sdisk s" by auto
    then show ?thesis using rd(2) 2(3) fstep_trans [OF st] slice bound
      by (auto simp: moved_def bmap_post_def)
  next
    case wr
    from sfs_blockio_write [OF vinv' u wr(2) r 2(1) b wr(1) al, of sfs sv] 2(2) wr(2) obtain dev where
      "sfs_blockio sfs sv u = Some (Inr (), s\<lparr>sfs_device := dev\<rparr>, v, uadv 512 u)"
      "fstep s v (s\<lparr>sfs_device := dev\<rparr>) v"
      "fimage (hd_sectors dev) (sv_i v) = patch (fimg s v) (upos u) (take 512 (the (ureg u)))" by auto
    then show ?thesis using wr(2) fstep_trans [OF st] img bound by (auto simp: moved_def)
  qed
qed

end
