(* ===== verification/Sfs_Fileio.thy ===== *)
theory Sfs_Fileio
  imports Sfs_File
begin

text \<open>
  \<^verbatim>\<open>sfs_io\<close> on top of the contract of its two pieces: reading and writing a file of SFS as a
  sequence of bytes, what a write leaves of other files, and truncation.
\<close>

section \<open>A whole transfer\<close>

text \<open>
  The outcome of a request for \<open>n\<close> bytes: all were moved, or the first \<open>m\<close> of them up to the
  limit of the file size or until the volume was full.
\<close>
definition io_post :: "nat \<Rightarrow> sfs_fs \<Rightarrow> sfs_vnode \<Rightarrow> uio \<Rightarrow> errno + unit \<Rightarrow> sfs_fs \<Rightarrow> sfs_vnode \<Rightarrow> uio \<Rightarrow> bool" where
  "io_post n sfs sv u r sfs' sv' u' \<longleftrightarrow>
     (\<exists>m\<le>n. moved m sfs sv u sfs' sv' u' \<and>
        (case r of
           Inr _ \<Rightarrow> m = n
         | Inl e \<Rightarrow> (m < n \<or> n = 0) \<and>
             (e = EINVAL \<and> 73216 \<le> upos u + m \<or>
              e = ENOSPC \<and> uio_rw u = UIO_WRITE \<and> sused sfs' = {..<unat (bm_nbits (sfs_freemap sfs'))})))"

lemma io_post_fail:
  assumes "piece_post k sfs sv u (Inl e) sfs' sv' u'"
  shows "io_post n sfs sv u (Inl e) sfs' sv' u'"
proof -
  have "moved 0 sfs sv u sfs' sv' u'" "e = EINVAL \<and> 73216 \<le> upos u \<or>
      e = ENOSPC \<and> uio_rw u = UIO_WRITE \<and> sused sfs' = {..<unat (bm_nbits (sfs_freemap sfs'))}"
    using assms by (auto simp: piece_post_def)
  then show ?thesis unfolding io_post_def by (intro exI [of _ 0]) auto
qed

lemma io_post_piece: "piece_post n sfs sv u r sfs' sv' u' \<Longrightarrow> io_post n sfs sv u r sfs' sv' u'"
proof (cases r)
  case (Inr x)
  then show "piece_post n sfs sv u r sfs' sv' u' \<Longrightarrow> io_post n sfs sv u r sfs' sv' u'"
    by (auto simp: piece_post_def io_post_def)
qed (simp add: io_post_fail)

lemma moved_pos:
  "moved m sfs sv u sfs' sv' u' \<Longrightarrow> uok u \<Longrightarrow> m \<le> unat (uio_resid u) \<Longrightarrow> vinv sfs sv \<Longrightarrow> upos u' = upos u + m"
  using moved_uio(1) [of m sfs sv u sfs' sv' u'] by (simp add: uok_def nat_add_distrib)

lemma io_post_step:
  assumes mv: "moved k sfs sv u s v u1" and rest: "io_post n s v u1 r sfs' sv' u'" "n = 0 \<longrightarrow> r = Inr ()"
    and u: "uok u" "k + n \<le> unat (uio_resid u)" and vinv: "vinv sfs sv"
  shows "io_post (k + n) sfs sv u r sfs' sv' u'"
proof -
  obtain m where m: "m \<le> n" "moved m s v u1 sfs' sv' u'" and
    r: "case r of Inr _ \<Rightarrow> m = n | Inl e \<Rightarrow> (m < n \<or> n = 0) \<and> (e = EINVAL \<and> 73216 \<le> upos u1 + m \<or>
      e = ENOSPC \<and> uio_rw u1 = UIO_WRITE \<and> sused sfs' = {..<unat (bm_nbits (sfs_freemap sfs'))})"
    using rest(1) by (auto simp: io_post_def)
  have kr: "k \<le> unat (uio_resid u)" "k + m \<le> unat (uio_resid u)" using u(2) m(1) by simp_all
  note u1 = moved_uio [OF mv u(1) kr(1) vinv]
  have "upos u1 = upos u + k" by (rule moved_pos [OF mv u(1) kr(1) vinv])
  moreover have "moved (k + m) sfs sv u sfs' sv' u'" by (rule moved_trans [OF mv m(2) u(1) kr(2) vinv])
  ultimately show ?thesis using m(1) r rest(2) u1(4) unfolding io_post_def
    by (intro exI [of _ "k + m"]) (auto split: sum.splits)
qed

lemma io_post_0: "vinv sfs sv \<Longrightarrow> uok u \<Longrightarrow> io_post 0 sfs sv u (Inr ()) sfs sv u"
  by (simp add: io_post_def moved_0)

lemma moved_vinv: "moved m sfs sv u sfs' sv' u' \<Longrightarrow> vinv sfs' sv'"
  by (auto simp: moved_def intro: fstep_vinv)

lemma sfs_io_blocks_ok:
  assumes "vinv sfs sv" "uok u" "upos u mod 512 = 0" "512 * n \<le> unat (uio_resid u)"
  shows "\<exists>r sfs' sv' u'. sfs_io_blocks n sfs sv u = Some (r, sfs', sv', u') \<and> io_post (512 * n) sfs sv u r sfs' sv' u'"
  using assms
proof (induction n arbitrary: sfs sv u)
  case 0
  then show ?case by (simp add: io_post_0)
next
  case (Suc n)
  have len: "512 \<le> unat (uio_resid u)" using Suc.prems(4) by simp
  from sfs_blockio_ok [OF Suc.prems(1-3) len] obtain r s v u1 where
    b: "sfs_blockio sfs sv u = Some (r, s, v, u1)" "piece_post 512 sfs sv u r s v u1" by blast
  show ?case
  proof (cases r)
    case (Inl e)
    then show ?thesis using b io_post_fail [of 512 sfs sv u e s v u1 "512 * Suc n"] by simp
  next
    case (Inr x)
    then have mv: "moved 512 sfs sv u s v u1" using b(2) by (simp add: piece_post_def)
    note u1 = moved_uio [OF mv Suc.prems(2) len Suc.prems(1)]
    have "upos u1 = upos u + 512" by (rule moved_pos [OF mv Suc.prems(2) len Suc.prems(1)])
    then have "upos u1 mod 512 = 0" "512 * n \<le> unat (uio_resid u1)" using Suc.prems(3,4) u1(3) by simp_all
    from Suc.IH [OF moved_vinv [OF mv] u1(6) this] obtain r' sfs' sv' u' where
      io: "sfs_io_blocks n s v u1 = Some (r', sfs', sv', u')" "io_post (512 * n) s v u1 r' sfs' sv' u'" by blast
    moreover have "n = 0 \<longrightarrow> r' = Inr ()" using io(1) by auto
    ultimately have "io_post (512 + 512 * n) sfs sv u r' sfs' sv' u'"
      using Suc.prems by (intro io_post_step [OF mv]) auto
    then show ?thesis using b(1) Inr io(1) by simp
  qed
qed

lemma blkoff_of_offset:
  assumes "uok u"
  shows "unat (word_of_int (uio_offset u smod 512) :: u32) = upos u mod 512" "uio_offset u smod 512 = uio_offset u mod 512"
proof -
  show eq: "uio_offset u smod 512 = uio_offset u mod 512" using assms by (simp add: uok_def smod_nonneg)
  have "unat (word_of_int (uio_offset u mod 512) :: u32) = nat (uio_offset u mod 512)"
    by (simp add: uint_word_of_int flip: nat_uint_eq)
  then show "unat (word_of_int (uio_offset u smod 512) :: u32) = upos u mod 512"
    using assms by (simp add: eq uok_def nat_mod_distrib)
qed

lemma nat_zero_iff: "0 \<le> y \<Longrightarrow> y = 0 \<longleftrightarrow> nat y = 0"
  by auto

lemma smod_aligned:
  assumes u: "uok u"
  shows "uio_offset u smod 512 = 0 \<longleftrightarrow> upos u mod 512 = 0"
proof -
  have "nat (uio_offset u mod 512) = upos u mod 512" using u by (simp add: uok_def nat_mod_distrib)
  then show ?thesis unfolding blkoff_of_offset(2) [OF u]
    using nat_zero_iff [of "uio_offset u mod 512"] pos_mod_sign [of 512 "uio_offset u"] by (simp only:)
qed

lemma io_post_fail_mono:
  assumes "io_post k sfs sv u (Inl e) sfs' sv' u'" "k \<le> n"
  shows "io_post n sfs sv u (Inl e) sfs' sv' u'"
proof -
  obtain m where "m \<le> k" "moved m sfs sv u sfs' sv' u'" "m < k \<or> k = 0" "e = EINVAL \<and> 73216 \<le> upos u + m \<or>
      e = ENOSPC \<and> uio_rw u = UIO_WRITE \<and> sused sfs' = {..<unat (bm_nbits (sfs_freemap sfs'))}"
    using assms(1) unfolding io_post_def sum.case by blast
  then show ?thesis using assms(2) unfolding io_post_def sum.case by (intro exI [of _ m] conjI) (assumption | linarith)+
qed

text \<open>Whole blocks and the rest, from an aligned offset.\<close>
lemma sfs_io_rest_ok:
  assumes vinv: "vinv sfs sv" and u: "uok u" "upos u mod 512 = 0"
  shows "\<exists>r sfs' sv' u'. sfs_io_rest sfs sv u = Some (r, sfs', sv', u')
    \<and> io_post (unat (uio_resid u)) sfs sv u r sfs' sv' u'"
proof -
  let ?n = "unat (uio_resid u)" and ?k = "512 * (unat (uio_resid u) div 512)"
  have nb: "unat (uio_resid u div 512) = ?n div 512" by (simp add: unat_div)
  have kn: "?k \<le> ?n" by simp
  from sfs_io_blocks_ok [OF vinv u kn] obtain r s v u1 where
    b: "sfs_io_blocks (?n div 512) sfs sv u = Some (r, s, v, u1)" "io_post ?k sfs sv u r s v u1" by blast
  show ?thesis
  proof (cases r)
    case (Inl e)
    then have "io_post ?n sfs sv u r s v u1" using b kn by (simp add: io_post_fail_mono)
    then show ?thesis using b(1) Inl nb smod_aligned [OF u(1)] u(2) by (simp add: sfs_io_rest_def)
  next
    case (Inr x)
    then have mv: "moved ?k sfs sv u s v u1" using b(2) by (auto simp: io_post_def)
    note u1 = moved_uio [OF mv u(1) kn vinv]
    have m: "unat (uio_resid u1) = ?n mod 512" using u1(3) by (simp add: minus_mult_div_eq_mod)
    then have lt: "uio_resid u1 < 512" by (simp add: word_less_nat_alt)
    have split: "?k + ?n mod 512 = ?n" by simp
    show ?thesis
    proof (cases "uio_resid u1 = 0")
      case True
      then have "?n mod 512 = 0" using m by simp
      then have "?k = ?n" using split by linarith
      then show ?thesis using b Inr nb True smod_aligned [OF u(1)] u(2) by (simp add: sfs_io_rest_def)
    next
      case False
      have "upos u1 mod 512 = 0" using moved_pos [OF mv u(1) kn vinv] u(2) by simp
      then obtain r' sfs' sv' u' where
        p: "sfs_partialio s v u1 0 (uio_resid u1) = Some (r', sfs', sv', u')"
          "piece_post (?n mod 512) s v u1 r' sfs' sv' u'"
        using sfs_partialio_ok [OF moved_vinv [OF mv] u1(6), of 0 "uio_resid u1"] m by auto
      have "?n mod 512 \<noteq> 0" using False m by (metis unat_eq_zero)
      then have "io_post (?k + ?n mod 512) sfs sv u r' sfs' sv' u'"
        using u(1) by (intro io_post_step [OF mv io_post_piece [OF p(2)] _ _ _ vinv]) auto
      then show ?thesis using b(1) Inr nb lt False p(1) split smod_aligned [OF u(1)] u(2)
        by (simp add: sfs_io_rest_def word_gt_0)
    qed
  qed
qed

lemma round_up_512: "(x + (512 - x mod 512)) mod 512 = (0 :: nat)"
proof -
  define q r where "q = x div 512" and "r = x mod 512"
  then have "x = 512 * q + r" "r < 512" by simp_all
  then have "x + (512 - r) = 512 * Suc q" by simp
  then show ?thesis by (simp only: r_def) simp
qed

lemma sfs_io_body_skip:
  assumes "word_of_int (uio_offset u smod 512) \<noteq> (0 :: u32)"
  shows "sfs_io_body sfs sv u = do {
      let blkoff = word_of_int (uio_offset u smod 512);
      (result, sfs, sv, uio) \<leftarrow>
        sfs_partialio sfs sv u blkoff (if 512 - blkoff > uio_resid u then uio_resid u else 512 - blkoff);
      case result of
        Inl err \<Rightarrow> Some (Inl err, sfs, sv, uio)
      | Inr _ \<Rightarrow> if uio_resid uio = 0 then Some (Inr (), sfs, sv, uio) else sfs_io_rest sfs sv uio
    }"
  using assms by (simp add: sfs_io_body_def Let_def)

lemma sfs_io_body_ok:
  assumes vinv: "vinv sfs sv" and u: "uok u"
  shows "\<exists>r sfs' sv' u'. sfs_io_body sfs sv u = Some (r, sfs', sv', u')
    \<and> io_post (unat (uio_resid u)) sfs sv u r sfs' sv' u'"
proof -
  let ?n = "unat (uio_resid u)" and ?blkoff = "word_of_int (uio_offset u smod 512) :: u32"
  note bo = blkoff_of_offset [OF u]
  show ?thesis
  proof (cases "?blkoff = 0")
    case True
    then have al: "upos u mod 512 = 0" using bo(1) by simp
    show ?thesis
    proof (cases "uio_resid u = 0")
      case zero: True
      then show ?thesis using True io_post_0 [OF vinv u] by (simp add: sfs_io_body_def)
    next
      case False
      then show ?thesis using sfs_io_rest_ok [OF vinv u al] True by (simp add: sfs_io_body_def)
    qed
  next
    case False
    define len where "len = (if 512 - ?blkoff > uio_resid u then uio_resid u else 512 - ?blkoff)"
    note body = sfs_io_body_skip [OF False, unfolded Let_def, folded len_def]
    have "?blkoff \<le> 512" using bo(1) by (simp add: word_le_nat_alt)
    then have "unat (512 - ?blkoff) = 512 - upos u mod 512" using bo(1) by (simp add: unat_sub)
    then have len: "unat len = min ?n (512 - upos u mod 512)"
      by (cases "uio_resid u < 512 - ?blkoff") (simp_all add: len_def word_less_nat_alt)
    then have "unat len \<le> ?n" "unat len \<le> 512 - upos u mod 512" by simp_all
    moreover from this(2) have "unat ?blkoff + unat len \<le> 512"
      using bo(1) mod_less_divisor [of 512 "upos u"] by linarith
    ultimately have lens: "unat len \<le> ?n" "unat ?blkoff + unat len \<le> 512" by simp_all
    from sfs_partialio_ok [OF vinv u bo(1) lens] obtain r s v u1 where
      p: "sfs_partialio sfs sv u ?blkoff len = Some (r, s, v, u1)" "piece_post (unat len) sfs sv u r s v u1" by blast
    show ?thesis
    proof (cases r)
      case (Inl e)
      then show ?thesis using p False io_post_fail [of "unat len" sfs sv u e s v u1 ?n]
        by (simp add: body)
    next
      case (Inr x)
      then have mv: "moved (unat len) sfs sv u s v u1" using p(2) by (simp add: piece_post_def)
      note u1 = moved_uio [OF mv u lens(1) vinv]
      show ?thesis
      proof (cases "uio_resid u1 = 0")
        case True
        then have "unat len = ?n" using u1(3) lens(1) by simp
        then have "io_post ?n sfs sv u (Inr ()) s v u1" using mv by (auto simp: io_post_def)
        then show ?thesis using p(1) Inr False True by (simp add: body)
      next
        case rest: False
        then have "unat len < ?n" using u1(3) by (metis diff_is_0_eq leI unat_eq_zero)
        then have "unat len = 512 - upos u mod 512" using len by simp
        then have "upos u1 mod 512 = 0"
          using moved_pos [OF mv u lens(1) vinv] round_up_512 [of "upos u"] by simp
        from sfs_io_rest_ok [OF moved_vinv [OF mv] u1(6) this] obtain r' sfs' sv' u' where
          io: "sfs_io_rest s v u1 = Some (r', sfs', sv', u')" "io_post (unat (uio_resid u1)) s v u1 r' sfs' sv' u'"
          by blast
        have "unat (uio_resid u1) \<noteq> 0" using rest by (simp add: unat_eq_zero)
        then have "io_post (unat len + unat (uio_resid u1)) sfs sv u r' sfs' sv' u'"
          using u1(3) lens(1) by (intro io_post_step [OF mv io(2) _ u _ vinv]) auto
        then have "io_post ?n sfs sv u r' sfs' sv' u'" using u1(3) lens(1) by simp
        then show ?thesis using p(1) Inr False rest io(1)
          by (simp add: body)
      qed
    qed
  qed
qed

section \<open>Reading and writing\<close>

lemma size_irrelevant [simp]:
  "fmap d (i\<lparr>sfi_size := n\<rparr>) k = fmap d i k" "fblk d (i\<lparr>sfi_size := n\<rparr>) k = fblk d i k"
  "fblocks d (i\<lparr>sfi_size := n\<rparr>) = fblocks d i" "finv d live (i\<lparr>sfi_size := n\<rparr>) = finv d live i"
  by (simp_all add: fmap_def fblk_def fblocks_def finv_def inode_wf_def cong: if_cong image_cong)

lemma size_irrelevant_image [simp]: "fimage d (i\<lparr>sfi_size := n\<rparr>) = fimage d i"
  by (rule fimage_cong) simp

lemma s32_of_nat: "n < 2 ^ 31 \<Longrightarrow> s32 (int n) = int n"
  by simp

lemma s32_size: "unat (w :: u32) < 2 ^ 31 \<Longrightarrow> s32 (uint w) = int (unat w)"
  using s32_of_nat [of "unat w"] by simp

text \<open>The file size after a write that moved \<open>m\<close> bytes.\<close>
lemma sfs_io_write_body:
  assumes vinv: "vinv sfs sv" and u: "uok u" "uio_rw u = UIO_WRITE" and sz: "unat (sfi_size (sv_i sv)) < 2 ^ 31"
    and b: "sfs_io_body sfs sv u = Some (r, sfs', v, u')" and m: "m \<le> unat (uio_resid u)" "moved m sfs sv u sfs' v u'"
  shows "sfs_io sfs sv u = Some (r, sfs', if upos u + m > unat (sfi_size (sv_i sv))
        then v\<lparr>sv_i := (sv_i v)\<lparr>sfi_size := of_nat (upos u + m)\<rparr>, sv_dirty := True\<rparr> else v, uadv m u)"
proof -
  have u': "u' = uadv m u" using m(2) u(2) by (simp add: moved_def)
  have off: "uio_offset u' = int (upos u + m)"
    using moved_uio(1) [OF m(2) u(1) m(1) vinv] u(1) by (simp add: uok_def)
  have "sfi_size (sv_i v) = sfi_size (sv_i sv)" using m(2) by (simp add: moved_def fstep_def)
  then have cmp: "uio_offset u' > s32 (uint (sfi_size (sv_i v))) \<longleftrightarrow> upos u + m > unat (sfi_size (sv_i sv))"
    by (simp only: s32_size [OF sz] off of_nat_less_iff)
  have w: "uio_rw u' = UIO_WRITE" using u' u(2) by simp
  have io: "sfs_io sfs sv u = Some (sfs_io_out 0 (r, sfs', v, u'))" using u(2) b by (simp add: sfs_io_def)
  have "sfs_io_out 0 (r, sfs', v, u') = (r, sfs', (if upos u + m > unat (sfi_size (sv_i sv))
        then v\<lparr>sv_i := (sv_i v)\<lparr>sfi_size := of_nat (upos u + m)\<rparr>, sv_dirty := True\<rparr> else v), u')"
    unfolding sfs_io_out_def prod.case Let_def cmp by (simp only: w off of_int_of_nat_eq) simp
  then show ?thesis using io u' by simp
qed

lemma sfs_io_write:
  assumes vinv: "vinv sfs sv" and u: "uok u" "uio_rw u = UIO_WRITE" "ureg u = Some bs"
    and sz: "unat (sfi_size (sv_i sv)) < 2 ^ 31"
  shows "\<exists>r sfs' v sv' m. sfs_io sfs sv u = Some (r, sfs', sv', uadv m u)
    \<and> moved m sfs sv u sfs' v (uadv m u) \<and> m \<le> unat (uio_resid u)
    \<and> (case r of
         Inr _ \<Rightarrow> m = unat (uio_resid u)
       | Inl e \<Rightarrow> e = EINVAL \<and> 73216 \<le> upos u + m
           \<or> e = ENOSPC \<and> sused sfs' = {..<unat (bm_nbits (sfs_freemap sfs'))})
    \<and> sv' = (if upos u + m > unat (sfi_size (sv_i sv))
        then v\<lparr>sv_i := (sv_i v)\<lparr>sfi_size := of_nat (upos u + m)\<rparr>, sv_dirty := True\<rparr> else v)"
proof -
  from sfs_io_body_ok [OF vinv u(1)] obtain r sfs' v u' where
    b: "sfs_io_body sfs sv u = Some (r, sfs', v, u')" "io_post (unat (uio_resid u)) sfs sv u r sfs' v u'" by blast
  from b(2) obtain m where m: "m \<le> unat (uio_resid u)" "moved m sfs sv u sfs' v u'"
    "(case r of
         Inr _ \<Rightarrow> m = unat (uio_resid u)
       | Inl e \<Rightarrow> e = EINVAL \<and> 73216 \<le> upos u + m
           \<or> e = ENOSPC \<and> sused sfs' = {..<unat (bm_nbits (sfs_freemap sfs'))})"
    unfolding io_post_def by (cases r) auto
  have "u' = uadv m u" using m(2) u(2) by (simp add: moved_def)
  with sfs_io_write_body [OF vinv u(1,2) sz b(1) m(1,2)] m show ?thesis by blast
qed

text \<open>A request that lies within one block is one piece.\<close>
lemma sfs_io_body_single:
  assumes vinv: "vinv sfs sv" and u: "uok u" and n: "0 < unat (uio_resid u)" "unat (uio_resid u) < 512"
    "upos u mod 512 + unat (uio_resid u) \<le> 512"
  shows "\<exists>r sfs' sv' u'. sfs_io_body sfs sv u = Some (r, sfs', sv', u')
    \<and> piece_post (unat (uio_resid u)) sfs sv u r sfs' sv' u'"
proof -
  let ?blkoff = "word_of_int (uio_offset u smod 512) :: u32"
  note bo = blkoff_of_offset [OF u]
  from sfs_partialio_ok [OF vinv u bo(1), of "uio_resid u"] n(3) bo(1) obtain r s v u1 where
    p: "sfs_partialio sfs sv u ?blkoff (uio_resid u) = Some (r, s, v, u1)"
      "piece_post (unat (uio_resid u)) sfs sv u r s v u1" by auto
  show ?thesis
  proof (cases "?blkoff = 0")
    case False
    have "?blkoff \<le> 512" using bo(1) by (simp add: word_le_nat_alt)
    then have "unat (512 - ?blkoff) = 512 - upos u mod 512" using bo(1) by (simp add: unat_sub)
    then have "uio_resid u \<le> 512 - ?blkoff" using n(3) by (simp add: word_le_nat_alt)
    then have len: "(if 512 - ?blkoff > uio_resid u then uio_resid u else 512 - ?blkoff) = uio_resid u"
      by (simp add: antisym not_less)
    note body = sfs_io_body_skip [OF False, unfolded Let_def len]
    show ?thesis
    proof (cases r)
      case (Inl e)
      then show ?thesis using body p by simp
    next
      case (Inr x)
      then have "unat (uio_resid u1) = 0"
        using p(2) moved_uio(3) [OF _ u _ vinv, of "unat (uio_resid u)" s v u1] by (simp add: piece_post_def)
      then show ?thesis using body p Inr by (simp add: unat_eq_zero)
    qed
  next
    case True
    have "uio_resid u \<noteq> 0" "unat (uio_resid u div 512) = 0" "uio_resid u < 512"
      using n by (auto simp: unat_div word_less_nat_alt)
    moreover have "uio_offset u smod 512 = 0" using True bo(1) smod_aligned [OF u] by simp
    ultimately have "sfs_io_body sfs sv u = sfs_partialio sfs sv u 0 (uio_resid u)"
      using True by (simp add: sfs_io_body_def sfs_io_rest_def word_gt_0)
    then show ?thesis using p True by simp
  qed
qed

text \<open>A file whose blocks are disjoint from those of the file being changed.\<close>
lemma fstep_other:
  assumes st: "fstep sfs sv sfs' sv'" and i: "finv (sdisk sfs) (slive sfs) i"
    and dj: "fblocks (sdisk sfs) i \<inter> fblocks (sdisk sfs) (sv_i sv) = {}"
  shows "finv (sdisk sfs') (slive sfs') i" "fimage (sdisk sfs') i = fimage (sdisk sfs) i"
    "fblocks (sdisk sfs') i \<inter> fblocks (sdisk sfs') (sv_i sv') = {}"
proof -
  let ?d = "sdisk sfs" and ?d' = "sdisk sfs'"
  have live: "fblocks ?d i \<subseteq> slive sfs" using i by (simp add: finv_def)
  have same: "?d' ! b = ?d ! b" if "b \<in> fblocks ?d i" for b using that st dj live by (auto simp: fstep_def)
  have ib: "?d' ! unat (sfi_indirect i) = ?d ! unat (sfi_indirect i)" if "sfi_indirect i \<noteq> 0"
    using that by (intro same) (auto simp: fblocks_def)
  have m: "fmap ?d' i k = fmap ?d i k" for k using ib by (simp add: fmap_def)
  have fb: "fblocks ?d' i = fblocks ?d i" by (simp add: fblocks_def m)
  have mono: "slive sfs \<subseteq> slive sfs'" using st by (auto simp: fstep_def slive_def)
  have "fblocks ?d' i \<subseteq> slive sfs'" using fb live mono by simp
  then show "finv ?d' (slive sfs') i" using i unfolding finv_def m by blast
  show "fimage ?d' i = fimage ?d i"
  proof (rule fimage_cong)
    fix k :: nat
    assume "k < 143"
    then have "unat (fmap ?d i k) \<in> fblocks ?d i" if "fmap ?d i k \<noteq> 0" using that by (auto simp: fblocks_def)
    then show "fblk ?d' i k = fblk ?d i k" using same by (simp add: fblk_def m)
  qed
  have "fblocks ?d' (sv_i sv') \<subseteq> fblocks ?d (sv_i sv) \<union> (slive sfs' - slive sfs)" using st by (simp add: fstep_def)
  then show "fblocks ?d' i \<inter> fblocks ?d' (sv_i sv') = {}" using fb dj live by blast
qed

text \<open>The residue beyond the end of the file is put aside and given back.\<close>
lemma usend_resid:
  "(usend xs (u\<lparr>uio_resid := uio_resid u - n\<rparr>))\<lparr>uio_resid := uio_resid (usend xs (u\<lparr>uio_resid := uio_resid u - n\<rparr>)) + n\<rparr> = usend xs u"
  by (simp add: usend_def uadv_def uput_def)

lemma ureg_resid [simp]: "ureg (u\<lparr>uio_resid := n\<rparr>) = ureg u"
  by (auto simp: ureg_def split: uio_seg.split option.split)

lemma moved_read: "moved m sfs sv u sfs' sv' u' \<Longrightarrow> uio_rw u = UIO_READ \<Longrightarrow>
    u' = usend (take m (drop (upos u) (fimg sfs sv))) u \<and> sv' = sv \<and> sdisk sfs' = sdisk sfs"
  by (simp add: moved_def)

text \<open>A read that starts before the end of the file stops there.\<close>
lemma sfs_io_eof:
  assumes u: "uok u" "uio_rw u = UIO_READ" and sz: "unat (sfi_size (sv_i sv)) < 2 ^ 31" "upos u < unat (sfi_size (sv_i sv))"
  defines "n \<equiv> min (unat (uio_resid u)) (unat (sfi_size (sv_i sv)) - upos u)"
  shows "\<exists>ex. unat ex = unat (uio_resid u) - n \<and>
    sfs_io sfs sv u = map_option (sfs_io_out ex) (sfs_io_body sfs sv (u\<lparr>uio_resid := uio_resid u - ex\<rparr>))"
proof -
  let ?size = "unat (sfi_size (sv_i sv))" and ?n = "unat (uio_resid u)"
  note fs = s32_size [OF sz(1)]
  have off: "uio_offset u = int (upos u)" using u(1) by (simp add: uok_def)
  have small: "upos u + ?n < 2 ^ 31" using u(1) by (simp add: uok_def)
  have "uio_offset u + uint (uio_resid u) = int (upos u + ?n)"
    using off by (metis of_nat_add of_nat_unat)
  then have ep: "s32 (uio_offset u + uint (uio_resid u)) = int (upos u + ?n)"
    by (simp only: s32_of_nat [OF small])
  have "int (upos u) < int ?size" using sz(2) by (simp only: of_nat_less_iff)
  then have lt: "\<not> uio_offset u \<ge> s32 (uint (sfi_size (sv_i sv)))" using fs off by linarith
  show ?thesis
  proof (cases "upos u + ?n > ?size")
    case True
    let ?ex = "of_nat (upos u + ?n - ?size) :: u32"
    have "unat ?ex = upos u + ?n - ?size" using small by (intro unat_of_nat_u32) simp
    then have e: "unat ?ex = ?n - n" using True sz(2) unfolding n_def by linarith
    then have "?ex < uio_resid u" using True sz(2) by (simp only: word_less_nat_alt n_def) linarith
    moreover have "int (upos u + ?n) - int ?size = int (upos u + ?n - ?size)"
      using True by (intro of_nat_diff [symmetric]) simp
    ultimately show ?thesis using e lt u(2) True unfolding sfs_io_def Let_def ep fs
      by (intro exI [of _ ?ex]) (simp only: of_int_of_nat_eq of_nat_less_iff if_True if_False simp_thms kassert_def, simp add: map_conv_bind_option comp_def)
  next
    case False
    then have "?n - n = 0" by (simp add: n_def)
    then show ?thesis using lt u(2) False unfolding sfs_io_def Let_def ep fs
      by (intro exI [of _ 0]) (simp only: of_nat_less_iff if_False simp_thms kassert_def, simp add: map_conv_bind_option comp_def)
  qed
qed

lemma sfs_io_read:
  assumes vinv: "vinv sfs sv" and u: "uok u" "uio_rw u = UIO_READ" and sz: "unat (sfi_size (sv_i sv)) \<le> 73216"
  shows "\<exists>sfs'. sfs_io sfs sv u = Some (Inr (), sfs', sv,
      usend (take (unat (uio_resid u)) (drop (upos u) (take (unat (sfi_size (sv_i sv))) (fimg sfs sv)))) u)
    \<and> fstep sfs sv sfs' sv \<and> sdisk sfs' = sdisk sfs"
proof (cases "unat (sfi_size (sv_i sv)) \<le> upos u")
  case True
  have "s32 (uint (sfi_size (sv_i sv))) = int (unat (sfi_size (sv_i sv)))" using sz by (intro s32_size) simp
  moreover have "int (unat (sfi_size (sv_i sv))) \<le> int (upos u)" using True by (simp only: of_nat_le_iff)
  moreover have "uio_offset u = int (upos u)" using u(1) by (simp add: uok_def)
  ultimately have "uio_offset u \<ge> s32 (uint (sfi_size (sv_i sv)))" by linarith
  then have "sfs_io sfs sv u = Some (Inr (), sfs, sv, u)" using u(2) by (simp add: sfs_io_def)
  then show ?thesis using True fstep_refl [OF vinv] uok_s32 [OF u(1)] by simp
next
  case False
  let ?size = "unat (sfi_size (sv_i sv))" and ?n = "unat (uio_resid u)" and ?img = "fimg sfs sv"
  define n where "n = min ?n (?size - upos u)"
  have "?size < 2 ^ 31" "upos u < ?size" using sz False by simp_all
  from sfs_io_eof [OF u this, of sfs, folded n_def] obtain ex where ex: "unat ex = ?n - n"
    "sfs_io sfs sv u = map_option (sfs_io_out ex) (sfs_io_body sfs sv (u\<lparr>uio_resid := uio_resid u - ex\<rparr>))" by blast
  let ?u = "u\<lparr>uio_resid := uio_resid u - ex\<rparr>"
  have nn: "n \<le> ?n" "upos u + n \<le> ?size" using False by (auto simp: n_def)
  have "ex \<le> uio_resid u" using ex(1) by (simp add: word_le_nat_alt)
  then have res: "unat (uio_resid u - ex) = n" using ex(1) nn(1) by (simp add: unat_sub)
  have u': "uok ?u" "uio_rw ?u = UIO_READ" using u res nn(1) by (auto simp: uok_def word_le_nat_alt)
  from sfs_io_body_ok [OF vinv u'(1)] obtain r sfs' v u1 where
    b: "sfs_io_body sfs sv ?u = Some (r, sfs', v, u1)" "io_post n sfs sv ?u r sfs' v u1" using res by auto
  have r: "r = Inr ()"
  proof (cases r)
    case (Inl e)
    with b(2) u'(2) obtain m where "m \<le> n" "m < n \<or> n = 0" "73216 \<le> upos u + m" by (auto simp: io_post_def)
    then show ?thesis using nn(2) sz False by linarith
  qed simp
  then have mv: "moved n sfs sv ?u sfs' v u1" using b(2) by (auto simp: io_post_def)
  from moved_read [OF mv u'(2)] have u1: "u1 = usend (take n (drop (upos u) ?img)) ?u" "v = sv" "sdisk sfs' = sdisk sfs"
    by simp_all
  have "take n (drop (upos u) ?img) = take ?n (drop (upos u) (take ?size ?img))"
    by (simp add: n_def drop_take min.commute)
  moreover have "sfs_io_out ex (Inr (), sfs', sv, u1) = (Inr (), sfs', sv, usend (take n (drop (upos u) ?img)) u)"
    using u(2) usend_resid [of "take n (drop (upos u) ?img)" u ex] by (simp add: sfs_io_out_def Let_def u1(1))
  moreover have "fstep sfs sv sfs' sv" using mv u1(2) by (simp add: moved_def)
  ultimately show ?thesis using u1(2,3) ex(2) b(1) r by simp
qed

section \<open>An example volume\<close>

text \<open>
  A volume of six blocks. The blocks 0 to 2 and 4 are in use, the bits 6 and 7 of the map are
  past the end; the file has one block, block 4, and a size of 100 bytes.
\<close>
definition sfs_ex :: sfs_fs where
  "sfs_ex = \<lparr>sfs_super = \<lparr>sp_magic = 0xabadf001, sp_nblocks = 6, sp_volname = replicate 32 0, sp_reserved = replicate 118 0\<rparr>,
     sfs_superdirty = False,
     sfs_device = lhd_ex\<lparr>d_blocks := 6, hd_sectors := replicate 4 (replicate 512 0) @ [replicate 512 7, replicate 512 0]\<rparr>,
     sfs_vnodes = \<lparr>a_num = 0, a_max = 0, a_v = None\<rparr>, sfs_freemap = \<lparr>bm_nbits = 8, bm_v = [0xd7]\<rparr>,
     sfs_freemapdirty = False, sfs_heap = (\<lambda>_. None)\<rparr>"

definition sv_ex :: sfs_vnode where
  "sv_ex = \<lparr>sv_ops = sfs_fileops, sv_refcount = 1, sv_opencount = 1,
     sv_i = \<lparr>sfi_size = 100, sfi_type = 1, sfi_linkcount = 1, sfi_direct = 4 # replicate 14 0, sfi_indirect = 0,
       sfi_waste = replicate 110 0\<rparr>, sv_ino = 1, sv_dirty = False\<rparr>"

lemma ex_used: "sused sfs_ex = {0, 1, 2, 4, 6, 7}"
proof -
  have "i < 8 \<Longrightarrow> bit (0xd7 :: u8) i \<longleftrightarrow> i \<in> {0, 1, 2, 4, 6, 7}" for i
    by (auto simp: less_Suc_eq eval_nat_numeral)
  then show ?thesis by (auto simp: sfs_ex_def bm_used_def bm_bit_def)
qed

lemma ex_vinv: "vinv sfs_ex sv_ex"
proof -
  have dev: "lhd_inv (sfs_device sfs_ex)" "lhd_good (sfs_device sfs_ex)"
    using lhd_ex_ok by (auto simp: sfs_ex_def lhd_inv_def lhd_good_def lhd_ex_def)
  have "sinv sfs_ex"
    using dev unfolding sinv_def ex_used by (auto simp: sfs_ex_def bm_inv_def bm_bit_def)
  moreover have m: "fmap (sdisk sfs_ex) (sv_i sv_ex) k = (if k = 0 then 4 else 0)" for k
    by (auto simp: sv_ex_def fmap_def nth_Cons' nth_replicate)
  moreover have "slive sfs_ex = {0, 1, 2, 4}" unfolding slive_def ex_used by (auto simp: sfs_ex_def)
  ultimately show ?thesis
    by (auto simp: vinv_def finv_def fblocks_def m, auto simp: sv_ex_def inode_wf_def)
qed

section \<open>Properties\<close>

text \<open>
  C4. Writing to a file on a disk that reports no errors changes the file as a sequence of
  bytes exactly by the data that was taken from the uio: \<open>m\<close> bytes from the start of its
  region go to the offset, holes are filled with zeros, and the file size becomes the larger
  of the old size and the end of the written part. All data is written, unless the largest
  file size of 73216 bytes is reached (\<open>EINVAL\<close>) or the volume has become full (\<open>ENOSPC\<close>).
  The function never panics, and the invariants of the volume and the file are kept.
\<close>
theorem sfs_write_correct:
  assumes "vinv sfs sv" "uok u" "uio_rw u = UIO_WRITE" "ureg u = Some bs" "unat (sfi_size (sv_i sv)) < 2 ^ 31"
  shows "\<exists>r sfs' sv' m. sfs_io sfs sv u = Some (r, sfs', sv', uadv m u) \<and> vinv sfs' sv'
    \<and> m \<le> unat (uio_resid u) \<and> fimg sfs' sv' = patch (fimg sfs sv) (upos u) (take m bs)
    \<and> unat (sfi_size (sv_i sv')) = max (unat (sfi_size (sv_i sv))) (upos u + m)
    \<and> (case r of
         Inr _ \<Rightarrow> m = unat (uio_resid u)
       | Inl e \<Rightarrow> e = EINVAL \<and> 73216 \<le> upos u + m
           \<or> e = ENOSPC \<and> sused sfs' = {..<unat (bm_nbits (sfs_freemap sfs'))})"
proof -
  from sfs_io_write [OF assms] obtain r sfs' v sv' m where
    io: "sfs_io sfs sv u = Some (r, sfs', sv', uadv m u)" "moved m sfs sv u sfs' v (uadv m u)" "m \<le> unat (uio_resid u)"
      "(case r of
         Inr _ \<Rightarrow> m = unat (uio_resid u)
       | Inl e \<Rightarrow> e = EINVAL \<and> 73216 \<le> upos u + m
           \<or> e = ENOSPC \<and> sused sfs' = {..<unat (bm_nbits (sfs_freemap sfs'))})"
    and sv': "sv' = (if upos u + m > unat (sfi_size (sv_i sv))
        then v\<lparr>sv_i := (sv_i v)\<lparr>sfi_size := of_nat (upos u + m)\<rparr>, sv_dirty := True\<rparr> else v)" by blast
  have st: "fstep sfs sv sfs' v" and img: "fimg sfs' v = patch (fimg sfs sv) (upos u) (take m bs)"
    using io(2) assms(3,4) by (simp_all add: moved_def)
  have small: "upos u + m < 2 ^ 32" using assms(2) io(3) by (simp add: uok_def)
  have size: "unat (sfi_size (sv_i sv')) = max (unat (sfi_size (sv_i sv))) (upos u + m)"
    using st unat_of_nat_u32 [OF small] by (auto simp: sv' fstep_def simp del: of_nat_add)
  have "vinv sfs' sv'" using fstep_vinv [OF st] by (simp add: sv' vinv_def)
  moreover have "fimg sfs' sv' = patch (fimg sfs sv) (upos u) (take m bs)" using img by (simp add: sv')
  ultimately show ?thesis using io(1,3,4) size by blast
qed

theorem sfs_write_correct_witness:
  "\<exists>r sfs' sv' m. sfs_io sfs_ex sv_ex (mk_kuio [1, 2, 3] 0 3 1000 UIO_WRITE) = Some (r, sfs', sv', uadv m (mk_kuio [1, 2, 3] 0 3 1000 UIO_WRITE))
    \<and> vinv sfs' sv' \<and> fimg sfs' sv' = patch (fimg sfs_ex sv_ex) 1000 (take m [1, 2, 3])"
  using sfs_write_correct [OF ex_vinv, of "mk_kuio [1, 2, 3] 0 3 1000 UIO_WRITE" "[1, 2, 3]"]
  by (auto simp: uok_def ureg_mk_kuio sv_ex_def)

text \<open>
  C12. A write to one file leaves every other file alone: a file whose blocks were disjoint
  from those of the written file keeps its contents and its invariant, and the blocks of
  the two files are disjoint afterwards.
\<close>
theorem sfs_write_isolated:
  assumes "vinv sfs sv" "uok u" "uio_rw u = UIO_WRITE" "unat (sfi_size (sv_i sv)) < 2 ^ 31"
    "finv (sdisk sfs) (slive sfs) i" "fblocks (sdisk sfs) i \<inter> fblocks (sdisk sfs) (sv_i sv) = {}"
    "sfs_io sfs sv u = Some (r, sfs', sv', u')"
  shows "fimage (sdisk sfs') i = fimage (sdisk sfs) i \<and> finv (sdisk sfs') (slive sfs') i
    \<and> fblocks (sdisk sfs') i \<inter> fblocks (sdisk sfs') (sv_i sv') = {}"
proof -
  obtain bs where bs: "ureg u = Some bs" using assms(2) by (auto simp: uok_def)
  from sfs_io_write [OF assms(1-3) bs assms(4)] assms(7) obtain v m where
    "moved m sfs sv u sfs' v u'" and sv': "sv' = (if upos u + m > unat (sfi_size (sv_i sv))
        then v\<lparr>sv_i := (sv_i v)\<lparr>sfi_size := of_nat (upos u + m)\<rparr>, sv_dirty := True\<rparr> else v)" by auto
  then have "fstep sfs sv sfs' v" by (simp add: moved_def)
  from fstep_other [OF this assms(5,6)] show ?thesis by (simp add: sv')
qed

theorem sfs_write_isolated_witness:
  "\<exists>r sfs' sv' u'. sfs_io sfs_ex sv_ex (mk_kuio [1, 2, 3] 0 3 1000 UIO_WRITE) = Some (r, sfs', sv', u')
    \<and> fimage (sdisk sfs') ((sv_i sv_ex)\<lparr>sfi_direct := replicate 15 0\<rparr>) =
      fimage (sdisk sfs_ex) ((sv_i sv_ex)\<lparr>sfi_direct := replicate 15 0\<rparr>)"
proof -
  let ?u = "mk_kuio [1, 2, 3] 0 3 1000 UIO_WRITE" and ?i = "(sv_i sv_ex)\<lparr>sfi_direct := replicate 15 0\<rparr>"
  have u: "uok ?u" "uio_rw ?u = UIO_WRITE" "ureg ?u = Some [1, 2, 3]" by (simp_all add: uok_def ureg_mk_kuio)
  have sz: "unat (sfi_size (sv_i sv_ex)) < 2 ^ 31" by (simp add: sv_ex_def)
  have m: "fmap d ?i k = 0" for d k by (auto simp: sv_ex_def fmap_def)
  then have "fblocks d ?i = {}" for d by (auto simp: fblocks_def sv_ex_def)
  moreover from this have "finv (sdisk sfs_ex) (slive sfs_ex) ?i" by (simp add: finv_def m) (simp add: sv_ex_def inode_wf_def)
  ultimately show ?thesis
    using sfs_io_write [OF ex_vinv u sz] sfs_write_isolated [OF ex_vinv u(1,2) sz, of ?i] by blast
qed

text \<open>
  C11. Reading a file returns exactly its bytes: from the offset on, as many as were asked
  for and as lie before the end of the file (none at or after it), with zeros for holes. The
  disk and the inode do not change.
\<close>
theorem sfs_read_correct:
  assumes "vinv sfs sv" "uok u" "uio_rw u = UIO_READ" "unat (sfi_size (sv_i sv)) \<le> 73216"
  shows "\<exists>sfs'. sfs_io sfs sv u = Some (Inr (), sfs', sv,
      usend (take (unat (uio_resid u)) (drop (upos u) (take (unat (sfi_size (sv_i sv))) (fimg sfs sv)))) u)
    \<and> vinv sfs' sv \<and> sdisk sfs' = sdisk sfs"
  using sfs_io_read [OF assms] fstep_vinv by blast

theorem sfs_read_correct_witness:
  "\<exists>sfs'. sfs_io sfs_ex sv_ex (mk_kuio [1, 2, 3] 0 3 98 UIO_READ) =
      Some (Inr (), sfs', sv_ex, usend (take 3 (drop 98 (take 100 (fimg sfs_ex sv_ex)))) (mk_kuio [1, 2, 3] 0 3 98 UIO_READ))
    \<and> sdisk sfs' = sdisk sfs_ex"
proof -
  have "unat (sfi_size (sv_i sv_ex)) = 100" by (simp add: sv_ex_def)
  then show ?thesis
    using sfs_read_correct [OF ex_vinv, of "mk_kuio [1, 2, 3] 0 3 98 UIO_READ"] by (auto simp: uok_def ureg_mk_kuio)
qed

text \<open>
  C28. A write of a block whose first attempt fails with a media error is lost silently: the
  retry is made with the uio the failed attempt has already used up, transfers nothing and
  succeeds, so that \<^verbatim>\<open>sfs_wblock\<close> reports success while the disk is unchanged.
\<close>
theorem sfs_wblock_retry_loses_data:
  assumes "lhd_inv (sfs_device sfs)" "\<not> lhd_next_ok (sfs_device sfs)" "unat b < length (sdisk sfs)" "length buf = 512"
  shows "\<exists>sfs'. sfs_wblock sfs buf 0 b = Some (Inr (), sfs') \<and> sdisk sfs' = sdisk sfs"
proof -
  have "unat b < 2 ^ 22" using assms(3) lhd_inv_dest(4) [OF assms(1)] by simp
  note off = SFSUIO_offset [OF this, of buf 0 UIO_WRITE]
  have ten: "(10 :: nat) = Suc 9" by simp
  have "\<exists>d'. hd_sectors d' = sdisk sfs
      \<and> retry_io 10 lhd_io (sfs_device sfs) (SFSUIO buf 0 b UIO_WRITE) = Some (Inr (), d', uadv 512 (SFSUIO buf 0 b UIO_WRITE))"
    unfolding ten using lhd.retry_write [OF assms(1,3) off, where n = 9 and bs = buf]
      assms(2,4) by (auto simp del: retry_io.simps)
  then show ?thesis by (auto simp: sfs_wblock_def sfs_rwblock_def)
qed

theorem sfs_wblock_retry_loses_data_witness:
  "\<exists>sfs'. sfs_wblock (sfs_ex\<lparr>sfs_device := (sfs_device sfs_ex)\<lparr>hd_status := (\<lambda>n. if n = 0 then 20 else 4)\<rparr>\<rparr>) (replicate 512 1) 0 3 =
      Some (Inr (), sfs') \<and> sdisk sfs' ! 3 = replicate 512 0"
proof -
  let ?s = "sfs_ex\<lparr>sfs_device := (sfs_device sfs_ex)\<lparr>hd_status := (\<lambda>n. if n = 0 then 20 else 4)\<rparr>\<rparr>"
  have "lhd_inv (sfs_device ?s)" "\<not> lhd_next_ok (sfs_device ?s)"
    by (auto simp: sfs_ex_def lhd_ex_def lhd_inv_def lhd_next_ok_def lhd_consts LHD_STATEMASK_def)
  moreover have "sdisk ?s = replicate 4 (replicate 512 0) @ [replicate 512 7, replicate 512 0]" by (simp add: sfs_ex_def)
  ultimately show ?thesis
    using sfs_wblock_retry_loses_data [of ?s 3 "replicate 512 1"] by (auto simp: nth_append)
qed

end
