(* ===== verification/Sfs_Trunc.thy ===== *)
theory Sfs_Trunc
  imports Sfs_Fileio
begin

text \<open>
  Truncation of SFS files: which blocks \<^verbatim>\<open>sfs_truncate\<close> frees, and what the file is afterwards.
\<close>

section \<open>Clearing entries of a block list\<close>

text \<open>The entries selected by \<open>P\<close> are set to zero, and the blocks they named are freed.\<close>
definition cleared :: "(nat \<Rightarrow> bool) \<Rightarrow> u32 list \<Rightarrow> u32 list" where
  "cleared P ws = map (\<lambda>k. if P k then 0 else ws ! k) [0..<length ws]"

definition freed :: "(nat \<Rightarrow> bool) \<Rightarrow> u32 list \<Rightarrow> nat set" where
  "freed P ws = (\<lambda>k. unat (ws ! k)) ` {k. k < length ws \<and> P k \<and> ws ! k \<noteq> 0}"

definition freeable :: "(nat \<Rightarrow> bool) \<Rightarrow> u32 list \<Rightarrow> nat set \<Rightarrow> bool" where
  "freeable P ws used \<longleftrightarrow> freed P ws \<subseteq> used
     \<and> (\<forall>k<length ws. \<forall>l<length ws. P k \<and> P l \<and> ws ! k = ws ! l \<and> ws ! k \<noteq> 0 \<longrightarrow> k = l)"

lemma length_cleared [simp]: "length (cleared P ws) = length ws"
  by (simp add: cleared_def)

lemma nth_cleared: "k < length ws \<Longrightarrow> cleared P ws ! k = (if P k then 0 else ws ! k)"
  by (simp add: cleared_def)

lemma cleared_skip:
  assumes "\<And>k. P k \<longleftrightarrow> P' k \<or> k = i \<and> c" "\<not> (c \<and> ws ! i \<noteq> 0)"
  shows "cleared P ws = cleared P' ws" "freed P ws = freed P' ws" "freeable P ws used \<Longrightarrow> freeable P' ws used"
proof -
  show "cleared P ws = cleared P' ws"
    using assms by (intro nth_equalityI) (auto simp: nth_cleared)
  show f: "freed P ws = freed P' ws"
    using assms unfolding freed_def by (intro image_cong) auto
  show "freeable P ws used \<Longrightarrow> freeable P' ws used"
    using assms(1) unfolding freeable_def f by blast
qed

lemma cleared_take:
  assumes P: "\<And>k. P k \<longleftrightarrow> P' k \<or> k = i" "\<not> P' i" and i: "i < length ws" "ws ! i \<noteq> 0" and ok: "freeable P ws used"
  shows "cleared P ws = cleared P' (ws[i := 0])" "freed P ws = insert (unat (ws ! i)) (freed P' (ws[i := 0]))"
    "freeable P' (ws[i := 0]) (used - {unat (ws ! i)})" "unat (ws ! i) \<in> used"
proof -
  show "cleared P ws = cleared P' (ws[i := 0])"
    using P by (intro nth_equalityI) (auto simp: nth_cleared nth_list_update)
  have eq: "{k. k < length ws \<and> P k \<and> ws ! k \<noteq> 0} = insert i {k. k < length (ws[i := 0]) \<and> P' k \<and> ws[i := 0] ! k \<noteq> 0}"
    using P i by (auto simp: nth_list_update)
  show f: "freed P ws = insert (unat (ws ! i)) (freed P' (ws[i := 0]))"
  proof -
    have "(\<lambda>k. unat (ws ! k)) ` {k. k < length (ws[i := 0]) \<and> P' k \<and> ws[i := 0] ! k \<noteq> 0} = freed P' (ws[i := 0])"
      unfolding freed_def using P(2) i(1) by (intro image_cong) (auto simp: nth_list_update)
    then show ?thesis unfolding freed_def [of P] eq by simp
  qed
  show "unat (ws ! i) \<in> used" using ok f by (auto simp: freeable_def)
  have inj: "k = l" if "k < length ws" "l < length ws" "P k" "P l" "ws ! k = ws ! l" "ws ! k \<noteq> 0" for k l
    using ok that by (auto simp: freeable_def)
  have "unat (ws ! i) \<notin> freed P' (ws[i := 0])"
  proof
    assume "unat (ws ! i) \<in> freed P' (ws[i := 0])"
    then obtain k where "k < length ws" "P' k" "k \<noteq> i" "ws ! i = ws ! k"
      using P(2) i(1) by (auto simp: freed_def nth_list_update split: if_splits)
    then show False using inj [of k i] P(1) i by simp
  qed
  then have "freed P' (ws[i := 0]) \<subseteq> used - {unat (ws ! i)}" using ok f by (auto simp: freeable_def)
  moreover have "k = l" if "k < length ws" "l < length ws" "P' k" "P' l" "ws[i := 0] ! k = ws[i := 0] ! l" "ws[i := 0] ! k \<noteq> 0" for k l
    using inj [of k l] that P i(1) by (auto simp: nth_list_update split: if_splits)
  ultimately show "freeable P' (ws[i := 0]) (used - {unat (ws ! i)})"
    unfolding freeable_def length_list_update by blast
qed

lemma sfs_bfree_ok:
  assumes "bm_inv (sfs_freemap sfs)" "unat b \<in> sused sfs"
  shows "\<exists>fm. sfs_bfree sfs b = Some (sfs\<lparr>sfs_freemap := fm, sfs_freemapdirty := True\<rparr>) \<and> bm_inv fm
    \<and> bm_nbits fm = bm_nbits (sfs_freemap sfs) \<and> bm_used fm = sused sfs - {unat b}"
proof -
  have "b < bm_nbits (sfs_freemap sfs)" using assms(2) by (simp add: bm_used_def word_less_nat_alt)
  from bitmap_unmark_ok [OF assms(1) this] assms(2) show ?thesis by (auto simp: sfs_bfree_def)
qed

text \<open>The free map after the blocks in \<open>F\<close> were freed.\<close>
definition unmapped :: "nat set \<Rightarrow> sfs_fs \<Rightarrow> sfs_fs \<Rightarrow> bool" where
  "unmapped F sfs sfs' \<longleftrightarrow> bm_inv (sfs_freemap sfs') \<and> bm_nbits (sfs_freemap sfs') = bm_nbits (sfs_freemap sfs)
     \<and> sused sfs' = sused sfs - F
     \<and> sfs' = sfs\<lparr>sfs_freemap := sfs_freemap sfs', sfs_freemapdirty := sfs_freemapdirty sfs'\<rparr>"

lemma unmapped_trans: "unmapped F sfs s \<Longrightarrow> unmapped G s sfs' \<Longrightarrow> unmapped (F \<union> G) sfs sfs'"
  unfolding unmapped_def by (cases sfs, cases s, cases sfs') auto

lemma unmapped_refl: "bm_inv (sfs_freemap sfs) \<Longrightarrow> unmapped {} sfs sfs"
  by (simp add: unmapped_def)

lemma sfs_bfree_unmapped:
  "bm_inv (sfs_freemap sfs) \<Longrightarrow> unat b \<in> sused sfs \<Longrightarrow> \<exists>s. sfs_bfree sfs b = Some s \<and> unmapped {unat b} sfs s"
  using sfs_bfree_ok [of sfs b] by (auto simp: unmapped_def)

section \<open>The loops\<close>

lemma sfs_trunc_direct_ok:
  assumes "n + i = 15" "length (sfi_direct (sv_i sv)) = 15" "bm_inv (sfs_freemap sfs)"
    "freeable (\<lambda>k. i \<le> k \<and> unat bl \<le> k) (sfi_direct (sv_i sv)) (sused sfs)"
  shows "\<exists>sfs' dirty. sfs_trunc_direct n i bl sfs sv = Some (sfs',
      sv\<lparr>sv_i := (sv_i sv)\<lparr>sfi_direct := cleared (\<lambda>k. i \<le> k \<and> unat bl \<le> k) (sfi_direct (sv_i sv))\<rparr>, sv_dirty := dirty\<rparr>)
    \<and> unmapped (freed (\<lambda>k. i \<le> k \<and> unat bl \<le> k) (sfi_direct (sv_i sv))) sfs sfs'"
  using assms
proof (induction n arbitrary: i sfs sv)
  case 0
  then have "cleared (\<lambda>k. i \<le> k \<and> unat bl \<le> k) (sfi_direct (sv_i sv)) = sfi_direct (sv_i sv)"
    by (intro nth_equalityI) (auto simp: nth_cleared)
  moreover have "freed (\<lambda>k. i \<le> k \<and> unat bl \<le> k) (sfi_direct (sv_i sv)) = {}" using 0 by (auto simp: freed_def)
  ultimately show ?case using unmapped_refl [OF 0(3)] by (auto intro!: exI [of _ "sv_dirty sv"])
next
  case (Suc n)
  let ?ws = "sfi_direct (sv_i sv)" and ?P = "\<lambda>i k. i \<le> k \<and> unat bl \<le> k"
  have i: "i < length ?ws" "Suc i + n = 15" "i < 15" using Suc.prems by simp_all
  have P: "?P i k \<longleftrightarrow> ?P (Suc i) k \<or> k = i \<and> unat bl \<le> i" for k by auto
  have cmp: "of_nat i \<ge> bl \<longleftrightarrow> unat bl \<le> i"
    using i(3) by (simp add: word_le_nat_alt unat_of_nat_u32)
  show ?case
  proof (cases "unat bl \<le> i \<and> ?ws ! i \<noteq> 0")
    case False
    note sk = cleared_skip [of "?P i" "?P (Suc i)", OF P False]
    from Suc.IH [of "Suc i" sv sfs] Suc.prems i(2) sk(3) have
      "\<exists>sfs' dirty. sfs_trunc_direct n (Suc i) bl sfs sv = Some (sfs',
          sv\<lparr>sv_i := (sv_i sv)\<lparr>sfi_direct := cleared (?P (Suc i)) ?ws\<rparr>, sv_dirty := dirty\<rparr>)
        \<and> unmapped (freed (?P (Suc i)) ?ws) sfs sfs'" by auto
    then show ?thesis using False i(1) cmp by (auto simp: cnth_in sk(1,2))
  next
    case True
    have P': "?P i k \<longleftrightarrow> ?P (Suc i) k \<or> k = i" for k using P True by blast
    note tk = cleared_take [of "?P i" "?P (Suc i)", OF P' _ i(1) _ Suc.prems(4)]
    have used: "unat (?ws ! i) \<in> sused sfs" using tk(4) True by simp
    from sfs_bfree_unmapped [OF Suc.prems(3) used] obtain s where
      s: "sfs_bfree sfs (?ws ! i) = Some s" "unmapped {unat (?ws ! i)} sfs s" by blast
    let ?sv = "sv\<lparr>sv_i := (sv_i sv)\<lparr>sfi_direct := ?ws[i := 0]\<rparr>, sv_dirty := True\<rparr>"
    have "bm_inv (sfs_freemap s)" "sused s = sused sfs - {unat (?ws ! i)}" using s(2) by (simp_all add: unmapped_def)
    with Suc.IH [of "Suc i" ?sv s] Suc.prems i tk(3) True obtain sfs' dirty where
      r: "sfs_trunc_direct n (Suc i) bl s ?sv = Some (sfs',
          ?sv\<lparr>sv_i := (sv_i ?sv)\<lparr>sfi_direct := cleared (?P (Suc i)) (?ws[i := 0])\<rparr>, sv_dirty := dirty\<rparr>)"
        "unmapped (freed (?P (Suc i)) (?ws[i := 0])) s sfs'" by auto
    have "unmapped (freed (?P i) ?ws) sfs sfs'" using unmapped_trans [OF s(2) r(2)] tk(2) True by simp
    moreover have "cleared (?P i) ?ws = cleared (?P (Suc i)) (?ws[i := 0])" using tk(1) True by simp
    ultimately show ?thesis using True i cmp s(1) r(1) by (auto simp: cnth_in cupd_in)
  qed
qed

lemma sfs_trunc_entries_ok:
  assumes "n + j = 128" "length ws = 128" "bm_inv (sfs_freemap sfs)" "unat bl < 2 ^ 31"
    "freeable (\<lambda>k. j \<le> k \<and> unat bl < 15 + k) ws (sused sfs)"
  shows "\<exists>sfs'. sfs_trunc_entries n j bl sfs ws dirty nz =
      Some (sfs', cleared (\<lambda>k. j \<le> k \<and> unat bl < 15 + k) ws,
        dirty \<or> freed (\<lambda>k. j \<le> k \<and> unat bl < 15 + k) ws \<noteq> {},
        nz \<or> (\<exists>k<128. j \<le> k \<and> cleared (\<lambda>k. j \<le> k \<and> unat bl < 15 + k) ws ! k \<noteq> 0))
    \<and> unmapped (freed (\<lambda>k. j \<le> k \<and> unat bl < 15 + k) ws) sfs sfs'"
  using assms
proof (induction n arbitrary: j sfs ws dirty nz)
  case 0
  then have "cleared (\<lambda>k. j \<le> k \<and> unat bl < 15 + k) ws = ws"
    by (intro nth_equalityI) (auto simp: nth_cleared)
  moreover have "freed (\<lambda>k. j \<le> k \<and> unat bl < 15 + k) ws = {}" using 0 by (auto simp: freed_def)
  ultimately show ?case using unmapped_refl [OF 0(3)] 0(1) by auto
next
  case (Suc n)
  let ?P = "\<lambda>j k. j \<le> k \<and> unat bl < 15 + k"
  have j: "j < length ws" "Suc j + n = 128" "j < 128" using Suc.prems by simp_all
  have P: "?P j k \<longleftrightarrow> ?P (Suc j) k \<or> k = j \<and> unat bl < 15 + j" for k by auto
  have "unat (15 + of_nat j :: u32) = 15 + j" using j(3) by (simp add: unat_word_ariths unat_of_nat_u32)
  then have cmp: "bl < 15 + of_nat j \<longleftrightarrow> unat bl < 15 + j" by (simp add: word_less_nat_alt)
  have ex: "(\<exists>k<128. j \<le> k \<and> Q k) \<longleftrightarrow> Q j \<or> (\<exists>k<128. Suc j \<le> k \<and> Q k)" for Q
    using j(3) by (metis Suc_le_eq le_less)
  show ?case
  proof (cases "unat bl < 15 + j \<and> ws ! j \<noteq> 0")
    case False
    note sk = cleared_skip [of "?P j" "?P (Suc j)", OF P False]
    have "cleared (?P (Suc j)) ws ! j = ws ! j" using j(1) by (simp add: nth_cleared)
    moreover from Suc.IH [of "Suc j" ws sfs dirty "nz \<or> ws ! j \<noteq> 0"] Suc.prems j(2) sk(3) have
      "\<exists>sfs'. sfs_trunc_entries n (Suc j) bl sfs ws dirty (nz \<or> ws ! j \<noteq> 0) = Some (sfs', cleared (?P (Suc j)) ws,
          dirty \<or> freed (?P (Suc j)) ws \<noteq> {}, (nz \<or> ws ! j \<noteq> 0) \<or> (\<exists>k<128. Suc j \<le> k \<and> cleared (?P (Suc j)) ws ! k \<noteq> 0))
        \<and> unmapped (freed (?P (Suc j)) ws) sfs sfs'" by auto
    ultimately show ?thesis using False j(1) cmp by (auto simp: cnth_in sk(1,2) ex)
  next
    case True
    have P': "?P j k \<longleftrightarrow> ?P (Suc j) k \<or> k = j" for k using P True by blast
    note tk = cleared_take [of "?P j" "?P (Suc j)", OF P' _ j(1) _ Suc.prems(5)]
    have used: "unat (ws ! j) \<in> sused sfs" using tk(4) True by simp
    from sfs_bfree_unmapped [OF Suc.prems(3) used] obtain s where
      s: "sfs_bfree sfs (ws ! j) = Some s" "unmapped {unat (ws ! j)} sfs s" by blast
    let ?ws = "ws[j := 0]"
    have z: "cleared (?P (Suc j)) ?ws ! j = 0" using j(1) by (simp add: nth_cleared)
    have "bm_inv (sfs_freemap s)" "sused s = sused sfs - {unat (ws ! j)}" using s(2) by (simp_all add: unmapped_def)
    with Suc.IH [of "Suc j" ?ws s True nz] Suc.prems j tk(3) True obtain sfs' where
      r: "sfs_trunc_entries n (Suc j) bl s ?ws True nz = Some (sfs', cleared (?P (Suc j)) ?ws,
          True, nz \<or> (\<exists>k<128. Suc j \<le> k \<and> cleared (?P (Suc j)) ?ws ! k \<noteq> 0))"
        "unmapped (freed (?P (Suc j)) ?ws) s sfs'" by auto
    have "unmapped (freed (?P j) ws) sfs sfs'" using unmapped_trans [OF s(2) r(2)] tk(2) True by simp
    moreover have "freed (?P j) ws \<noteq> {}" "cleared (?P j) ws = cleared (?P (Suc j)) ?ws" using tk(1,2) True by auto
    ultimately show ?thesis using True j cmp s(1) r(1) z by (simp add: cnth_in cupd_in ex)
  qed
qed

section \<open>The whole operation\<close>

lemma unmapped_sinv:
  assumes "sinv sfs" "unmapped F sfs sfs'" "F \<subseteq> slive sfs - {0}"
  shows "sinv sfs'" "slive sfs' = slive sfs - F" "sdisk sfs' = sdisk sfs" "sfs_super sfs' = sfs_super sfs"
proof -
  have eq: "sfs' = sfs\<lparr>sfs_freemap := sfs_freemap sfs', sfs_freemapdirty := sfs_freemapdirty sfs'\<rparr>"
    and fm: "bm_inv (sfs_freemap sfs')" "bm_nbits (sfs_freemap sfs') = bm_nbits (sfs_freemap sfs)" "sused sfs' = sused sfs - F"
    using assms(2) unfolding unmapped_def by blast+
  from eq have same: "sfs_device sfs' = sfs_device sfs" "sfs_super sfs' = sfs_super sfs" by (metis sfs_fs.select_convs(1,3) sfs_fs.surjective sfs_fs.update_convs(5,6))+
  show "sfs_super sfs' = sfs_super sfs" "sdisk sfs' = sdisk sfs" by (simp_all add: same)
  show "slive sfs' = slive sfs - F" by (auto simp: slive_def same fm(3))
  show "sinv sfs'" using assms(1,3) fm by (auto simp: sinv_def same slive_def)
qed

text \<open>The indirect block and its entries.\<close>
lemma sfs_trunc_indirect_ok:
  fixes bl :: u32
  defines "P \<equiv> \<lambda>k. unat bl < 15 + k"
  assumes inv: "sinv sfs" and ib: "sfi_indirect (sv_i sv) = ib" "ib \<noteq> 0" "unat ib \<in> slive sfs"
    and ws: "ws = words32 128 (sdisk sfs ! unat ib)" and ok: "freeable P ws (slive sfs - {0, unat ib})"
    and bl: "unat bl < 142"
  shows "\<exists>sfs' sv'. sfs_trunc_indirect bl sfs sv = Some (Inr (), sfs', sv') \<and> sinv sfs' \<and> sfs_super sfs' = sfs_super sfs
    \<and> bm_nbits (sfs_freemap sfs') = bm_nbits (sfs_freemap sfs)
    \<and> (if \<forall>k<128. cleared P ws ! k = 0
       then sdisk sfs' = sdisk sfs \<and> sused sfs' = sused sfs - insert (unat ib) (freed P ws)
         \<and> sv' = sv\<lparr>sv_i := (sv_i sv)\<lparr>sfi_indirect := 0\<rparr>, sv_dirty := True\<rparr>
       else sdisk sfs' = (sdisk sfs)[unat ib := bytes32 (cleared P ws)] \<and> sused sfs' = sused sfs - freed P ws \<and> sv' = sv)"
proof -
  have ibn: "unat ib < snblocks sfs" "unat ib \<in> sused sfs" using ib(3) by (auto simp: slive_def)
  have l512: "length (sdisk sfs ! unat ib) = 512" by (rule sdisk_length [OF inv ibn(1)])
  from sfs_rblock_ok [OF inv ibn(1), of 0 "replicate 512 0"] l512 obtain dev where
    dev: "lhd_inv dev" "lhd_good dev" "hd_sectors dev = sdisk sfs"
      "sfs_rblock sfs (replicate 512 0) 0 ib = Some (Inr (), sdisk sfs ! unat ib, sfs\<lparr>sfs_device := dev\<rparr>)"
    by (auto simp: patch_def)
  let ?s = "sfs\<lparr>sfs_device := dev\<rparr>"
  have inv1: "sinv ?s" by (rule sinv_device [OF inv dev(1,2)]) (simp add: dev(3))
  have fr: "freed P ws \<subseteq> slive sfs - {0, unat ib}" using ok by (simp add: freeable_def)
  have ok': "freeable (\<lambda>k. 0 \<le> k \<and> unat bl < 15 + k) ws (sused ?s)"
    using ok by (auto simp: freeable_def P_def slive_def)
  have "128 + 0 = (128 :: nat)" "length ws = 128" "bm_inv (sfs_freemap ?s)" "unat bl < 2 ^ 31"
    using ws bl inv by (simp_all add: sinv_def)
  from sfs_trunc_entries_ok [OF this ok', of False False] obtain s2 where
    en: "sfs_trunc_entries 128 0 bl ?s ws False False =
      Some (s2, cleared P ws, freed P ws \<noteq> {}, \<exists>k<128. cleared P ws ! k \<noteq> 0)" "unmapped (freed P ws) ?s s2"
    by (auto simp: P_def)
  have live: "slive ?s = slive sfs" by (simp add: slive_def)
  note s2 = unmapped_sinv [OF inv1 en(2)]
  have s2': "sinv s2" "slive s2 = slive sfs - freed P ws" "sdisk s2 = sdisk sfs" "sfs_super s2 = sfs_super sfs"
    "bm_nbits (sfs_freemap s2) = bm_nbits (sfs_freemap sfs)" "sused s2 = sused sfs - freed P ws"
    using s2 fr live dev(3) en(2) by (auto simp: unmapped_def)
  have hb: "bl < 15 + 128 - 1" using bl by (simp add: word_less_nat_alt)
  show ?thesis
  proof (cases "\<forall>k<128. cleared P ws ! k = 0")
    case True
    have "bm_inv (sfs_freemap s2)" "unat ib \<in> sused s2" using s2'(1,6) fr ibn(2) by (auto simp: sinv_def)
    from sfs_bfree_unmapped [OF this] obtain s3 where s3: "sfs_bfree s2 ib = Some s3" "unmapped {unat ib} s2 s3" by blast
    have "{unat ib} \<subseteq> slive s2 - {0}" using ib(2,3) s2'(2) fr by (auto simp: unat_eq_zero)
    note s3' = unmapped_sinv [OF s2'(1) s3(2) this]
    have "sused s3 = sused sfs - insert (unat ib) (freed P ws)" "bm_nbits (sfs_freemap s3) = bm_nbits (sfs_freemap sfs)"
      using s3(2) s2'(5,6) by (auto simp: unmapped_def)
    then show ?thesis using True hb ib(1,2) dev(4) en(1) s3(1) s3' s2' ws by (simp add: sfs_trunc_indirect_def)
  next
    case False
    show ?thesis
    proof (cases "freed P ws = {}")
      case True
      then have "cleared P ws = ws"
        using ws by (intro nth_equalityI) (auto simp: nth_cleared freed_def)
      then have "(sdisk sfs)[unat ib := bytes32 (cleared P ws)] = sdisk sfs"
        using ws l512 bytes32_words32 [of 128 "sdisk sfs ! unat ib"] by simp
      then show ?thesis unfolding if_not_P [OF False]
        using True False hb ib(1,2) dev(4) en(1) s2' ws by (simp add: sfs_trunc_indirect_def)
    next
      case dirty: False
      have l: "length (bytes32 (cleared P ws)) = 512" using ws by simp
      from sfs_wblock_ok [OF s2'(1), of ib 0 "bytes32 (cleared P ws)"] l ibn(1) s2'(4) obtain dev' where
        dev': "lhd_inv dev'" "lhd_good dev'" "hd_sectors dev' = (sdisk sfs)[unat ib := bytes32 (cleared P ws)]"
          "sfs_wblock s2 (bytes32 (cleared P ws)) 0 ib = Some (Inr (), s2\<lparr>sfs_device := dev'\<rparr>)"
        using s2'(3) by auto
      have "sinv (s2\<lparr>sfs_device := dev'\<rparr>)" by (rule sinv_device [OF s2'(1) dev'(1,2)]) (simp add: dev'(3) s2'(3))
      then show ?thesis unfolding if_not_P [OF False]
        using dirty False hb ib(1,2) dev(4) en(1) s2' ws dev'(3,4) by (simp add: sfs_trunc_indirect_def)
    qed
  qed
qed

text \<open>Blocks \<open>k\<close> with \<open>D k\<close> are dropped from a file, and the indirect block perhaps.\<close>
lemma finv_drop:
  assumes inv: "finv d live i" and wf: "inode_wf i'" and m: "\<And>k. k < 143 \<Longrightarrow> fmap d' i' k = (if D k then 0 else fmap d i k)"
    and ib: "sfi_indirect i' = sfi_indirect i \<or> sfi_indirect i' = 0"
  shows "fblocks d i - fblocks d' i' = (\<lambda>k. unat (fmap d i k)) ` {k. k < 143 \<and> D k \<and> fmap d i k \<noteq> 0}
      \<union> (if sfi_indirect i' = sfi_indirect i then {} else {unat (sfi_indirect i)})"
    "finv d' (live - (fblocks d i - fblocks d' i')) i'"
proof -
  have sub: "fblocks d' i' \<subseteq> fblocks d i" using ib by (auto simp: fblocks_def m)
  have old: "fblocks d i = (\<lambda>k. unat (fmap d i k)) ` {k. k < 143 \<and> fmap d i k \<noteq> 0} \<union> unat ` ({sfi_indirect i} - {0})"
    by (auto simp: fblocks_def)
  have new: "fblocks d' i' = (\<lambda>k. unat (fmap d i k)) ` {k. k < 143 \<and> \<not> D k \<and> fmap d i k \<noteq> 0} \<union> unat ` ({sfi_indirect i'} - {0})"
    by (auto simp: fblocks_def m)
  have inj: "k = l" if "fmap d i k = fmap d i l" "k < 143" "l < 143" "fmap d i k \<noteq> 0" for k l
    using finv_inj [OF inv] that by blast
  have nib: "fmap d i k \<noteq> sfi_indirect i" if "k < 143" "fmap d i k \<noteq> 0" for k
    using finv_not_indirect [OF inv that] .
  show "fblocks d i - fblocks d' i' = (\<lambda>k. unat (fmap d i k)) ` {k. k < 143 \<and> D k \<and> fmap d i k \<noteq> 0}
      \<union> (if sfi_indirect i' = sfi_indirect i then {} else {unat (sfi_indirect i)})"
    unfolding old new using ib inj nib by (auto, metis+)
  have live: "fblocks d i \<subseteq> live" using inv by (simp add: finv_def)
  then have "fblocks d' i' \<subseteq> live - (fblocks d i - fblocks d' i')" using sub by blast
  moreover have "\<forall>k<143. \<forall>l<143. fmap d' i' k = fmap d' i' l \<and> fmap d' i' k \<noteq> 0 \<longrightarrow> k = l"
    using inj by (simp add: m) metis
  moreover have "\<forall>k<143. fmap d' i' k \<noteq> 0 \<longrightarrow> fmap d' i' k \<noteq> sfi_indirect i'"
    using nib ib by (simp add: m) metis
  ultimately show "finv d' (live - (fblocks d i - fblocks d' i')) i'" using wf by (simp add: finv_def)
qed

lemma fimage_prefix:
  assumes l: "\<And>k. k < 143 \<Longrightarrow> length (fblk d i k) = 512" "\<And>k. k < 143 \<Longrightarrow> length (fblk d' i' k) = 512"
    and eq: "\<And>k. k < B \<Longrightarrow> k < 143 \<Longrightarrow> fblk d' i' k = fblk d i k" and n: "n \<le> 512 * B"
  shows "take n (fimage d' i') = take n (fimage d i)"
proof (cases "143 \<le> B")
  case True
  then have "fimage d' i' = fimage d i" using eq by (intro fimage_cong) auto
  then show ?thesis by simp
next
  case False
  then have sp: "[0..<143] = [0..<B] @ [B..<143]" using upt_add_eq_append [of 0 B "143 - B"] by simp
  have mp: "map (fblk d' i') [0..<B] = map (fblk d i) [0..<B]" using eq False by (intro map_cong) auto
  have "length (concat (map (fblk d i) [0..<B])) = 512 * B"
    using length_concat_512 [of "map (fblk d i) [0..<B]"] l(1) False by simp
  then show ?thesis unfolding fimage_def sp map_append concat_append mp using n by simp
qed

text \<open>
  The blocks a truncation to \<open>len\<close> bytes drops. A direct block goes when it is past the end;
  an entry of the indirect block stays when it is the first one past the end.
\<close>
definition dropped :: "nat \<Rightarrow> nat \<Rightarrow> bool" where
  "dropped len k \<longleftrightarrow> (if k < 15 then (len + 511) div 512 \<le> k else (len + 511) div 512 < k)"

lemma blocklen_ok:
  assumes "0 \<le> len" "len + 511 < 2 ^ 31"
  shows "unat (word_of_int (s32 (len + 512 - 1) sdiv 512) :: u32) = (nat len + 511) div 512"
proof -
  have e: "len + 512 - 1 = len + 511" "s32 (len + 511) = len + 511" using assms by simp_all
  have "unat (word_of_int ((len + 511) sdiv 512) :: u32) = nat (len + 511) div 512"
    using assms by (intro fileblock_of_offset) simp_all
  then show ?thesis unfolding e using assms(1) by simp
qed

text \<open>The data blocks with numbers in \<open>S\<close> that go.\<close>
definition dropset :: "u8 list list \<Rightarrow> sfs_inode \<Rightarrow> nat \<Rightarrow> nat set \<Rightarrow> nat set" where
  "dropset d i len S = (\<lambda>k. unat (fmap d i k)) ` {k \<in> S. dropped len k \<and> fmap d i k \<noteq> 0}"

lemma dropset_live: "finv d live i \<Longrightarrow> S \<subseteq> {..<143} \<Longrightarrow> dropset d i len S \<subseteq> live - {0, unat (sfi_indirect i)}"
  using fmap_live [of d live i] finv_not_indirect [of d live i] by (auto simp: dropset_def unat_gt_0 subset_iff)

lemma dropset_disjoint:
  assumes "finv d live i" "S \<subseteq> {..<143}" "T \<subseteq> {..<143}" "S \<inter> T = {}"
  shows "dropset d i len S \<inter> dropset d i len T = {}"
proof (rule ccontr)
  assume "dropset d i len S \<inter> dropset d i len T \<noteq> {}"
  then obtain k l where "k \<in> S" "l \<in> T" "fmap d i k \<noteq> 0" "fmap d i k = fmap d i l" by (auto simp: dropset_def)
  then show False using finv_inj [OF assms(1), of k l] assms(2-4) by auto
qed

lemma dropset_Un: "dropset d i len (S \<union> T) = dropset d i len S \<union> dropset d i len T"
  by (auto simp: dropset_def)

lemma freed_direct:
  "length (sfi_direct i) = 15 \<Longrightarrow> n = (len + 511) div 512 \<Longrightarrow>
    freed (\<lambda>k. 0 \<le> k \<and> n \<le> k) (sfi_direct i) = dropset d i len {..<15}"
  unfolding freed_def dropset_def by (intro image_cong) (auto simp: fmap_def dropped_def)

lemma freed_entries:
  assumes "sfi_indirect i \<noteq> 0" "n = (len + 511) div 512"
  shows "freed (\<lambda>k. n < 15 + k) (words32 128 (d ! unat (sfi_indirect i))) = dropset d i len {15..<143}"
proof -
  have ent: "words32 128 (d ! unat (sfi_indirect i)) ! k = fmap d i (15 + k)" for k
    using assms(1) by (simp add: fmap_def)
  have "(\<lambda>k. 15 + k) ` {k. k < 128 \<and> n < 15 + k \<and> fmap d i (15 + k) \<noteq> 0} =
      {k \<in> {15..<143}. dropped len k \<and> fmap d i k \<noteq> 0}" (is "?L = ?R")
  proof
    show "?R \<subseteq> ?L"
    proof
      fix k assume "k \<in> ?R"
      then show "k \<in> ?L" by (intro image_eqI [of _ _ "k - 15"]) (auto simp: dropped_def assms(2))
    qed
  qed (auto simp: dropped_def assms(2))
  note this [symmetric]
  then show ?thesis unfolding dropset_def freed_def ent length_words32 by (simp only: image_image)
qed

text \<open>
  What is known of the result: the invariant of the volume, the new map, where the disk may
  differ, and the free map.
\<close>
definition truncated :: "nat \<Rightarrow> sfs_fs \<Rightarrow> sfs_inode \<Rightarrow> sfs_fs \<Rightarrow> sfs_inode \<Rightarrow> bool" where
  "truncated len sfs i sfs' i' \<longleftrightarrow> sinv sfs' \<and> sfs_super sfs' = sfs_super sfs \<and> inode_wf i'
     \<and> (\<forall>k<143. fmap (sdisk sfs') i' k = (if dropped len k then 0 else fmap (sdisk sfs) i k))
     \<and> (sfi_indirect i' = sfi_indirect i \<or> sfi_indirect i' = 0) \<and> (len = 0 \<longrightarrow> sfi_indirect i' = 0)
     \<and> (\<forall>c. sfi_indirect i = 0 \<or> c \<noteq> unat (sfi_indirect i) \<longrightarrow> sdisk sfs' ! c = sdisk sfs ! c)
     \<and> sused sfs' = sused sfs - (dropset (sdisk sfs) i len {..<143}
         \<union> (if sfi_indirect i' = sfi_indirect i then {} else {unat (sfi_indirect i)}))"

text \<open>The second half, after the direct blocks \<open>F\<close> have been dropped.\<close>
lemma truncated_indirect:
  fixes bl :: u32
  defines "P \<equiv> \<lambda>k. 0 \<le> k \<and> unat bl \<le> k"
  assumes inv: "sinv sfs" and finv: "finv (sdisk sfs) (slive sfs) i" and bl: "unat bl = (len + 511) div 512" "unat bl < 142"
    and ib: "sfi_indirect i \<noteq> 0" and F: "unmapped (dropset (sdisk sfs) i len {..<15}) sfs s1"
    and v1: "sv_i v1 = i\<lparr>sfi_direct := cleared P (sfi_direct i)\<rparr>"
  shows "\<exists>s2 v2. sfs_trunc_indirect bl s1 v1 = Some (Inr (), s2, v2) \<and> truncated len sfs i s2 (sv_i v2)"
proof -
  let ?d = "sdisk sfs" and ?ib = "sfi_indirect i" and ?ws = "words32 128 (sdisk sfs ! unat (sfi_indirect i))"
    and ?P2 = "\<lambda>k. unat bl < 15 + k"
  have wf: "inode_wf i" and l15: "length (sfi_direct i) = 15" using finv by (simp_all add: finv_def inode_wf_def)
  have live: "dropset ?d i len {..<15} \<subseteq> slive sfs - {0, unat ?ib}" "dropset ?d i len {15..<143} \<subseteq> slive sfs - {0, unat ?ib}"
    by (rule dropset_live [OF finv]; force)+
  have s1: "sinv s1" "slive s1 = slive sfs - dropset ?d i len {..<15}" "sdisk s1 = ?d" "sfs_super s1 = sfs_super sfs"
    by (rule unmapped_sinv [OF inv F]; use live(1) in blast)+
  have u1: "sused s1 = sused sfs - dropset ?d i len {..<15}" using F by (simp add: unmapped_def)
  have ent: "?ws ! k = fmap ?d i (15 + k)" for k using ib by (simp add: fmap_def)
  note F2 = freed_entries [OF ib bl(1), of ?d]
  have "dropset ?d i len {..<15} \<inter> dropset ?d i len {15..<143} = {}" by (rule dropset_disjoint [OF finv]) auto
  then have "freed ?P2 ?ws \<subseteq> slive s1 - {0, unat ?ib}" using live(2) unfolding F2 s1(2) by blast
  moreover have "k = l" if "k < 128" "l < 128" "?ws ! k = ?ws ! l" "?ws ! k \<noteq> 0" for k l
    using finv_inj [OF finv, of "15 + k" "15 + l"] that by (simp add: ent)
  ultimately have ok: "freeable ?P2 ?ws (slive s1 - {0, unat ?ib})" unfolding freeable_def length_words32 by blast
  have "unat ?ib \<in> slive s1" using indirect_live [OF finv ib] live(1) s1(2) by blast
  with sfs_trunc_indirect_ok [of s1 v1 ?ib ?ws bl, OF s1(1) _ ib _ _ ok bl(2)] v1 s1(3) obtain s2 v2 where
    t2: "sfs_trunc_indirect bl s1 v1 = Some (Inr (), s2, v2)" "sinv s2" "sfs_super s2 = sfs_super s1" and
    c: "if \<forall>k<128. cleared ?P2 ?ws ! k = 0
     then sdisk s2 = ?d \<and> sused s2 = sused s1 - insert (unat ?ib) (freed ?P2 ?ws)
       \<and> v2 = v1\<lparr>sv_i := (sv_i v1)\<lparr>sfi_indirect := 0\<rparr>, sv_dirty := True\<rparr>
     else sdisk s2 = ?d[unat ?ib := bytes32 (cleared ?P2 ?ws)] \<and> sused s2 = sused s1 - freed ?P2 ?ws \<and> v2 = v1"
    by auto
  have un: "dropset ?d i len {..<143} = dropset ?d i len {..<15} \<union> dropset ?d i len {15..<143}"
    unfolding dropset_Un [symmetric] by (rule arg_cong [where f = "dropset _ _ _"]) auto
  have dir: "cleared P (sfi_direct i) ! k = (if dropped len k then 0 else fmap ?d i k)" if "k < 15" for k
    using that l15 by (simp add: nth_cleared P_def dropped_def bl(1) fmap_def)
  have low: "cleared ?P2 ?ws ! (k - 15) = (if dropped len k then 0 else fmap ?d i k)" if "15 \<le> k" "k < 143" for k
    using that ent [of "k - 15"] by (simp add: nth_cleared dropped_def bl(1))
  have "truncated len sfs i s2 (sv_i v2)"
  proof (cases "\<forall>k<128. cleared ?P2 ?ws ! k = 0")
    case True
    then have c': "sdisk s2 = ?d" "sused s2 = sused s1 - insert (unat ?ib) (freed ?P2 ?ws)"
      "sv_i v2 = i\<lparr>sfi_direct := cleared P (sfi_direct i), sfi_indirect := 0\<rparr>"
      using c v1 by simp_all
    have "fmap ?d (sv_i v2) k = (if dropped len k then 0 else fmap ?d i k)" if "k < 143" for k
      unfolding c'(3) fmap_def [of ?d "i\<lparr>sfi_direct := _, sfi_indirect := _\<rparr>"]
      using that dir [of k] low [of k] True [rule_format, of "k - 15"] by auto
    moreover have "sused s2 = sused sfs - (dropset ?d i len {..<143} \<union> {unat ?ib})" unfolding c'(2) u1 F2 un by blast
    ultimately show ?thesis using t2(2,3) s1(4) wf ib by (simp add: truncated_def c'(1) c'(3) inode_wf_def)
  next
    case False
    then have c': "sdisk s2 = ?d[unat ?ib := bytes32 (cleared ?P2 ?ws)]" "sused s2 = sused s1 - freed ?P2 ?ws" "v2 = v1"
      using c unfolding if_not_P [OF False] by simp_all
    have "unat ?ib < length ?d" using indirect_live [OF finv ib] inv by (auto simp: slive_def sinv_def)
    then have "words32 128 (sdisk s2 ! unat ?ib) = cleared ?P2 ?ws" by (simp add: c'(1) words32_bytes)
    then have "fmap (sdisk s2) (sv_i v2) k = (if dropped len k then 0 else fmap ?d i k)" if "k < 143" for k
      using that ib dir [of k] low [of k] by (simp add: fmap_def [of "sdisk s2"] c'(3) v1)
    moreover have "sused s2 = sused sfs - dropset ?d i len {..<143}" unfolding c'(2) u1 F2 un by blast
    moreover have "len \<noteq> 0"
    proof
      assume "len = 0"
      then have "cleared ?P2 ?ws ! k = 0" if "k < 128" for k using low [of "15 + k"] that by (simp add: dropped_def)
      then show False using False by blast
    qed
    ultimately show ?thesis using t2(2,3) s1(4) wf ib by (simp add: truncated_def c'(1) c'(3) v1 inode_wf_def)
  qed
  then show ?thesis using t2(1) by blast
qed

lemma sfs_truncate_ok:
  assumes vinv: "vinv sfs sv" and len: "0 \<le> len" "len + 511 < 2 ^ 31"
  shows "\<exists>sfs' sv'. sfs_truncate sfs sv len = Some (Inr (), sfs', sv') \<and> truncated (nat len) sfs (sv_i sv) sfs' (sv_i sv')
    \<and> sfi_size (sv_i sv') = word_of_int len"
proof -
  let ?i = "sv_i sv" and ?d = "sdisk sfs"
  define bl where "bl = (word_of_int (s32 (len + 512 - 1) sdiv 512) :: u32)"
  have bl: "unat bl = (nat len + 511) div 512" unfolding bl_def by (rule blocklen_ok [OF len])
  have inv: "sinv sfs" and finv: "finv ?d (slive sfs) ?i" using vinv by (simp_all add: vinv_def)
  let ?P = "\<lambda>k. 0 \<le> k \<and> unat bl \<le> k"
  have wf: "inode_wf ?i" and l15: "length (sfi_direct ?i) = 15" using finv by (simp_all add: finv_def inode_wf_def)
  note F = freed_direct [OF l15 bl, of ?d]
  have live: "dropset ?d ?i (nat len) {..<15} \<subseteq> slive sfs - {0, unat (sfi_indirect ?i)}"
    by (rule dropset_live [OF finv]) auto
  have "freed ?P (sfi_direct ?i) \<subseteq> sused sfs" using live unfolding F by (auto simp: slive_def)
  moreover have "k = l" if "k < 15" "l < 15" "sfi_direct ?i ! k = sfi_direct ?i ! l" "sfi_direct ?i ! k \<noteq> 0" for k l
    using finv_inj [OF finv, of k l] that by (simp add: fmap_def)
  ultimately have ok: "freeable ?P (sfi_direct ?i) (sused sfs)" unfolding freeable_def l15 by blast
  have "15 + 0 = (15 :: nat)" "bm_inv (sfs_freemap sfs)" using inv by (simp_all add: sinv_def)
  from sfs_trunc_direct_ok [OF this(1) l15 this(2) ok] obtain s1 dirty where
    t1: "sfs_trunc_direct 15 0 bl sfs sv = Some (s1, sv\<lparr>sv_i := ?i\<lparr>sfi_direct := cleared ?P (sfi_direct ?i)\<rparr>, sv_dirty := dirty\<rparr>)"
      "unmapped (dropset ?d ?i (nat len) {..<15}) sfs s1" unfolding F by blast
  let ?v1 = "sv\<lparr>sv_i := ?i\<lparr>sfi_direct := cleared ?P (sfi_direct ?i)\<rparr>, sv_dirty := dirty\<rparr>"
  have "\<exists>s2 v2. sfs_trunc_indirect bl s1 ?v1 = Some (Inr (), s2, v2) \<and> truncated (nat len) sfs ?i s2 (sv_i v2)"
  proof (cases "sfi_indirect ?i \<noteq> 0 \<and> unat bl < 142")
    case True
    then show ?thesis using truncated_indirect [OF inv finv bl _ _ t1(2), of ?v1] by simp
  next
    case False
    then have "\<not> bl < 15 + 128 - 1 \<or> sfi_indirect ?i = 0" by (auto simp: word_less_nat_alt)
    then have "sfs_trunc_indirect bl s1 ?v1 = Some (Inr (), s1, ?v1)" by (auto simp: sfs_trunc_indirect_def)
    moreover have s1: "sinv s1" "sdisk s1 = ?d" "sfs_super s1 = sfs_super sfs"
      by (rule unmapped_sinv [OF inv t1(2)]; use live in blast)+
    moreover have "fmap ?d (sv_i ?v1) k = (if dropped (nat len) k then 0 else fmap ?d ?i k)" if "k < 143" for k
      using that False l15 by (auto simp: fmap_def nth_cleared dropped_def bl)
    moreover have "dropset ?d ?i (nat len) {..<143} = dropset ?d ?i (nat len) {..<15}"
      using False unfolding dropset_def by (intro image_cong) (auto simp: fmap_def dropped_def bl split: if_splits)
    moreover have "nat len = 0 \<longrightarrow> sfi_indirect ?i = 0" using False bl by auto
    ultimately show ?thesis using t1(2) wf by (simp add: truncated_def unmapped_def inode_wf_def)
  qed
  then obtain s2 v2 where t2: "sfs_trunc_indirect bl s1 ?v1 = Some (Inr (), s2, v2)" "truncated (nat len) sfs ?i s2 (sv_i v2)" by blast
  have "sfs_truncate sfs sv len = Some (Inr (), s2, v2\<lparr>sv_i := (sv_i v2)\<lparr>sfi_size := word_of_int len\<rparr>, sv_dirty := True\<rparr>)"
    using t1(1) t2(1) unfolding sfs_truncate_def Let_def bl_def [symmetric] by simp
  then show ?thesis using t2(2) by (simp add: truncated_def inode_wf_def)
qed

section \<open>Properties\<close>

text \<open>
  C5. Truncating a file to \<open>len\<close> bytes on a disk that reports no errors succeeds and keeps
  the first \<open>len\<close> bytes of the file and every other block of the volume. Exactly the blocks
  the file no longer uses become free. The blocks that go are those past the new end, with
  one exception: in the indirect block the comparison is off by one, and the first block
  past the end stays allocated to the file.
\<close>
theorem sfs_truncate_correct:
  assumes "vinv sfs sv" "0 \<le> len" "len + 511 < 2 ^ 31"
  shows "\<exists>sfs' sv'. sfs_truncate sfs sv len = Some (Inr (), sfs', sv') \<and> vinv sfs' sv'
    \<and> sfi_size (sv_i sv') = word_of_int len \<and> take (nat len) (fimg sfs' sv') = take (nat len) (fimg sfs sv)
    \<and> (\<forall>k<143. fmap (sdisk sfs') (sv_i sv') k =
        (if (if k < 15 then (nat len + 511) div 512 \<le> k else (nat len + 511) div 512 < k) then 0
         else fmap (sdisk sfs) (sv_i sv) k))
    \<and> slive sfs' = slive sfs - (fblocks (sdisk sfs) (sv_i sv) - fblocks (sdisk sfs') (sv_i sv'))
    \<and> (\<forall>b\<in>slive sfs - fblocks (sdisk sfs) (sv_i sv). sdisk sfs' ! b = sdisk sfs ! b)"
proof -
  from sfs_truncate_ok [OF assms] obtain sfs' sv' where
    t: "sfs_truncate sfs sv len = Some (Inr (), sfs', sv')" "truncated (nat len) sfs (sv_i sv) sfs' (sv_i sv')"
      "sfi_size (sv_i sv') = word_of_int len" by blast
  let ?d = "sdisk sfs" and ?i = "sv_i sv" and ?d' = "sdisk sfs'" and ?i' = "sv_i sv'"
  have finv: "finv ?d (slive sfs) ?i" using assms(1) by (simp add: vinv_def)
  have tr: "sinv sfs'" "sfs_super sfs' = sfs_super sfs" "inode_wf ?i'"
    "\<And>k. k < 143 \<Longrightarrow> fmap ?d' ?i' k = (if dropped (nat len) k then 0 else fmap ?d ?i k)"
    "sfi_indirect ?i' = sfi_indirect ?i \<or> sfi_indirect ?i' = 0"
    "\<And>c. sfi_indirect ?i = 0 \<or> c \<noteq> unat (sfi_indirect ?i) \<Longrightarrow> ?d' ! c = ?d ! c"
    and used: "sused sfs' = sused sfs - (dropset ?d ?i (nat len) {..<143}
      \<union> (if sfi_indirect ?i' = sfi_indirect ?i then {} else {unat (sfi_indirect ?i)}))"
    using t(2) unfolding truncated_def by blast+
  note drop = finv_drop [OF finv tr(3-5)]
  have "sused sfs' = sused sfs - (fblocks ?d ?i - fblocks ?d' ?i')"
    unfolding used by (rule arg_cong [where f = "(-) (sused sfs)"]) (simp add: drop(1) dropset_def)
  then have live: "slive sfs' = slive sfs - (fblocks ?d ?i - fblocks ?d' ?i')"
    unfolding slive_def tr(2) by blast
  have vinv': "vinv sfs' sv'" using drop(2) tr(1) by (simp add: vinv_def live)
  have ib: "unat (sfi_indirect ?i) \<in> fblocks ?d ?i" if "sfi_indirect ?i \<noteq> 0" using that by (auto simp: fblocks_def)
  have "take (nat len) (fimg sfs' sv') = take (nat len) (fimg sfs sv)"
  proof (rule fimage_prefix [OF length_fblk [OF assms(1)] length_fblk [OF vinv']])
    fix k :: nat
    assume k: "k < (nat len + 511) div 512" "k < 143"
    then have "fmap ?d' ?i' k = fmap ?d ?i k" using tr(4) [OF k(2)] by (simp add: dropped_def)
    then show "fblk ?d' ?i' k = fblk ?d ?i k"
      using tr(6) [of "unat (fmap ?d ?i k)"] finv_not_indirect [OF finv k(2)] by (auto simp: fblk_def)
  next
    show "nat len \<le> 512 * ((nat len + 511) div 512)" by simp
  qed
  moreover have "\<forall>b\<in>slive sfs - fblocks ?d ?i. ?d' ! b = ?d ! b" using tr(6) ib by (metis DiffD2)
  moreover have "\<forall>k<143. fmap ?d' ?i' k = (if (if k < 15 then (nat len + 511) div 512 \<le> k else (nat len + 511) div 512 < k)
      then 0 else fmap ?d ?i k)" using tr(4) unfolding dropped_def by blast
  ultimately show ?thesis using t(1,3) vinv' live by (intro exI [of _ sfs'] exI [of _ sv'] conjI)
qed

theorem sfs_truncate_correct_witness:
  "\<exists>sfs' sv'. sfs_truncate sfs_ex sv_ex 0 = Some (Inr (), sfs', sv') \<and> vinv sfs' sv' \<and> sfi_size (sv_i sv') = 0
    \<and> fmap (sdisk sfs') (sv_i sv') 0 = 0"
  using sfs_truncate_correct [OF ex_vinv, of 0] by fastforce

end
