(* ===== verification/Sfs_Dir.thy ===== *)
theory Sfs_Dir
  imports Sfs_Fileio
begin

text \<open>
  Directories of SFS: the directory I/O of \<^verbatim>\<open>kern/fs/sfs/sfs_vnode.c\<close>. A name is the sequence of
  bytes of a kernel string before its terminator.
\<close>

section \<open>Model\<close>

text \<open>The string at the start of a character array.\<close>
definition cstr :: "u8 list \<Rightarrow> u8 list" where
  "cstr bs = takeWhile (\<lambda>b. b \<noteq> 0) bs"

text \<open>The offset of a slot: \<^verbatim>\<open>slot * sizeof(struct sfs_dir)\<close> is computed in \<^verbatim>\<open>size_t\<close>.\<close>
definition dir_pos :: "int \<Rightarrow> int" where
  "dir_pos slot = s32 (uint (word_of_int slot * 64 :: u32))"

definition sfs_readdir :: "sfs_fs \<Rightarrow> sfs_vnode \<Rightarrow> int \<Rightarrow> ((errno + sfs_dir) \<times> sfs_fs \<times> sfs_vnode) option" where
  "sfs_readdir sfs sv slot = do {
     (result, sfs, sv, ku) \<leftarrow> sfs_io sfs sv (mk_kuio (replicate 64 0) 0 64 (dir_pos slot) UIO_READ);
     case result of
       Inl err \<Rightarrow> Some (Inl err, sfs, sv)
     | Inr _ \<Rightarrow> do {
         kassert (\<not> uio_resid ku > 0);
         Some (Inr (dir_of (iov_kbuf ku)), sfs, sv)
       }
   }"

definition sfs_writedir :: "sfs_fs \<Rightarrow> sfs_vnode \<Rightarrow> sfs_dir \<Rightarrow> int \<Rightarrow> ((errno + unit) \<times> sfs_fs \<times> sfs_vnode) option" where
  "sfs_writedir sfs sv sd slot = do {
     kassert (slot \<ge> 0);
     (result, sfs, sv, ku) \<leftarrow> sfs_io sfs sv (mk_kuio (dir_bytes sd) 0 64 (dir_pos slot) UIO_WRITE);
     case result of
       Inl err \<Rightarrow> Some (Inl err, sfs, sv)
     | Inr _ \<Rightarrow> do {
         kassert (\<not> uio_resid ku > 0);
         Some (Inr (), sfs, sv)
       }
   }"

definition sfs_dir_nentries :: "sfs_vnode \<Rightarrow> int option" where
  "sfs_dir_nentries sv = do {
     kassert (sfi_type (sv_i sv) = 2);
     kassert (sfi_size (sv_i sv) mod 64 = 0);
     Some (uint (sfi_size (sv_i sv) div 64))
   }"

text \<open>
  The loop of \<^verbatim>\<open>sfs_dir_findname\<close> for the \<open>n\<close> slots from \<open>i\<close> on. \<open>found\<close> is what has been stored
  through \<^verbatim>\<open>ino\<close> and \<^verbatim>\<open>slot\<close>, \<open>emptyslot\<close> what has been stored through \<^verbatim>\<open>emptyslot\<close>.
\<close>
primrec sfs_dir_findname_loop :: "nat \<Rightarrow> int \<Rightarrow> u8 list \<Rightarrow> (u32 \<times> int) option \<Rightarrow> int option \<Rightarrow> sfs_fs \<Rightarrow> sfs_vnode
    \<Rightarrow> ((errno + unit) \<times> (u32 \<times> int) option \<times> int option \<times> sfs_fs \<times> sfs_vnode) option" where
  "sfs_dir_findname_loop 0 i name found emptyslot sfs sv = Some (Inr (), found, emptyslot, sfs, sv)"
| "sfs_dir_findname_loop (Suc n) i name found emptyslot sfs sv = do {
     (result, sfs, sv) \<leftarrow> sfs_readdir sfs sv i;
     case result of
       Inl err \<Rightarrow> Some (Inl err, found, emptyslot, sfs, sv)
     | Inr tsd \<Rightarrow>
         if sfd_ino tsd = 0
         then sfs_dir_findname_loop n (i + 1) name found (Some i) sfs sv
         else if cstr ((sfd_name tsd)[59 := 0]) = name
         then do {
           kassert (found = None);
           sfs_dir_findname_loop n (i + 1) name (Some (sfd_ino tsd, i)) emptyslot sfs sv
         }
         else sfs_dir_findname_loop n (i + 1) name found emptyslot sfs sv
   }"

definition sfs_dir_findname :: "sfs_fs \<Rightarrow> sfs_vnode \<Rightarrow> u8 list
    \<Rightarrow> ((errno + u32 \<times> int) \<times> int option \<times> sfs_fs \<times> sfs_vnode) option" where
  "sfs_dir_findname sfs sv name = do {
     nentries \<leftarrow> sfs_dir_nentries sv;
     (result, found, emptyslot, sfs, sv) \<leftarrow> sfs_dir_findname_loop (nat nentries) 0 name None None sfs sv;
     case result of
       Inl err \<Rightarrow> Some (Inl err, emptyslot, sfs, sv)
     | Inr _ \<Rightarrow> Some (case found of Some f \<Rightarrow> Inr f | None \<Rightarrow> Inl ENOENT, emptyslot, sfs, sv)
   }"

text \<open>The result is the slot, or an error.\<close>
definition sfs_dir_link :: "sfs_fs \<Rightarrow> sfs_vnode \<Rightarrow> u8 list \<Rightarrow> u32 \<Rightarrow> ((errno + int) \<times> sfs_fs \<times> sfs_vnode) option" where
  "sfs_dir_link sfs sv name ino = do {
     (result, emptyslot, sfs, sv) \<leftarrow> sfs_dir_findname sfs sv name;
     case result of
       Inr _ \<Rightarrow> Some (Inl EEXIST, sfs, sv)
     | Inl err \<Rightarrow>
         if err \<noteq> ENOENT then Some (Inl err, sfs, sv)
         else if length name + 1 > 60 then Some (Inl ENAMETOOLONG, sfs, sv)
         else do {
           slot \<leftarrow> (case emptyslot of Some s \<Rightarrow> Some s | None \<Rightarrow> sfs_dir_nentries sv);
           let sd = \<lparr>sfd_ino = ino, sfd_name = name @ replicate (60 - length name) 0\<rparr>;
           (result, sfs, sv) \<leftarrow> sfs_writedir sfs sv sd slot;
           Some (map_sum id (\<lambda>_. slot) result, sfs, sv)
         }
   }"

definition sfs_dir_unlink :: "sfs_fs \<Rightarrow> sfs_vnode \<Rightarrow> int \<Rightarrow> ((errno + unit) \<times> sfs_fs \<times> sfs_vnode) option" where
  "sfs_dir_unlink sfs sv slot = sfs_writedir sfs sv \<lparr>sfd_ino = 0, sfd_name = replicate 60 0\<rparr> slot"

section \<open>Directories as lists of entries\<close>

text \<open>The entries of a directory, its size in slots, and the names in use.\<close>
definition dslots :: "sfs_vnode \<Rightarrow> nat" where
  "dslots sv = unat (sfi_size (sv_i sv)) div 64"

definition dents :: "sfs_fs \<Rightarrow> sfs_vnode \<Rightarrow> sfs_dir list" where
  "dents sfs sv = map (\<lambda>s. dir_of (take 64 (drop (64 * s) (fimg sfs sv)))) [0..<dslots sv]"

definition ename :: "sfs_dir \<Rightarrow> u8 list" where
  "ename e = cstr ((sfd_name e)[59 := 0])"

definition dmap :: "sfs_dir list \<Rightarrow> u8 list \<Rightarrow> u32 option" where
  "dmap es = map_of (map (\<lambda>e. (ename e, sfd_ino e)) (filter (\<lambda>e. sfd_ino e \<noteq> 0) es))"

text \<open>Each name appears at most once.\<close>
definition names_unique :: "sfs_dir list \<Rightarrow> bool" where
  "names_unique es \<longleftrightarrow>
     (\<forall>k<length es. \<forall>l<length es. sfd_ino (es ! k) \<noteq> 0 \<and> sfd_ino (es ! l) \<noteq> 0 \<and> ename (es ! k) = ename (es ! l) \<longrightarrow> k = l)"

definition dinv :: "sfs_fs \<Rightarrow> sfs_vnode \<Rightarrow> bool" where
  "dinv sfs sv \<longleftrightarrow> vinv sfs sv \<and> sfi_type (sv_i sv) = 2 \<and> unat (sfi_size (sv_i sv)) mod 64 = 0
     \<and> unat (sfi_size (sv_i sv)) \<le> 73216 \<and> names_unique (dents sfs sv)"

lemma length_dents [simp]: "length (dents sfs sv) = dslots sv"
  by (simp add: dents_def)

lemma nth_dents: "s < dslots sv \<Longrightarrow> dents sfs sv ! s = dir_of (take 64 (drop (64 * s) (fimg sfs sv)))"
  by (simp add: dents_def)

lemma dslots_bound: "dinv sfs sv \<Longrightarrow> 64 * dslots sv = unat (sfi_size (sv_i sv))" "dinv sfs sv \<Longrightarrow> dslots sv \<le> 1144"
  by (auto simp: dinv_def dslots_def)

lemma dir_pos_slot: "s \<le> 1144 \<Longrightarrow> dir_pos (int s) = 64 * int s"
proof -
  assume s: "s \<le> 1144"
  have "unat (of_nat s * 64 :: u32) = s * 64" using s by (simp add: unat_word_ariths unat_of_nat_u32)
  then have "uint (of_nat s * 64 :: u32) = int (s * 64)" by (metis of_nat_unat)
  then show ?thesis using s s32_of_nat [of "s * 64"] by (simp add: dir_pos_def)
qed

lemma sfs_dir_nentries_ok: "dinv sfs sv \<Longrightarrow> sfs_dir_nentries sv = Some (int (dslots sv))"
proof -
  assume d: "dinv sfs sv"
  have "unat (sfi_size (sv_i sv) mod 64) = 0" using d by (simp add: dinv_def unat_mod)
  then have "sfi_size (sv_i sv) mod 64 = 0" by (simp add: unat_eq_zero)
  moreover have "uint (sfi_size (sv_i sv) div 64) = int (dslots sv)" by (simp add: dslots_def uint_div of_nat_div)
  ultimately show ?thesis using d by (simp add: sfs_dir_nentries_def dinv_def)
qed

section \<open>Reading a directory\<close>

lemma dinv_same:
  assumes "dinv sfs sv" "fstep sfs sv sfs' sv" "sdisk sfs' = sdisk sfs"
  shows "dinv sfs' sv" "dents sfs' sv = dents sfs sv"
  using assms fstep_vinv [OF assms(2)] by (simp_all add: dinv_def dents_def)

lemma sfs_readdir_ok:
  assumes d: "dinv sfs sv" and s: "s < dslots sv"
  shows "\<exists>sfs'. sfs_readdir sfs sv (int s) = Some (Inr (dents sfs sv ! s), sfs', sv)
    \<and> fstep sfs sv sfs' sv \<and> sdisk sfs' = sdisk sfs"
proof -
  let ?u = "mk_kuio (replicate 64 0) 0 64 (64 * int s) UIO_READ" and ?x = "take 64 (drop (64 * s) (fimg sfs sv))"
  note b = dslots_bound [OF d]
  have vinv: "vinv sfs sv" and sz: "unat (sfi_size (sv_i sv)) \<le> 73216" using d by (simp_all add: dinv_def)
  have le: "64 * s + 64 \<le> unat (sfi_size (sv_i sv))" using b(1) s by linarith
  have u: "uok ?u" using s b by (simp add: uok_def ureg_mk_kuio nat_mult_distrib)
  have x: "length ?x = 64" using le sz length_fimg [OF vinv] by simp
  have pos: "nat (64 * int s) = 64 * s" by (simp add: nat_mult_distrib)
  have "take 64 (drop (64 * s) (take (unat (sfi_size (sv_i sv))) (fimg sfs sv))) = ?x"
    using le by (simp add: drop_take)
  then obtain sfs' where io: "sfs_io sfs sv ?u = Some (Inr (), sfs', sv, usend ?x ?u)" "fstep sfs sv sfs' sv" "sdisk sfs' = sdisk sfs"
    using sfs_io_read [OF vinv u _ sz] pos by auto
  have dp: "dir_pos (int s) = 64 * int s" using s b(2) by (intro dir_pos_slot) simp
  have "patch (replicate 64 0) 0 ?x = ?x" using x by (simp add: patch_def)
  then have "sfs_readdir sfs sv (int s) = Some (Inr (dir_of ?x), sfs', sv)"
    using io(1) x unfolding sfs_readdir_def dp by simp
  then show ?thesis using io(2,3) s by (auto simp: nth_dents)
qed

text \<open>The search over the entries \<open>es\<close> of the slots from \<open>i\<close> on.\<close>
fun dscan :: "u8 list \<Rightarrow> int \<Rightarrow> sfs_dir list \<Rightarrow> (u32 \<times> int) option \<times> int option \<Rightarrow> (u32 \<times> int) option \<times> int option" where
  "dscan name i [] (found, es0) = (found, es0)"
| "dscan name i (e # es) (found, es0) =
     (if sfd_ino e = 0 then dscan name (i + 1) es (found, Some i)
      else if ename e = name then dscan name (i + 1) es (Some (sfd_ino e, i), es0)
      else dscan name (i + 1) es (found, es0))"

definition matches :: "u8 list \<Rightarrow> sfs_dir \<Rightarrow> bool" where
  "matches name e \<longleftrightarrow> sfd_ino e \<noteq> 0 \<and> ename e = name"

lemma dscan_slot:
  "snd (dscan name i es (found, es0)) = Some s \<Longrightarrow>
    es0 = Some s \<or> (\<exists>k<length es. s = i + int k \<and> sfd_ino (es ! k) = 0)"
proof (induction es arbitrary: i found es0)
  case (Cons e es)
  have step: "\<exists>k<length (e # es). s = i + int k \<and> sfd_ino ((e # es) ! k) = 0"
    if later: "\<exists>k<length es. s = i + 1 + int k \<and> sfd_ino (es ! k) = 0"
  proof -
    obtain k where "k < length es" "s = i + 1 + int k" "sfd_ino (es ! k) = 0" using later by blast
    then show ?thesis by (intro exI [of _ "Suc k"]) simp
  qed
  show ?case
  proof (cases "sfd_ino e = 0")
    case True
    then have "Some i = Some s \<or> (\<exists>k<length es. s = i + 1 + int k \<and> sfd_ino (es ! k) = 0)"
      using Cons.prems by (intro Cons.IH [of _ found]) simp
    moreover have "\<exists>k<length (e # es). i = i + int k \<and> sfd_ino ((e # es) ! k) = 0"
      using True by (intro exI [of _ 0]) simp
    ultimately show ?thesis using step by blast
  next
    case False
    then have "es0 = Some s \<or> (\<exists>k<length es. s = i + 1 + int k \<and> sfd_ino (es ! k) = 0)"
      using Cons.prems Cons.IH [of "i + 1" _ es0] by (auto split: if_splits)
    then show ?thesis using step by blast
  qed
qed simp

lemma dscan_none: "\<forall>e\<in>set es. \<not> matches name e \<Longrightarrow> fst (dscan name i es (found, es0)) = found"
  by (induction es arbitrary: i found es0) (auto simp: matches_def)

lemma dscan_append: "dscan name i (xs @ ys) p = dscan name (i + int (length xs)) ys (dscan name i xs p)"
proof (induction xs arbitrary: i p)
  case Nil
  show ?case by (cases p) simp
next
  case (Cons x xs)
  then show ?case by (cases p) (simp add: algebra_simps)
qed

lemma dscan_some:
  assumes "k < length es" "matches name (es ! k)" "\<And>l. l < length es \<Longrightarrow> matches name (es ! l) \<Longrightarrow> l = k"
  shows "fst (dscan name i es (found, es0)) = Some (sfd_ino (es ! k), i + int k)"
proof -
  have no: "\<forall>e\<in>set (drop (Suc k) es). \<not> matches name e"
  proof
    fix e
    assume "e \<in> set (drop (Suc k) es)"
    then obtain l where "l < length es - Suc k" "e = es ! (Suc k + l)" by (auto simp: in_set_conv_nth)
    then show "\<not> matches name e" using assms(3) [of "Suc k + l"] by (auto simp: less_diff_conv)
  qed
  obtain f0 e0 where p: "dscan name i (take k es) (found, es0) = (f0, e0)" by fastforce
  have "dscan name i es (found, es0) = dscan name i (take k es @ es ! k # drop (Suc k) es) (found, es0)"
    using assms(1) by (simp add: id_take_nth_drop [symmetric])
  also have "\<dots> = dscan name (i + int k) (es ! k # drop (Suc k) es) (f0, e0)"
    using assms(1) by (simp add: dscan_append p min_def del: dscan.simps)
  also have "fst \<dots> = Some (sfd_ino (es ! k), i + int k)"
    using assms(2) dscan_none [OF no] by (simp add: matches_def)
  finally show ?thesis .
qed

lemma unique_match:
  assumes "dinv sfs sv" "k < dslots sv" "matches name (dents sfs sv ! k)" "l < dslots sv" "matches name (dents sfs sv ! l)"
  shows "k = l"
  using assms unfolding dinv_def names_unique_def matches_def length_dents by blast

text \<open>The loop computes the search, given that no name appears twice.\<close>
lemma sfs_dir_findname_loop_ok:
  assumes "dinv sfs sv" "n + i = dslots sv" "found \<noteq> None \<longrightarrow> (\<forall>k. i \<le> k \<and> k < dslots sv \<longrightarrow> \<not> matches name (dents sfs sv ! k))"
  shows "\<exists>sfs'. sfs_dir_findname_loop n (int i) name found es0 sfs sv =
      Some (Inr (), fst (dscan name (int i) (drop i (dents sfs sv)) (found, es0)),
        snd (dscan name (int i) (drop i (dents sfs sv)) (found, es0)), sfs', sv)
    \<and> fstep sfs sv sfs' sv \<and> sdisk sfs' = sdisk sfs"
  using assms
proof (induction n arbitrary: i found es0 sfs)
  case 0
  then show ?case using fstep_refl [of sfs sv] by (simp add: dinv_def)
next
  case (Suc n)
  let ?e = "dents sfs sv ! i"
  have i: "i < dslots sv" "n + Suc i = dslots sv" using Suc.prems by simp_all
  from sfs_readdir_ok [OF Suc.prems(1) i(1)] obtain s where
    rd: "sfs_readdir sfs sv (int i) = Some (Inr ?e, s, sv)" and st: "fstep sfs sv s sv" "sdisk s = sdisk sfs" by blast
  note same = dinv_same [OF Suc.prems(1) st]
  have dr: "drop i (dents sfs sv) = ?e # drop (Suc i) (dents sfs sv)" using i(1) by (simp add: Cons_nth_drop_Suc)
  have IH: "\<exists>sfs'. sfs_dir_findname_loop n (int i + 1) name f es s sv =
      Some (Inr (), fst (dscan name (int i + 1) (drop (Suc i) (dents sfs sv)) (f, es)),
        snd (dscan name (int i + 1) (drop (Suc i) (dents sfs sv)) (f, es)), sfs', sv)
    \<and> fstep sfs sv sfs' sv \<and> sdisk sfs' = sdisk sfs"
    if "f \<noteq> None \<longrightarrow> (\<forall>k. Suc i \<le> k \<and> k < dslots sv \<longrightarrow> \<not> matches name (dents sfs sv ! k))" for f es
  proof -
    from Suc.IH [OF same(1) i(2), of f es] that obtain sfs' where
      "sfs_dir_findname_loop n (int (Suc i)) name f es s sv =
        Some (Inr (), fst (dscan name (int (Suc i)) (drop (Suc i) (dents sfs sv)) (f, es)),
          snd (dscan name (int (Suc i)) (drop (Suc i) (dents sfs sv)) (f, es)), sfs', sv)"
      "fstep s sv sfs' sv" "sdisk sfs' = sdisk s" unfolding same(2) by blast
    then show ?thesis using fstep_trans [OF st(1)] st(2) by (auto simp: add.commute)
  qed
  consider (free) "sfd_ino ?e = 0" | (hit) "matches name ?e" | (miss) "sfd_ino ?e \<noteq> 0" "ename ?e \<noteq> name"
    by (auto simp: matches_def)
  then show ?case
  proof cases
    case free
    then show ?thesis using IH [of found "Some (int i)"] Suc.prems(3) rd by (simp add: dr)
  next
    case hit
    have "found = None" using Suc.prems(3) hit i(1) by blast
    moreover have "\<not> matches name (dents sfs sv ! k)" if "Suc i \<le> k" "k < dslots sv" for k
      using unique_match [OF Suc.prems(1) i(1) hit that(2)] that(1) by auto
    ultimately show ?thesis using IH [of "Some (sfd_ino ?e, int i)" es0] rd hit
      by (simp add: dr matches_def ename_def)
  next
    case miss
    then show ?thesis using IH [of found es0] Suc.prems(3) rd by (simp add: dr ename_def)
  qed
qed

lemma sfs_dir_findname_ok:
  assumes d: "dinv sfs sv"
  shows "\<exists>r empt sfs'. sfs_dir_findname sfs sv name = Some (r, empt, sfs', sv) \<and> fstep sfs sv sfs' sv \<and> sdisk sfs' = sdisk sfs
    \<and> (case r of
         Inr (ino, slot) \<Rightarrow> \<exists>k<dslots sv. slot = int k \<and> matches name (dents sfs sv ! k) \<and> ino = sfd_ino (dents sfs sv ! k)
       | Inl e \<Rightarrow> e = ENOENT \<and> (\<forall>k<dslots sv. \<not> matches name (dents sfs sv ! k)))
    \<and> (\<forall>s. empt = Some s \<longrightarrow> (\<exists>k<dslots sv. s = int k \<and> sfd_ino (dents sfs sv ! k) = 0))"
proof -
  let ?sc = "dscan name 0 (dents sfs sv) (None, None)"
  from sfs_dir_findname_loop_ok [OF d, of "dslots sv" 0 None name None] obtain sfs' where
    l: "sfs_dir_findname_loop (dslots sv) 0 name None None sfs sv = Some (Inr (), fst ?sc, snd ?sc, sfs', sv)"
      "fstep sfs sv sfs' sv" "sdisk sfs' = sdisk sfs" by auto
  have slot: "\<exists>k<dslots sv. s = int k \<and> sfd_ino (dents sfs sv ! k) = 0" if "snd ?sc = Some s" for s
    using dscan_slot [OF that] by simp
  show ?thesis
  proof (cases "\<exists>k<dslots sv. matches name (dents sfs sv ! k)")
    case True
    then obtain k where k: "k < dslots sv" "matches name (dents sfs sv ! k)" by blast
    have "fst ?sc = Some (sfd_ino (dents sfs sv ! k), 0 + int k)"
      by (rule dscan_some) (use k unique_match [OF d] in auto)
    then show ?thesis using l slot k by (auto simp: sfs_dir_findname_def sfs_dir_nentries_ok [OF d])
  next
    case False
    then have "\<forall>e\<in>set (dents sfs sv). \<not> matches name e" by (auto simp: in_set_conv_nth)
    from dscan_none [OF this, of 0 None None] l slot False show ?thesis
      by (auto simp: sfs_dir_findname_def sfs_dir_nentries_ok [OF d])
  qed
qed

section \<open>Names\<close>

lemma dmap_iff:
  assumes "names_unique es"
  shows "dmap es n = Some i \<longleftrightarrow> (\<exists>k<length es. matches n (es ! k) \<and> sfd_ino (es ! k) = i)"
proof -
  have "e = e'" if "e \<in> set es" "e' \<in> set es" "sfd_ino e \<noteq> 0" "sfd_ino e' \<noteq> 0" "ename e = ename e'" for e e'
    using assms that by (auto simp: in_set_conv_nth names_unique_def)
  then have "dmap es n = Some i \<longleftrightarrow> (\<exists>e\<in>set es. matches n e \<and> sfd_ino e = i)"
  proof (induction es)
    case (Cons e es)
    then show ?case by (auto simp: dmap_def matches_def split: if_splits)
  qed (simp add: dmap_def)
  then show ?thesis by (metis in_set_conv_nth)
qed

lemma dmap_none_iff:
  assumes "names_unique es"
  shows "dmap es n = None \<longleftrightarrow> (\<forall>k<length es. \<not> matches n (es ! k))"
  using dmap_iff [OF assms, of n] by (cases "dmap es n") auto

text \<open>The entries after writing a slot in the table, or the one right after it.\<close>
definition dput :: "sfs_dir list \<Rightarrow> nat \<Rightarrow> sfs_dir \<Rightarrow> sfs_dir list" where
  "dput es s e = (if s < length es then es[s := e] else es @ [e])"

lemma length_dput: "s \<le> length es \<Longrightarrow> length (dput es s e) = max (length es) (s + 1)"
  by (auto simp: dput_def)

lemma nth_dput: "s \<le> length es \<Longrightarrow> k < max (length es) (s + 1) \<Longrightarrow> dput es s e ! k = (if k = s then e else es ! k)"
  by (auto simp: dput_def nth_append nth_list_update)

text \<open>A free slot is given to a name that is not in use.\<close>
lemma dput_link:
  assumes u: "names_unique es" and s: "s \<le> length es" "s < length es \<longrightarrow> sfd_ino (es ! s) = 0"
    and n: "\<forall>k<length es. \<not> matches n (es ! k)" and e: "matches n e"
  shows "names_unique (dput es s e)" "dmap (dput es s e) = (dmap es)(n \<mapsto> sfd_ino e)"
proof -
  have old: "es ! k = dput es s e ! k" "k < length es" if "k < max (length es) (s + 1)" "k \<noteq> s" for k
    using that s(1) by (auto simp: nth_dput)
  show u': "names_unique (dput es s e)"
    unfolding names_unique_def length_dput [OF s(1)]
    using u n e old nth_dput [OF s(1), of s e] unfolding names_unique_def matches_def by (metis less_max_iff_disj less_add_one)
  have at: "dput es s e ! s = e" "s < max (length es) (s + 1)" using nth_dput [OF s(1), of s e] by simp_all
  show "dmap (dput es s e) = (dmap es)(n \<mapsto> sfd_ino e)"
  proof
    fix x
    have "dmap (dput es s e) x = Some i \<longleftrightarrow> ((dmap es)(n \<mapsto> sfd_ino e)) x = Some i" for i
    proof (cases "x = n")
      case True
      then have "dmap (dput es s e) x = Some (sfd_ino e)" using at e length_dput [OF s(1)] dmap_iff [OF u'] by metis
      then show ?thesis using True by simp
    next
      case False
      have "(\<exists>k<max (length es) (s + 1). matches x (dput es s e ! k) \<and> sfd_ino (dput es s e ! k) = i)
          \<longleftrightarrow> (\<exists>k<length es. matches x (es ! k) \<and> sfd_ino (es ! k) = i)"
        using False e at(1) old s unfolding matches_def by (metis less_max_iff_disj)
      then show ?thesis using False by (simp add: dmap_iff [OF u'] dmap_iff [OF u] length_dput [OF s(1)])
    qed
    then show "dmap (dput es s e) x = ((dmap es)(n \<mapsto> sfd_ino e)) x" by (metis not_None_eq)
  qed
qed

text \<open>The slot of a name is freed.\<close>
lemma dput_unlink:
  assumes u: "names_unique es" and s: "s < length es" "matches n (es ! s)" and e: "sfd_ino e = 0"
  shows "names_unique (dput es s e)" "dmap (dput es s e) = (dmap es)(n := None)"
proof -
  have nth: "k < length es \<Longrightarrow> dput es s e ! k = (if k = s then e else es ! k)" for k using s(1) by (simp add: nth_dput)
  have len: "length (dput es s e) = length es" using s(1) by (simp add: length_dput)
  show u': "names_unique (dput es s e)" using u e unfolding names_unique_def len by (simp add: nth)
  show "dmap (dput es s e) = (dmap es)(n := None)"
  proof
    fix x
    have "dmap (dput es s e) x = Some i \<longleftrightarrow> ((dmap es)(n := None)) x = Some i" for i
    proof (cases "x = n")
      case True
      have "\<not> matches n (dput es s e ! k)" if "k < length es" for k
        using that u s e unfolding names_unique_def by (auto simp: nth matches_def)
      then show ?thesis using True by (auto simp: dmap_iff [OF u'] len)
    next
      case False
      then have "\<not> matches x (es ! s)" "\<not> matches x e" using s(2) e by (auto simp: matches_def)
      then have "(\<exists>k<length es. matches x (dput es s e ! k) \<and> sfd_ino (dput es s e ! k) = i)
          \<longleftrightarrow> (\<exists>k<length es. matches x (es ! k) \<and> sfd_ino (es ! k) = i)"
        by (metis nth)
      then show ?thesis using False by (simp add: dmap_iff [OF u'] dmap_iff [OF u] len)
    qed
    then show "dmap (dput es s e) x = ((dmap es)(n := None)) x" by (metis not_None_eq)
  qed
qed

section \<open>Writing a directory\<close>

text \<open>What a write to a directory keeps: all but its own blocks, its size and its block pointers.\<close>
definition dstep :: "sfs_fs \<Rightarrow> sfs_vnode \<Rightarrow> sfs_fs \<Rightarrow> sfs_vnode \<Rightarrow> bool" where
  "dstep sfs sv sfs' sv' \<longleftrightarrow> (\<exists>v. fstep sfs sv sfs' v
     \<and> (sv' = v \<or> (\<exists>n. sv' = v\<lparr>sv_i := (sv_i v)\<lparr>sfi_size := n\<rparr>, sv_dirty := True\<rparr>)))"

lemma take_drop_patch_other:
  assumes "p + n \<le> length xs" "q + length ys \<le> length xs" "p + n \<le> q \<or> q + length ys \<le> p"
  shows "take n (drop p (patch xs q ys)) = take n (drop p xs)"
  using assms by (intro nth_equalityI) (auto simp: nth_patch)

lemma dents_patch:
  assumes v: "vinv sfs sv" and img: "fimg sfs' sv' = patch (fimg sfs sv) (64 * s) (dir_bytes e)" and e: "dir_wf e"
    and s: "s \<le> dslots sv" "s < 1144" "dslots sv \<le> 1144" and sz: "dslots sv' = max (dslots sv) (s + 1)"
  shows "dents sfs' sv' = dput (dents sfs sv) s e"
proof (rule nth_equalityI)
  show "length (dents sfs' sv') = length (dput (dents sfs sv) s e)" using s(1) sz by (simp add: length_dput)
next
  fix k
  assume "k < length (dents sfs' sv')"
  then have k: "k < max (dslots sv) (s + 1)" using sz by simp
  have len: "length (dir_bytes e) = 64" "length (fimg sfs sv) = 73216"
    using e length_fimg [OF v] by (simp_all add: dir_roundtrip)
  have "take 64 (drop (64 * k) (patch (fimg sfs sv) (64 * s) (dir_bytes e)))
      = (if k = s then dir_bytes e else take 64 (drop (64 * k) (fimg sfs sv)))"
  proof (cases "k = s")
    case True
    then show ?thesis using len s by (simp add: take_drop_patch)
  next
    case False
    then have "64 * k + 64 \<le> 64 * s \<or> 64 * s + 64 \<le> 64 * k" by arith
    then show ?thesis using False len k s by (simp add: take_drop_patch_other)
  qed
  then show "dents sfs' sv' ! k = dput (dents sfs sv) s e ! k"
    using k s(1) sz e by (simp add: nth_dput nth_dents img dir_roundtrip)
qed

text \<open>The length of a directory after a slot has been written.\<close>
lemma dslots_write:
  assumes "dinv sfs sv" "s \<le> dslots sv" "s < 1144" "unat (sfi_size (sv_i sv')) = max (unat (sfi_size (sv_i sv))) (64 * s + 64)"
  shows "dslots sv' = max (dslots sv) (s + 1)" "unat (sfi_size (sv_i sv')) mod 64 = 0" "unat (sfi_size (sv_i sv')) \<le> 73216"
proof -
  have "unat (sfi_size (sv_i sv')) = 64 * max (dslots sv) (s + 1)"
    using assms(4) dslots_bound(1) [OF assms(1)] by (auto simp: max_def)
  then show "dslots sv' = max (dslots sv) (s + 1)" "unat (sfi_size (sv_i sv')) mod 64 = 0" "unat (sfi_size (sv_i sv')) \<le> 73216"
    using assms(2,3) dslots_bound(2) [OF assms(1)] by (simp_all add: dslots_def)
qed

lemma sfs_writedir_ok:
  assumes d: "dinv sfs sv" and s: "s \<le> dslots sv" and e: "dir_wf e"
  shows "\<exists>r sfs' sv'. sfs_writedir sfs sv e (int s) = Some (r, sfs', sv') \<and> dstep sfs sv sfs' sv' \<and> vinv sfs' sv'
    \<and> sfi_type (sv_i sv') = 2 \<and> unat (sfi_size (sv_i sv')) mod 64 = 0 \<and> unat (sfi_size (sv_i sv')) \<le> 73216
    \<and> (case r of
         Inr _ \<Rightarrow> s < 1144 \<and> dents sfs' sv' = dput (dents sfs sv) s e
       | Inl x \<Rightarrow> dents sfs' sv' = dents sfs sv
           \<and> (x = EINVAL \<and> s = 1144 \<or> x = ENOSPC \<and> sused sfs' = {..<unat (bm_nbits (sfs_freemap sfs'))}
             \<and> fmap (sdisk sfs) (sv_i sv) (64 * s div 512) = 0))"
proof -
  let ?u = "mk_kuio (dir_bytes e) 0 64 (64 * int s) UIO_WRITE"
  note b = dslots_bound [OF d]
  have vinv: "vinv sfs sv" and sz: "unat (sfi_size (sv_i sv)) \<le> 73216" and ty: "sfi_type (sv_i sv) = 2"
    using d by (simp_all add: dinv_def)
  have len: "length (dir_bytes e) = 64" using e by (simp add: dir_roundtrip)
  have reg: "ureg ?u = Some (dir_bytes e)" using len by (simp add: ureg_mk_kuio)
  have pos: "upos ?u = 64 * s" by (simp add: nat_mult_distrib)
  have u: "uok ?u" "uio_rw ?u = UIO_WRITE" using s b(2) pos reg by (simp_all add: uok_def)
  have dp: "dir_pos (int s) = 64 * int s" using s b(2) by (intro dir_pos_slot) simp
  have "64 * s mod 512 = 64 * (s mod 8)" using mult_mod_right [of 64 s 8] by simp
  then have "64 * s mod 512 + 64 \<le> 512" using mod_less_divisor [of 8 s] by simp
  with sfs_io_body_single [OF vinv u(1)] pos obtain r sfs' v u' where
    p: "sfs_io_body sfs sv ?u = Some (r, sfs', v, u')" "piece_post 64 sfs sv ?u r sfs' v u'" by auto
  define m where "m = (case r of Inr _ \<Rightarrow> 64 | Inl _ \<Rightarrow> (0 :: nat))"
  have mv: "moved m sfs sv ?u sfs' v u'" "m \<le> 64" using p(2) by (auto simp: piece_post_def m_def split: sum.splits)
  define sv' where "sv' = (if 64 * s + m > unat (sfi_size (sv_i sv))
        then v\<lparr>sv_i := (sv_i v)\<lparr>sfi_size := of_nat (64 * s + m)\<rparr>, sv_dirty := True\<rparr> else v)"
  have io: "sfs_io sfs sv ?u = Some (r, sfs', sv', uadv m ?u)"
    using sfs_io_write_body [OF vinv u _ p(1) _ mv(1)] mv(2) sz pos by (simp add: sv'_def)
  have st: "fstep sfs sv sfs' v" and img: "fimg sfs' sv' = patch (fimg sfs sv) (64 * s) (take m (dir_bytes e))"
    using mv(1) reg pos by (simp_all add: moved_def sv'_def)
  have keep: "dstep sfs sv sfs' sv'" "vinv sfs' sv'" "sfi_type (sv_i sv') = 2"
    using st fstep_vinv [OF st] ty by (auto simp: dstep_def vinv_def fstep_def sv'_def)
  have small: "64 * s + m < 2 ^ 32" using s b(2) mv(2) by simp
  have size: "unat (sfi_size (sv_i sv')) = max (unat (sfi_size (sv_i sv))) (64 * s + m)"
    using st unat_of_nat_u32 [OF small] by (auto simp: fstep_def sv'_def simp del: of_nat_add of_nat_mult)
  show ?thesis
  proof (cases r)
    case (Inr x)
    then have m: "m = 64" and lt: "s < 1144" using p(2) pos by (auto simp: m_def piece_post_def)
    note ds = dslots_write [OF d s lt size [unfolded m]]
    have "dents sfs' sv' = dput (dents sfs sv) s e"
      using img m len ds(1) by (intro dents_patch [OF vinv _ e s lt b(2)]) simp_all
    moreover have "sfs_writedir sfs sv e (int s) = Some (Inr (), sfs', sv')"
      using io Inr m unfolding sfs_writedir_def dp by (simp add: uadv_def)
    ultimately show ?thesis using keep ds(2,3) lt by simp
  next
    case (Inl x)
    then have m: "m = 0" by (simp add: m_def)
    have "\<not> 64 * s > unat (sfi_size (sv_i sv))" using s b(1) by linarith
    then have sv': "sv' = v" by (simp add: m sv'_def)
    have "dents sfs' v = dents sfs sv" using img st by (simp add: sv' m dents_def dslots_def fstep_def)
    moreover have "sfs_writedir sfs sv e (int s) = Some (Inl x, sfs', v)"
      using io Inl sv' unfolding sfs_writedir_def dp by simp
    moreover have "x = EINVAL \<and> s = 1144 \<or> x = ENOSPC \<and> sused sfs' = {..<unat (bm_nbits (sfs_freemap sfs'))}
        \<and> fmap (sdisk sfs) (sv_i sv) (64 * s div 512) = 0"
      using p(2) pos Inl s b(2) by (auto simp: piece_post_def)
    moreover have "unat (sfi_size (sv_i v)) mod 64 = 0" "unat (sfi_size (sv_i v)) \<le> 73216"
      using st d by (auto simp: fstep_def dinv_def)
    ultimately show ?thesis using keep unfolding sv' by simp
  qed
qed

lemma dinv_written:
  assumes "vinv sfs' sv'" "sfi_type (sv_i sv') = 2" "unat (sfi_size (sv_i sv')) mod 64 = 0"
    "unat (sfi_size (sv_i sv')) \<le> 73216" "dents sfs' sv' = es" "names_unique es"
  shows "dinv sfs' sv'"
  using assms by (simp add: dinv_def)

text \<open>The frame of a search followed by a write.\<close>
lemma fstep_dstep: "fstep sfs sv sfs' sv' \<Longrightarrow> dstep sfs' sv' sfs'' sv'' \<Longrightarrow> dstep sfs sv sfs'' sv''"
  unfolding dstep_def using fstep_trans [of sfs sv sfs' sv'] by blast

lemma cstr_name: "0 \<notin> set n \<Longrightarrow> length n < 60 \<Longrightarrow> cstr ((n @ replicate (60 - length n) 0)[59 := 0]) = n"
proof -
  assume n: "0 \<notin> set n" "length n < 60"
  then have "(n @ replicate (60 - length n) 0)[59 := 0] = n @ (replicate (60 - length n) 0)[59 - length n := 0]"
    by (simp add: list_update_append)
  also have "(replicate (60 - length n) (0::u8))[59 - length n := 0] = replicate (60 - length n) 0"
    by (rule nth_equalityI) (auto simp: nth_list_update)
  finally have "(n @ replicate (60 - length n) 0)[59 := 0] = n @ replicate (60 - length n) (0::u8)" .
  moreover have "\<forall>b\<in>set n. b \<noteq> 0" using n(1) by auto
  ultimately show ?thesis using n(2) by (simp add: cstr_def takeWhile_append2)
qed

lemma length_ename: "dir_wf e \<Longrightarrow> length (ename e) < 60"
proof -
  assume "dir_wf e"
  then have len: "length ((sfd_name e)[59 := 0]) = 60" "(sfd_name e)[59 := 0] ! 59 = 0" by (simp_all add: dir_wf_def)
  have "length (takeWhile (\<lambda>b. b \<noteq> 0) ((sfd_name e)[59 := 0])) \<le> 59"
  proof (rule ccontr)
    assume "\<not> ?thesis"
    then have "59 < length (takeWhile (\<lambda>b. b \<noteq> 0) ((sfd_name e)[59 := 0]))" by simp
    then show False using len(2) by (metis (mono_tags, lifting) nth_mem set_takeWhileD takeWhile_nth)
  qed
  then show ?thesis by (simp add: ename_def cstr_def)
qed

text \<open>The entries in use stay in their slots.\<close>
definition slots_kept :: "sfs_dir list \<Rightarrow> sfs_dir list \<Rightarrow> bool" where
  "slots_kept es es' \<longleftrightarrow> (\<forall>j<length es. sfd_ino (es ! j) \<noteq> 0 \<longrightarrow> j < length es' \<and> es' ! j = es ! j)"

lemma slots_kept_dput: "k \<le> length es \<Longrightarrow> k < length es \<longrightarrow> sfd_ino (es ! k) = 0 \<Longrightarrow> slots_kept es (dput es k e)"
  by (auto simp: slots_kept_def length_dput nth_dput)

lemma sfs_dir_link_ok:
  assumes d: "dinv sfs sv" and n: "0 \<notin> set name" and i: "ino \<noteq> 0"
  shows "\<exists>r sfs' sv'. sfs_dir_link sfs sv name ino = Some (r, sfs', sv') \<and> dinv sfs' sv' \<and> dstep sfs sv sfs' sv'
    \<and> (case r of
         Inr slot \<Rightarrow> dmap (dents sfs sv) name = None \<and> length name < 60
           \<and> dmap (dents sfs' sv') = (dmap (dents sfs sv))(name \<mapsto> ino)
           \<and> (\<exists>k<dslots sv'. slot = int k \<and> matches name (dents sfs' sv' ! k)) \<and> slots_kept (dents sfs sv) (dents sfs' sv')
       | Inl e \<Rightarrow> dents sfs' sv' = dents sfs sv
           \<and> (e = EEXIST \<and> dmap (dents sfs sv) name \<noteq> None
             \<or> e = ENAMETOOLONG \<and> dmap (dents sfs sv) name = None \<and> 60 \<le> length name
             \<or> e \<in> {EINVAL, ENOSPC} \<and> dmap (dents sfs sv) name = None \<and> length name < 60
               \<and> (dslots sv = 1144 \<or> sused sfs' = {..<unat (bm_nbits (sfs_freemap sfs'))})))"
proof -
  let ?es = "dents sfs sv"
  have u: "names_unique ?es" using d by (simp add: dinv_def)
  from sfs_dir_findname_ok [OF d, of name] obtain r empt sfs1 where f: "sfs_dir_findname sfs sv name = Some (r, empt, sfs1, sv)"
    and st: "fstep sfs sv sfs1 sv" "sdisk sfs1 = sdisk sfs"
    and r: "case r of
         Inr (ino, slot) \<Rightarrow> \<exists>k<dslots sv. slot = int k \<and> matches name (?es ! k) \<and> ino = sfd_ino (?es ! k)
       | Inl e \<Rightarrow> e = ENOENT \<and> (\<forall>k<dslots sv. \<not> matches name (?es ! k))"
    and empt: "\<And>s. empt = Some s \<Longrightarrow> \<exists>k<dslots sv. s = int k \<and> sfd_ino (?es ! k) = 0" by blast
  note same = dinv_same [OF d st]
  have none: "dmap ?es name = None \<longleftrightarrow> (\<exists>e. r = Inl e)"
    using r dmap_none_iff [OF u, of name] by (cases r) auto
  have ds: "dstep sfs sv sfs1 sv" using st(1) by (auto simp: dstep_def)
  consider (ex) x where "r = Inr x" | (long) "r = Inl ENOENT" "60 \<le> length name" | (ok) "r = Inl ENOENT" "length name < 60"
    using r not_le by (cases r) auto
  then show ?thesis
  proof cases
    case ex
    then show ?thesis using f none same ds by (simp add: sfs_dir_link_def)
  next
    case long
    then show ?thesis using f none same ds by (simp add: sfs_dir_link_def)
  next
    case ok
    define e where "e = \<lparr>sfd_ino = ino, sfd_name = name @ replicate (60 - length name) 0\<rparr>"
    have e: "dir_wf e" "matches name e" "sfd_ino e = ino"
      using ok(2) n i cstr_name [OF n ok(2)] by (simp_all add: e_def dir_wf_def matches_def ename_def)
    obtain k where k: "(case empt of Some s \<Rightarrow> Some s | None \<Rightarrow> sfs_dir_nentries sv) = Some (int k)" "k \<le> dslots sv"
      "k < dslots sv \<longrightarrow> sfd_ino (?es ! k) = 0"
      using empt sfs_dir_nentries_ok [OF d] by (cases empt) auto
    from sfs_writedir_ok [OF same(1) k(2) e(1)] obtain r' sfs' sv' where
      w: "sfs_writedir sfs1 sv e (int k) = Some (r', sfs', sv')" "dstep sfs1 sv sfs' sv'"
      and inv: "vinv sfs' sv'" "sfi_type (sv_i sv') = 2" "unat (sfi_size (sv_i sv')) mod 64 = 0" "unat (sfi_size (sv_i sv')) \<le> 73216"
      and r': "case r' of
         Inr _ \<Rightarrow> k < 1144 \<and> dents sfs' sv' = dput ?es k e
       | Inl x \<Rightarrow> dents sfs' sv' = ?es
           \<and> (x = EINVAL \<and> k = 1144 \<or> x = ENOSPC \<and> sused sfs' = {..<unat (bm_nbits (sfs_freemap sfs'))}
             \<and> fmap (sdisk sfs1) (sv_i sv) (64 * k div 512) = 0)"
      unfolding same(2) by (elim exE conjE) (rule that)
    have l: "sfs_dir_link sfs sv name ino = Some (map_sum id (\<lambda>_. int k) r', sfs', sv')"
      using f ok k(1) w(1) by (simp add: sfs_dir_link_def e_def)
    note fr = fstep_dstep [OF st(1) w(2)]
    show ?thesis
    proof (cases r')
      case (Inl x)
      then have "dinv sfs' sv'" using dinv_written [OF inv _ u] r' by simp
      moreover have "k = 1144 \<longrightarrow> dslots sv = 1144" using k(2) dslots_bound(2) [OF d] by simp
      ultimately show ?thesis using l fr Inl r' none ok by auto
    next
      case (Inr x)
      have nm: "\<forall>k<length ?es. \<not> matches name (?es ! k)" using r ok(1) by simp
      have k': "k \<le> length ?es" "k < length ?es \<longrightarrow> sfd_ino (?es ! k) = 0" using k by simp_all
      note p = dput_link [OF u k' nm e(2), unfolded e(3)]
      have de: "dents sfs' sv' = dput ?es k e" using Inr r' by simp
      have "length (dents sfs' sv') = max (length ?es) (k + 1)" by (simp only: de length_dput [OF k'(1)])
      then have "k < dslots sv'" by simp
      moreover have "matches name (dents sfs' sv' ! k)" using de k'(1) e(2) by (simp add: nth_dput)
      ultimately show ?thesis using l fr Inr de p none ok dinv_written [OF inv de p(1)] slots_kept_dput [OF k'] by auto
    qed
  qed
qed

text \<open>A slot in a block that the file does not have is empty.\<close>
lemma hole_entry:
  assumes d: "dinv sfs sv" and k: "k < dslots sv" and hole: "fmap (sdisk sfs) (sv_i sv) (64 * k div 512) = 0"
  shows "sfd_ino (dents sfs sv ! k) = 0"
proof -
  have v: "vinv sfs sv" and b: "k < 1144" using d k dslots_bound(2) [OF d] by (simp_all add: dinv_def)
  have "64 * k mod 512 = 64 * (k mod 8)" using mult_mod_right [of 64 k 8] by simp
  then have le: "64 * k mod 512 + 64 \<le> 512" using mod_less_divisor [of 8 k] by simp
  have "take 64 (drop (512 * (64 * k div 512) + 64 * k mod 512) (fimg sfs sv)) = replicate 64 0"
    using fimg_slice [OF v, of "64 * k div 512" "64 * k mod 512" 64] le b hole by (simp add: fblk_def)
  then have "take 64 (drop (64 * k) (fimg sfs sv)) = replicate 64 0" by (simp only: mult_div_mod_eq)
  then show ?thesis by (simp add: nth_dents [OF k] dir_of_def) code_simp
qed

text \<open>Freeing the slot of a name always succeeds: its block is there.\<close>
lemma sfs_dir_unlink_ok:
  assumes d: "dinv sfs sv" and k: "k < dslots sv" "matches name (dents sfs sv ! k)"
  shows "\<exists>sfs' sv'. sfs_dir_unlink sfs sv (int k) = Some (Inr (), sfs', sv') \<and> dinv sfs' sv' \<and> dstep sfs sv sfs' sv'
    \<and> dmap (dents sfs' sv') = (dmap (dents sfs sv))(name := None)"
proof -
  let ?e = "\<lparr>sfd_ino = 0, sfd_name = replicate 60 0\<rparr>"
  have u: "names_unique (dents sfs sv)" using d by (simp add: dinv_def)
  have wf: "dir_wf ?e" "sfd_ino ?e = 0" by (simp_all add: dir_wf_def)
  from k(1) have le: "k \<le> dslots sv" by simp
  from sfs_writedir_ok [OF d le wf(1), folded sfs_dir_unlink_def] obtain r sfs' sv' where
    w: "sfs_dir_unlink sfs sv (int k) = Some (r, sfs', sv')" "dstep sfs sv sfs' sv'"
    and inv: "vinv sfs' sv'" "sfi_type (sv_i sv') = 2" "unat (sfi_size (sv_i sv')) mod 64 = 0" "unat (sfi_size (sv_i sv')) \<le> 73216"
    and r: "case r of
         Inr _ \<Rightarrow> k < 1144 \<and> dents sfs' sv' = dput (dents sfs sv) k ?e
       | Inl x \<Rightarrow> dents sfs' sv' = dents sfs sv
           \<and> (x = EINVAL \<and> k = 1144 \<or> x = ENOSPC \<and> sused sfs' = {..<unat (bm_nbits (sfs_freemap sfs'))}
             \<and> fmap (sdisk sfs) (sv_i sv) (64 * k div 512) = 0)"
    by (elim exE conjE) (rule that)
  show ?thesis
  proof (cases r)
    case (Inl x)
    then have "fmap (sdisk sfs) (sv_i sv) (64 * k div 512) = 0" using r k(1) dslots_bound(2) [OF d] by simp
    then show ?thesis using hole_entry [OF d k(1)] k(2) by (simp add: matches_def)
  next
    case (Inr x)
    then have de: "dents sfs' sv' = dput (dents sfs sv) k ?e" using r by simp
    from k have k': "k < length (dents sfs sv)" "matches name (dents sfs sv ! k)" by simp_all
    note p = dput_unlink [OF u k' wf(2)]
    then show ?thesis using w Inr de dinv_written [OF inv de p(1)] by auto
  qed
qed

section \<open>Directories as name spaces\<close>

text \<open>
  The contract of a directory: its view is a finite map from names to inode numbers; \<open>find\<close>
  reads it and tells the slot of a name, \<open>link\<close> adds a binding, \<open>unlink\<close> frees the slot of a name.
\<close>
locale name_space =
  fixes inv :: "'s \<Rightarrow> bool" and view :: "'s \<Rightarrow> u8 list \<Rightarrow> u32 option" and at_slot :: "'s \<Rightarrow> u8 list \<Rightarrow> int \<Rightarrow> bool"
    and find :: "u8 list \<Rightarrow> 's \<Rightarrow> ((errno + u32 \<times> int) \<times> 's) option"
    and link :: "u8 list \<Rightarrow> u32 \<Rightarrow> 's \<Rightarrow> ((errno + int) \<times> 's) option"
    and unlink :: "int \<Rightarrow> 's \<Rightarrow> ((errno + unit) \<times> 's) option"
  assumes find_law: "inv s \<Longrightarrow> \<exists>r s'. find n s = Some (r, s') \<and> inv s' \<and> view s' = view s
      \<and> (case view s n of None \<Rightarrow> r = Inl ENOENT | Some i \<Rightarrow> \<exists>k. r = Inr (i, k) \<and> at_slot s' n k)"
    and link_law: "inv s \<Longrightarrow> 0 \<notin> set n \<Longrightarrow> i \<noteq> 0 \<Longrightarrow> \<exists>r s'. link n i s = Some (r, s') \<and> inv s'
      \<and> (case r of Inr k \<Rightarrow> view s n = None \<and> view s' = (view s)(n \<mapsto> i) \<and> at_slot s' n k | Inl e \<Rightarrow> view s' = view s)"
    and unlink_law: "inv s \<Longrightarrow> at_slot s n k \<Longrightarrow> \<exists>s'. unlink k s = Some (Inr (), s') \<and> inv s' \<and> view s' = (view s)(n := None)"
begin

lemma find_after_link:
  assumes "inv s" "0 \<notin> set n" "i \<noteq> 0" "link n i s = Some (Inr k, s')"
  shows "\<exists>k' s''. find n s' = Some (Inr (i, k'), s'') \<and> view s'' = view s'"
proof -
  from link_law [OF assms(1-3)] assms(4) have l: "inv s'" "view s' n = Some i" by auto
  from find_law [OF l(1), of n] l(2) show ?thesis by auto
qed

lemma unlink_after_link:
  assumes "inv s" "0 \<notin> set n" "i \<noteq> 0" "link n i s = Some (Inr k, s')"
  shows "\<exists>s''. unlink k s' = Some (Inr (), s'') \<and> view s'' = view s"
proof -
  from link_law [OF assms(1-3)] assms(4)
  have l: "inv s'" "view s n = None" "view s' = (view s)(n \<mapsto> i)" "at_slot s' n k" by auto
  have "(view s')(n := None) = view s" using l(2,3) by (auto simp: fun_eq_iff)
  then show ?thesis using unlink_law [OF l(1,4)] by auto
qed

text \<open>Looking a name up and freeing its slot removes the name; it is then not found.\<close>
lemma remove_name:
  assumes "inv s" "find n s = Some (Inr (i, k), s')"
  shows "\<exists>s''. unlink k s' = Some (Inr (), s'') \<and> view s'' = (view s)(n := None) \<and> (\<exists>s3. find n s'' = Some (Inl ENOENT, s3))"
proof -
  from find_law [OF assms(1), of n] assms(2) have f: "inv s'" "view s' = view s" "at_slot s' n k"
    by (auto split: option.splits)
  from unlink_law [OF f(1,3)] obtain s'' where u: "unlink k s' = Some (Inr (), s'')" "inv s''" "view s'' = (view s')(n := None)" by blast
  from find_law [OF u(2), of n] u(3) have "\<exists>s3. find n s'' = Some (Inl ENOENT, s3)" by auto
  then show ?thesis using u f(2) by auto
qed

end

text \<open>The operations of a directory on the pair of the volume and the vnode.\<close>
definition dir_inv :: "sfs_fs \<times> sfs_vnode \<Rightarrow> bool" where
  "dir_inv s = dinv (fst s) (snd s)"

definition dir_view :: "sfs_fs \<times> sfs_vnode \<Rightarrow> u8 list \<Rightarrow> u32 option" where
  "dir_view s = dmap (dents (fst s) (snd s))"

definition dir_at :: "sfs_fs \<times> sfs_vnode \<Rightarrow> u8 list \<Rightarrow> int \<Rightarrow> bool" where
  "dir_at s n slot \<longleftrightarrow> (\<exists>k<dslots (snd s). slot = int k \<and> matches n (dents (fst s) (snd s) ! k))"

definition dir_find :: "u8 list \<Rightarrow> sfs_fs \<times> sfs_vnode \<Rightarrow> ((errno + u32 \<times> int) \<times> sfs_fs \<times> sfs_vnode) option" where
  "dir_find n s = map_option (\<lambda>(r, _, s'). (r, s')) (sfs_dir_findname (fst s) (snd s) n)"

interpretation sfsdir: name_space dir_inv dir_view dir_at dir_find
  "\<lambda>n i s. sfs_dir_link (fst s) (snd s) n i" "\<lambda>k s. sfs_dir_unlink (fst s) (snd s) k"
proof
  fix s n
  assume "dir_inv s"
  then have d: "dinv (fst s) (snd s)" by (simp add: dir_inv_def)
  then have u: "names_unique (dents (fst s) (snd s))" by (simp add: dinv_def)
  from sfs_dir_findname_ok [OF d, of n] obtain r empt sfs' where
    f: "sfs_dir_findname (fst s) (snd s) n = Some (r, empt, sfs', snd s)" "fstep (fst s) (snd s) sfs' (snd s)" "sdisk sfs' = sdisk (fst s)"
    "case r of
         Inr (ino, slot) \<Rightarrow> \<exists>k<dslots (snd s). slot = int k \<and> matches n (dents (fst s) (snd s) ! k) \<and> ino = sfd_ino (dents (fst s) (snd s) ! k)
       | Inl e \<Rightarrow> e = ENOENT \<and> (\<forall>k<dslots (snd s). \<not> matches n (dents (fst s) (snd s) ! k))" by blast
  note same = dinv_same [OF d f(2,3)]
  show "\<exists>r s'. dir_find n s = Some (r, s') \<and> dir_inv s' \<and> dir_view s' = dir_view s
      \<and> (case dir_view s n of None \<Rightarrow> r = Inl ENOENT | Some i \<Rightarrow> \<exists>k. r = Inr (i, k) \<and> dir_at s' n k)"
  proof (cases r)
    case (Inl e)
    then have "dir_view s n = None" using f(4) dmap_none_iff [OF u] by (simp add: dir_view_def)
    then show ?thesis using Inl f(1,4) same by (simp add: dir_find_def dir_inv_def dir_view_def)
  next
    case (Inr x)
    then obtain ino k where x: "x = (ino, int k)" "k < dslots (snd s)" "matches n (dents (fst s) (snd s) ! k)"
      "ino = sfd_ino (dents (fst s) (snd s) ! k)" using f(4) by (cases x) auto
    then have "dir_view s n = Some ino" using dmap_iff [OF u] by (auto simp: dir_view_def)
    then show ?thesis using Inr f(1) same x by (auto simp: dir_find_def dir_inv_def dir_view_def dir_at_def)
  qed
next
  fix s n i
  assume "dir_inv s" "(0::u8) \<notin> set n" "(i::u32) \<noteq> 0"
  then have "dinv (fst s) (snd s)" "0 \<notin> set n" "i \<noteq> 0" by (simp_all add: dir_inv_def)
  from sfs_dir_link_ok [OF this]
  show "\<exists>r s'. sfs_dir_link (fst s) (snd s) n i = Some (r, s') \<and> dir_inv s' \<and> (case r of
      Inr k \<Rightarrow> dir_view s n = None \<and> dir_view s' = (dir_view s)(n \<mapsto> i) \<and> dir_at s' n k | Inl e \<Rightarrow> dir_view s' = dir_view s)"
    unfolding dir_inv_def dir_view_def dir_at_def by (elim exE, rename_tac r sfs' sv', case_tac r) auto
next
  fix s n k
  assume "dir_inv s" "dir_at s n k"
  then obtain j where "dinv (fst s) (snd s)" "j < dslots (snd s)" "matches n (dents (fst s) (snd s) ! j)" "k = int j"
    by (auto simp: dir_inv_def dir_at_def)
  with sfs_dir_unlink_ok [OF this(1-3)]
  show "\<exists>s'. sfs_dir_unlink (fst s) (snd s) k = Some (Inr (), s') \<and> dir_inv s' \<and> dir_view s' = (dir_view s)(n := None)"
    unfolding dir_inv_def dir_view_def by auto
qed

section \<open>An example directory\<close>

text \<open>The vnode of the example volume as a directory of one entry, with a name of 59 bytes.\<close>
definition dir_ex :: sfs_vnode where
  "dir_ex = sv_ex\<lparr>sv_i := (sv_i sv_ex)\<lparr>sfi_size := 64, sfi_type := 2\<rparr>\<rparr>"

lemma dir_ex_dents: "dents sfs_ex dir_ex = [\<lparr>sfd_ino = 0x07070707, sfd_name = replicate 60 7\<rparr>]"
proof -
  have "fblk (sdisk sfs_ex) (sv_i dir_ex) 0 = replicate 512 7"
    by (simp add: fblk_def fmap_def dir_ex_def sv_ex_def sfs_ex_def nth_append)
  moreover have "[0..<143] = 0 # [1..<143]" by (metis One_nat_def upt_conv_Cons zero_less_numeral)
  then have "fimg sfs_ex dir_ex = fblk (sdisk sfs_ex) (sv_i dir_ex) 0 @ concat (map (fblk (sdisk sfs_ex) (sv_i dir_ex)) [1..<143])"
    by (simp only: fimage_def list.map concat.simps)
  ultimately have "take 64 (fimg sfs_ex dir_ex) = replicate 64 7"
    by (simp only: take_append length_replicate take_replicate) simp
  moreover have "dslots dir_ex = 1" by (simp add: dslots_def dir_ex_def)
  moreover have "dir_of (replicate 64 7) = \<lparr>sfd_ino = 0x07070707, sfd_name = replicate 60 7\<rparr>" by (simp add: dir_of_def de32_def)
  ultimately show ?thesis by (simp add: dents_def)
qed

lemma dir_ex_dmap: "dmap (dents sfs_ex dir_ex) = [replicate 59 7 \<mapsto> 0x07070707]"
proof -
  have "ename \<lparr>sfd_ino = 0x07070707, sfd_name = replicate 60 7\<rparr> = replicate 59 7" by code_simp
  then show ?thesis unfolding dir_ex_dents by (simp add: dmap_def)
qed

lemma dir_ex_inv: "dinv sfs_ex dir_ex"
proof -
  have same: "fmap d (sv_i dir_ex) k = fmap d (sv_i sv_ex) k" "sfi_indirect (sv_i dir_ex) = sfi_indirect (sv_i sv_ex)"
    "inode_wf (sv_i dir_ex) = inode_wf (sv_i sv_ex)" for d k
    by (simp_all add: dir_ex_def fmap_def inode_wf_def)
  have "finv (sdisk sfs_ex) (slive sfs_ex) (sv_i dir_ex)"
    using ex_vinv unfolding vinv_def finv_def fblocks_def same by blast
  then show ?thesis using ex_vinv unfolding dinv_def dir_ex_dents by (simp add: vinv_def names_unique_def dir_ex_def)
qed

section \<open>Properties\<close>

text \<open>
  C29. The search for a name in a directory returns the inode number of the entry with that
  name, with a slot that holds it, or \<open>ENOENT\<close> when no entry in use has that name. It never
  panics, and changes neither the disk nor the directory. The empty slot it reports is free.
\<close>
theorem sfs_dir_findname_correct:
  assumes "dinv sfs sv"
  shows "\<exists>r empt sfs'. sfs_dir_findname sfs sv name = Some (r, empt, sfs', sv) \<and> dinv sfs' sv \<and> sdisk sfs' = sdisk sfs
    \<and> (case dmap (dents sfs sv) name of
         None \<Rightarrow> r = Inl ENOENT
       | Some ino \<Rightarrow> \<exists>k<dslots sv. r = Inr (ino, int k) \<and> ename (dents sfs sv ! k) = name)
    \<and> (\<forall>s. empt = Some s \<longrightarrow> (\<exists>k<dslots sv. s = int k \<and> sfd_ino (dents sfs sv ! k) = 0))"
proof -
  have u: "names_unique (dents sfs sv)" using assms by (simp add: dinv_def)
  from sfs_dir_findname_ok [OF assms, of name] obtain r empt sfs' where
    f: "sfs_dir_findname sfs sv name = Some (r, empt, sfs', sv)" "fstep sfs sv sfs' sv" "sdisk sfs' = sdisk sfs"
    and r: "case r of
         Inr (ino, slot) \<Rightarrow> \<exists>k<dslots sv. slot = int k \<and> matches name (dents sfs sv ! k) \<and> ino = sfd_ino (dents sfs sv ! k)
       | Inl e \<Rightarrow> e = ENOENT \<and> (\<forall>k<dslots sv. \<not> matches name (dents sfs sv ! k))"
    and s: "\<forall>s. empt = Some s \<longrightarrow> (\<exists>k<dslots sv. s = int k \<and> sfd_ino (dents sfs sv ! k) = 0)" by blast
  have "case dmap (dents sfs sv) name of None \<Rightarrow> r = Inl ENOENT
      | Some ino \<Rightarrow> \<exists>k<dslots sv. r = Inr (ino, int k) \<and> ename (dents sfs sv ! k) = name"
  proof (cases r)
    case (Inl e)
    then show ?thesis using r dmap_none_iff [OF u, of name] by simp
  next
    case (Inr x)
    then obtain k where k: "k < dslots sv" "x = (sfd_ino (dents sfs sv ! k), int k)" "matches name (dents sfs sv ! k)"
      using r by (cases x) auto
    then have "dmap (dents sfs sv) name = Some (sfd_ino (dents sfs sv ! k))" using dmap_iff [OF u] by auto
    then show ?thesis using Inr k by (auto simp: matches_def)
  qed
  then show ?thesis using f dinv_same(1) [OF assms f(2,3)] s by blast
qed

theorem sfs_dir_findname_correct_witness:
  "\<exists>sfs' empt. sfs_dir_findname sfs_ex dir_ex (replicate 59 7) = Some (Inr (0x07070707, 0), empt, sfs', dir_ex)"
proof -
  have "dmap (dents sfs_ex dir_ex) (replicate 59 7) = Some 0x07070707" by (simp add: dir_ex_dmap)
  moreover have "dslots dir_ex = 1" using dir_ex_dents length_dents by (metis One_nat_def length_Cons list.size(3))
  ultimately show ?thesis using sfs_dir_findname_correct [OF dir_ex_inv, of "replicate 59 7"] by auto
qed



text \<open>
  C31. Removing a name undoes linking it: after a successful link, the search finds the new
  inode number, and freeing the slot that the link reported succeeds and restores the map of names.
\<close>
theorem sfs_dir_link_unlink:
  assumes "dinv sfs sv" "0 \<notin> set name" "ino \<noteq> 0" "sfs_dir_link sfs sv name ino = Some (Inr slot, sfs1, sv1)"
  shows "(\<exists>slot' empt s'. sfs_dir_findname sfs1 sv1 name = Some (Inr (ino, slot'), empt, s'))
    \<and> (\<exists>sfs2 sv2. sfs_dir_unlink sfs1 sv1 slot = Some (Inr (), sfs2, sv2) \<and> dmap (dents sfs2 sv2) = dmap (dents sfs sv))"
proof -
  have pre: "dir_inv (sfs, sv)" "sfs_dir_link (fst (sfs, sv)) (snd (sfs, sv)) name ino = Some (Inr slot, sfs1, sv1)"
    using assms by (simp_all add: dir_inv_def)
  from sfsdir.find_after_link [OF pre(1) assms(2,3) pre(2)]
  have "\<exists>slot' empt s'. sfs_dir_findname sfs1 sv1 name = Some (Inr (ino, slot'), empt, s')"
    by (auto simp: dir_find_def)
  moreover have "\<exists>sfs2 sv2. sfs_dir_unlink sfs1 sv1 slot = Some (Inr (), sfs2, sv2) \<and> dmap (dents sfs2 sv2) = dmap (dents sfs sv)"
    using sfsdir.unlink_after_link [OF pre(1) assms(2,3) pre(2)] by (auto simp: dir_view_def)
  ultimately show ?thesis by blast
qed

theorem sfs_dir_link_unlink_witness:
  "\<exists>slot sfs1 sv1. sfs_dir_link sfs_ex dir_ex [8] 1 = Some (Inr slot, sfs1, sv1)
    \<and> (\<exists>slot' empt s'. sfs_dir_findname sfs1 sv1 [8] = Some (Inr (1, slot'), empt, s'))"
proof -
  have "map_option fst (sfs_dir_link sfs_ex dir_ex [8] 1) = Some (Inr 1)" by code_simp
  then obtain sfs1 sv1 where l: "sfs_dir_link sfs_ex dir_ex [8] 1 = Some (Inr 1, sfs1, sv1)" by auto
  then show ?thesis using sfs_dir_link_unlink [OF dir_ex_inv _ _ l] by auto
qed

end
