(* ===== verification/Kern_Queue.thy ===== *)
theory Kern_Queue
  imports Kern_Prelude
begin

text \<open>
  The ring-buffer queue of \<^verbatim>\<open>kern/lib/queue.c\<close>. \<open>'a queue\<close> is \<^verbatim>\<open>struct queue\<close>, with the
  block behind \<^verbatim>\<open>data\<close> as a list of cells. \<^verbatim>\<open>q_addtail\<close> and \<^verbatim>\<open>q_grow\<close> call each other:
  \<open>q_addtail_d\<close> counts the depth of this recursion (\<open>None\<close> when it is used up), and the
  theorems show that depth 2, which \<open>q_addtail\<close> uses, is always enough. The contract is the locale \<open>fifo\<close>, interpreted on these definitions at the end.
\<close>

section \<open>Model\<close>

record 'a queue =
  q_size :: int
  q_nextwrite :: int
  q_nextread :: int
  q_data :: "'a cell list"

text \<open>The doubling loop of \<^verbatim>\<open>q_grow\<close>, with its assertion against wrap-around.\<close>
function q_double :: "int \<Rightarrow> int \<Rightarrow> int option" where
  "q_double targetsize nsize =
     (if nsize < targetsize
      then let nsize' = s32 (nsize * 2)
           in if 0 < nsize' then q_double targetsize nsize' else None
      else Some nsize)"
  by pat_completeness auto
termination
proof (relation "measure (\<lambda>(t, n). nat (if n < 2 ^ 31 then 2 ^ 31 - n else 2 ^ 32))")
  fix t n n' :: int
  assume n': "n' = s32 (n * 2)" "0 < n'"
  have "n' < 2 ^ 31" using n' s32_bounds [of "n * 2"] by simp
  moreover have "n < 2 ^ 31 \<Longrightarrow> n < n'"
    using n' s32_double [of n] by (cases "0 < n") (simp_all add: mult.commute)
  ultimately show "((t, n'), t, n)
      \<in> measure (\<lambda>(t, n). nat (if n < 2 ^ 31 then 2 ^ 31 - n else 2 ^ 32))"
    using n' by auto
qed simp

declare q_double.simps [simp del]

text \<open>
  The copying loop of \<^verbatim>\<open>q_grow\<close> (lines 45--48), over the function it calls to append:
  \<open>onw\<close> and \<open>osize\<close> are the old \<^verbatim>\<open>nextwrite\<close> and \<^verbatim>\<open>size\<close>, \<open>i\<close> is the loop variable. The
  first argument bounds the number of iterations: an index that has not met \<open>onw\<close> after
  \<open>osize\<close> steps never does.
\<close>
primrec q_refill :: "nat \<Rightarrow> ('a queue \<Rightarrow> 'a \<Rightarrow> ((errno + unit) \<times> 'a queue) option)
    \<Rightarrow> 'a cell list \<Rightarrow> int \<Rightarrow> int \<Rightarrow> int \<Rightarrow> 'a queue \<Rightarrow> 'a queue option" where
  "q_refill 0 addtail olddata osize onw i q = (if i = onw then Some q else None)"
| "q_refill (Suc n) addtail olddata osize onw i q =
     (if i = onw then Some q
      else do {
        c \<leftarrow> cnth olddata i;
        x \<leftarrow> read_cell c;
        (result, q) \<leftarrow> addtail q x;
        kassert (result = Inr ());
        q_refill n addtail olddata osize onw ((i + 1) smod osize) q
      })"

definition q_grow_with :: "('a queue \<Rightarrow> 'a \<Rightarrow> ((errno + unit) \<times> 'a queue) option)
    \<Rightarrow> kmalloc_oracle \<Rightarrow> 'a queue \<Rightarrow> int \<Rightarrow> ((errno + unit) \<times> 'a queue) option" where
  "q_grow_with addtail km q targetsize = do {
     let olddata = q_data q;
     let onr = q_nextread q;
     let onw = q_nextwrite q;
     let osize = q_size q;
     nsize \<leftarrow> q_double targetsize (q_size q);
     if \<not> km (ptr_bytes nsize) then Some (Inl ENOMEM, q)
     else do {
       let ndata = replicate (ptr_cells nsize) Indet;
       q \<leftarrow> q_refill (nat osize) addtail olddata osize onw onr
         (q\<lparr>q_size := nsize, q_data := ndata, q_nextread := 0, q_nextwrite := 0\<rparr>);
       Some (Inr (), q)
     }
   }"

primrec q_addtail_d :: "nat \<Rightarrow> kmalloc_oracle \<Rightarrow> 'a queue \<Rightarrow> 'a \<Rightarrow> ((errno + unit) \<times> 'a queue) option" where
  "q_addtail_d 0 km q ptr = None"
| "q_addtail_d (Suc d) km q ptr = do {
     kassert (q_size q > 0);
     let nextnext = (q_nextwrite q + 1) smod q_size q;
     (result, q) \<leftarrow> (if nextnext = q_nextread q
        then q_grow_with (q_addtail_d d km) km q (s32 (q_size q + 1))
        else Some (Inr (), q));
     case result of
       Inl err \<Rightarrow> Some (Inl err, q)
     | Inr _ \<Rightarrow> do {
         let nextnext = (q_nextwrite q + 1) smod q_size q;
         data \<leftarrow> cupd (q_data q) (q_nextwrite q) (Val ptr);
         Some (Inr (), q\<lparr>q_data := data, q_nextwrite := nextnext\<rparr>)
       }
   }"

declare q_addtail_d.simps [simp del]

definition q_addtail :: "kmalloc_oracle \<Rightarrow> 'a queue \<Rightarrow> 'a \<Rightarrow> ((errno + unit) \<times> 'a queue) option" where
  "q_addtail km q ptr = q_addtail_d 2 km q ptr"

definition q_grow :: "kmalloc_oracle \<Rightarrow> 'a queue \<Rightarrow> int \<Rightarrow> ((errno + unit) \<times> 'a queue) option" where
  "q_grow km q targetsize = q_grow_with (q_addtail_d 1 km) km q targetsize"

text \<open>\<^verbatim>\<open>sizeof(struct queue)\<close> is 16; the result \<open>Inl ()\<close> is the \<^verbatim>\<open>NULL\<close> pointer.\<close>
definition q_create :: "kmalloc_oracle \<Rightarrow> int \<Rightarrow> unit + 'a queue" where
  "q_create km sz =
     (if \<not> km 16 then Inl ()
      else if \<not> km (ptr_bytes sz) then Inl ()
      else Inr \<lparr>q_size = sz, q_nextwrite = 0, q_nextread = 0,
                q_data = replicate (ptr_cells sz) Indet\<rparr>)"

definition q_preallocate :: "kmalloc_oracle \<Rightarrow> 'a queue \<Rightarrow> int \<Rightarrow> ((errno + unit) \<times> 'a queue) option" where
  "q_preallocate km q sz = do {
     kassert (q_size q > 0);
     if sz > q_size q then q_grow km q sz else Some (Inr (), q)
   }"

definition q_empty :: "'a queue \<Rightarrow> bool" where
  "q_empty q \<longleftrightarrow> q_nextwrite q = q_nextread q"

definition q_remhead :: "'a queue \<Rightarrow> ('a \<times> 'a queue) option" where
  "q_remhead q = do {
     kassert (q_size q > 0);
     kassert (\<not> q_empty q);
     c \<leftarrow> cnth (q_data q) (q_nextread q);
     ret \<leftarrow> read_cell c;
     Some (ret, q\<lparr>q_nextread := (q_nextread q + 1) smod q_size q\<rparr>)
   }"

definition get_head :: "'a queue \<Rightarrow> 'a option" where
  "get_head q = do {
     kassert (q_size q > 0);
     kassert (\<not> q_empty q);
     c \<leftarrow> cnth (q_data q) (q_nextread q);
     read_cell c
   }"

text \<open>\<^verbatim>\<open>q_destroy\<close> frees the block and the structure; only its assertion is observable.\<close>
definition q_destroy :: "'a queue \<Rightarrow> unit option" where
  "q_destroy q = kassert (q_empty q)"

definition q_getstart :: "'a queue \<Rightarrow> int" where "q_getstart q = q_nextread q"

definition q_getend :: "'a queue \<Rightarrow> int" where "q_getend q = q_nextwrite q"

definition q_getsize :: "'a queue \<Rightarrow> int" where "q_getsize q = q_size q"

definition q_getguy :: "'a queue \<Rightarrow> int \<Rightarrow> 'a cell option" where
  "q_getguy q index = do {
     kassert (index \<ge> 0 \<and> index < q_size q);
     cnth (q_data q) index
   }"

section \<open>The ring as a list\<close>

fun ring :: "'a list \<Rightarrow> int \<Rightarrow> int \<Rightarrow> nat \<Rightarrow> 'a list" where
  "ring data sz i 0 = []"
| "ring data sz i (Suc n) = data ! nat i # ring data sz ((i + 1) mod sz) n"

definition q_count :: "'a queue \<Rightarrow> nat" where
  "q_count q = nat ((q_nextwrite q - q_nextread q) mod q_size q)"

definition q_cells :: "'a queue \<Rightarrow> 'a cell list" where
  "q_cells q = ring (q_data q) (q_size q) (q_nextread q) (q_count q)"

definition q_list :: "'a queue \<Rightarrow> 'a list" where
  "q_list q = map cell_val (q_cells q)"

text \<open>The representation invariant of \<^verbatim>\<open>struct queue\<close>.\<close>
definition q_inv :: "'a queue \<Rightarrow> bool" where
  "q_inv q \<longleftrightarrow> 0 < q_size q \<and> q_size q < 2 ^ 27 \<and> int (length (q_data q)) = q_size q
     \<and> 0 \<le> q_nextread q \<and> q_nextread q < q_size q
     \<and> 0 \<le> q_nextwrite q \<and> q_nextwrite q < q_size q
     \<and> Indet \<notin> set (q_cells q)"


lemma length_ring [simp]: "length (ring data sz i n) = n"
  by (induction n arbitrary: i) auto

lemma ring_conv_map:
  "0 < sz \<Longrightarrow> 0 \<le> i \<Longrightarrow> i < sz \<Longrightarrow>
    ring data sz i n = map (\<lambda>k. data ! nat ((i + int k) mod sz)) [0..<n]"
proof (induction n arbitrary: i)
  case (Suc n)
  have "ring data sz ((i + 1) mod sz) n = map (\<lambda>k. data ! nat (((i + 1) mod sz + int k) mod sz)) [0..<n]"
    using Suc by simp
  moreover have "[0..<Suc n] = 0 # map Suc [0..<n]"
    by (simp add: map_Suc_upt upt_conv_Cons del: upt_Suc)
  ultimately show ?case
    using Suc.prems by (simp add: mod_add_left_eq mod_add_right_eq algebra_simps del: upt_Suc)
qed simp

lemma ring_snoc:
  "0 < sz \<Longrightarrow> 0 \<le> i \<Longrightarrow> i < sz \<Longrightarrow>
    ring data sz i (Suc n) = ring data sz i n @ [data ! nat ((i + int n) mod sz)]"
  by (simp only: ring_conv_map) simp

text \<open>Two distinct offsets within one turn of the ring are two distinct indices.\<close>
lemma ring_index_inj:
  fixes i :: int
  assumes "0 < sz" "int j < sz" "int k < sz" "(i + int j) mod sz = (i + int k) mod sz"
  shows "j = k"
proof -
  have "(int j) mod sz = (int k) mod sz"
    using assms(4) by (metis add_diff_cancel_left' mod_diff_left_eq)
  then show ?thesis using assms(1-3) by simp
qed

lemma ring_update_outside:
  assumes "0 < sz" "0 \<le> i" "i < sz" "n \<le> m" "int m < sz"
  shows "ring (data[nat ((i + int m) mod sz) := x]) sz i n = ring data sz i n"
proof -
  have "nat ((i + int m) mod sz) \<noteq> nat ((i + int k) mod sz)" if "k < n" for k
    using ring_index_inj [of sz m k i] that assms by (auto simp: eq_nat_nat_iff)
  then show ?thesis
    using assms by (auto simp: ring_conv_map)
qed

lemma q_double_ok:
  "0 < n \<Longrightarrow> n < 2 ^ 30 \<Longrightarrow> t \<le> 2 ^ 29 \<Longrightarrow>
    \<exists>m. q_double t n = Some m \<and> t \<le> m \<and> n \<le> m \<and> m < 2 ^ 30 \<and> (n < t \<longrightarrow> n < m)"
proof (induction t n rule: q_double.induct)
  case (1 t n)
  show ?case
  proof (cases "n < t")
    case True
    then have s: "s32 (n * 2) = n * 2" using "1.prems" by simp
    with True "1.prems" "1.IH" [OF True refl] obtain m where
      "q_double t (n * 2) = Some m" "t \<le> m" "n * 2 \<le> m" "m < 2 ^ 30"
      by auto
    with True s "1.prems" show ?thesis by (subst q_double.simps) auto
  next
    case False
    with "1.prems" show ?thesis by (subst q_double.simps) auto
  qed
qed

section \<open>What the operations do to the ring\<close>

lemma q_inv_dest:
  assumes "q_inv q"
  shows "0 < q_size q" "q_size q < 2 ^ 27" "int (length (q_data q)) = q_size q"
    "0 \<le> q_nextread q" "q_nextread q < q_size q" "0 \<le> q_nextwrite q" "q_nextwrite q < q_size q"
    "Indet \<notin> set (q_cells q)"
  using assms by (auto simp: q_inv_def)

lemma q_count_less: "q_inv q \<Longrightarrow> int (q_count q) < q_size q"
  by (auto simp: q_count_def dest: q_inv_dest)

lemma length_q_list [simp]: "length (q_list q) = q_count q"
  by (simp add: q_list_def q_cells_def)

lemma q_nextwrite_eq: "q_inv q \<Longrightarrow> q_nextwrite q = (q_nextread q + int (q_count q)) mod q_size q"
  using q_inv_dest [of q] by (simp add: q_count_def mod_add_right_eq)

text \<open>The ring is full when one cell is left.\<close>
definition q_full :: "'a queue \<Rightarrow> bool" where
  "q_full q \<longleftrightarrow> int (q_count q) = q_size q - 1"

lemma q_full_iff:
  assumes "q_inv q"
  shows "(q_nextwrite q + 1) smod q_size q = q_nextread q \<longleftrightarrow> q_full q"
proof -
  note d = q_inv_dest [OF assms]
  have "(q_nextwrite q + 1) smod q_size q = (q_nextread q + int (Suc (q_count q))) mod q_size q"
    using d q_nextwrite_eq [OF assms] by (simp add: smod_nonneg mod_add_left_eq mod_add_right_eq algebra_simps)
  also have "\<dots> = q_nextread q \<longleftrightarrow> q_full q"
  proof (cases "q_full q")
    case True
    then have "q_nextread q + int (Suc (q_count q)) = q_nextread q + q_size q"
      by (simp add: q_full_def)
    then show ?thesis using d True by simp
  next
    case False
    then have "int (Suc (q_count q)) < q_size q"
      using q_count_less [OF assms] by (simp add: q_full_def)
    then show ?thesis
      using d False ring_index_inj [of "q_size q" "Suc (q_count q)" 0 "q_nextread q"] by auto
  qed
  finally show ?thesis .
qed

lemma q_addtail_d_room:
  assumes inv: "q_inv q" and room: "\<not> q_full q"
  shows "\<exists>q'. q_addtail_d (Suc d) km q x = Some (Inr (), q') \<and> q_inv q'
    \<and> q_list q' = q_list q @ [x] \<and> q_size q' = q_size q"
proof -
  note d = q_inv_dest [OF inv]
  define nw where "nw = (q_nextwrite q + 1) mod q_size q"
  define q' where "q' = q\<lparr>q_data := (q_data q)[nat (q_nextwrite q) := Val x], q_nextwrite := nw\<rparr>"
  have run: "q_addtail_d (Suc d) km q x = Some (Inr (), q')"
    using d room q_full_iff [OF inv] by (simp add: q_addtail_d.simps q'_def nw_def smod_nonneg)
  have c: "int (Suc (q_count q)) < q_size q"
    using room q_count_less [OF inv] by (simp add: q_full_def)
  have nw_eq: "nw = (q_nextread q + int (Suc (q_count q))) mod q_size q"
    using q_nextwrite_eq [OF inv] by (simp add: nw_def mod_add_left_eq mod_add_right_eq algebra_simps)
  then have "(nw - q_nextread q) mod q_size q = int (Suc (q_count q))"
    using c by (simp add: mod_diff_left_eq)
  moreover have "q_count q' = nat ((nw - q_nextread q) mod q_size q)"
    by (simp add: q_count_def q'_def)
  ultimately have count': "q_count q' = Suc (q_count q)"
    by simp
  have cells': "q_cells q' = q_cells q @ [Val x]"
  proof -
    have "q_cells q' = ring (q_data q') (q_size q) (q_nextread q) (Suc (q_count q))"
      using count' by (simp add: q_cells_def q'_def)
    also have "\<dots> = ring (q_data q') (q_size q) (q_nextread q) (q_count q) @ [Val x]"
      using d q_nextwrite_eq [OF inv]
      by (simp add: ring_snoc q'_def nat_less_iff del: ring.simps)
    also have "ring (q_data q') (q_size q) (q_nextread q) (q_count q) = q_cells q"
      using d c ring_update_outside [of "q_size q" "q_nextread q" "q_count q" "q_count q" "q_data q" "Val x"]
        q_nextwrite_eq [OF inv]
      by (simp add: q'_def q_cells_def)
    finally show ?thesis .
  qed
  have "q_inv q'"
    using d cells' by (simp add: q_inv_def) (simp add: q'_def nw_def)
  moreover have "q_list q' = q_list q @ [x]"
    using cells' by (simp add: q_list_def)
  ultimately show ?thesis using run by (simp add: q'_def)
qed

lemma q_refill_ok:
  assumes "0 < osize" "0 \<le> i" "i < osize" "int (length olddata) = osize"
    "onw = (i + int n) mod osize" "int n < osize" "Indet \<notin> set (ring olddata osize i n)"
    "q_inv q" "int (q_count q + n) < q_size q" "n \<le> m"
  shows "\<exists>q'. q_refill m (q_addtail_d (Suc d) km) olddata osize onw i q = Some q' \<and> q_inv q'
    \<and> q_list q' = q_list q @ map cell_val (ring olddata osize i n) \<and> q_size q' = q_size q"
  using assms
proof (induction n arbitrary: i q m)
  case 0
  then show ?case by (cases m) auto
next
  case (Suc n)
  then obtain m' where m: "m = Suc m'" "n \<le> m'" by (cases m) auto
  have i: "(i + int 0) mod osize = i" using Suc.prems(2,3) by simp
  have neq: "i \<noteq> onw"
    using ring_index_inj [of osize "Suc n" 0 i] Suc.prems(1,6) i
    unfolding Suc.prems(5) by fastforce
  from Suc.prems(7) obtain x where x: "olddata ! nat i = Val x"
    by (cases "olddata ! nat i") auto
  have "\<not> q_full q" using Suc.prems(9) by (simp add: q_full_def)
  from q_addtail_d_room [OF Suc.prems(8) this, of d km x]
  obtain q1 where q1: "q_addtail_d (Suc d) km q x = Some (Inr (), q1)"
    "q_inv q1" "q_list q1 = q_list q @ [x]" "q_size q1 = q_size q"
    by auto
  have count: "q_count q1 = Suc (q_count q)"
    using q1(3) by (metis length_append_singleton length_q_list)
  have onw: "onw = ((i + 1) mod osize + int n) mod osize"
    using Suc.prems(5) by (simp add: mod_add_left_eq mod_add_right_eq algebra_simps)
  obtain q' where q': "q_refill m' (q_addtail_d (Suc d) km) olddata osize onw ((i + 1) mod osize) q1 = Some q'"
    "q_inv q'" "q_list q' = q_list q1 @ map cell_val (ring olddata osize ((i + 1) mod osize) n)"
    "q_size q' = q_size q1"
    using Suc.IH [OF Suc.prems(1) _ _ Suc.prems(4) onw _ _ q1(2) _ m(2)] Suc.prems(1-3,6,7,9)
      count q1(4) by auto
  have "q_refill m (q_addtail_d (Suc d) km) olddata osize onw i q = Some q'"
    using m(1) neq x q1(1) q'(1) Suc.prems(1-4)
    by (simp add: smod_nonneg)
  then show ?case
    using q' q1 x by simp
qed

text \<open>A fresh ring of any positive size is an empty queue.\<close>
lemma q_fresh:
  assumes "0 < n" "n < 2 ^ 27"
  shows "q_inv \<lparr>q_size = n, q_nextwrite = 0, q_nextread = 0, q_data = replicate (ptr_cells n) Indet\<rparr>"
    "q_list \<lparr>q_size = n, q_nextwrite = 0, q_nextread = 0, q_data = replicate (ptr_cells n) Indet\<rparr> = []"
  using assms by (simp_all add: q_inv_def q_list_def q_cells_def q_count_def ptr_cells_small)

text \<open>
  \<^verbatim>\<open>q_grow\<close> either fails and leaves the queue alone, or installs a ring of at least the
  requested size with the same contents.
\<close>
lemma q_grow_with_ok:
  fixes q :: "'a queue"
  assumes inv: "q_inv q" and t: "t \<le> 2 ^ 28" and km: "km_kseg0 km"
  shows "\<exists>nsize q'. q_double t (q_size q) = Some nsize \<and> t \<le> nsize \<and>
    (if km (ptr_bytes nsize)
     then q_grow_with (q_addtail_d (Suc d) km) km q t = Some (Inr (), q') \<and> q_inv q'
       \<and> q_list q' = q_list q \<and> q_size q' = nsize
     else q_grow_with (q_addtail_d (Suc d) km) km q t = Some (Inl ENOMEM, q))"
proof -
  note d = q_inv_dest [OF inv]
  obtain nsize where n: "q_double t (q_size q) = Some nsize" "t \<le> nsize" "q_size q \<le> nsize"
    "nsize < 2 ^ 30"
    using q_double_ok [of "q_size q" t] d(1,2) t by auto
  show ?thesis
  proof (cases "km (ptr_bytes nsize)")
    case False
    then show ?thesis using n by (auto simp: q_grow_with_def)
  next
    case True
    let ?fresh = "\<lparr>q_size = nsize, q_nextwrite = 0, q_nextread = 0,
      q_data = replicate (ptr_cells nsize) Indet\<rparr> :: 'a queue"
    have "0 < nsize" using d(1) n(3) by linarith
    moreover have "nsize < 2 ^ 27"
      using km_kseg0_ptr [OF km True] \<open>0 < nsize\<close> n(4) by simp
    ultimately have f: "q_inv ?fresh" "q_list ?fresh = []"
      using q_fresh [of nsize] by simp_all
    then have c0: "q_count ?fresh = 0" by (metis length_q_list list.size(3))
    have "\<exists>q'. q_refill (nat (q_size q)) (q_addtail_d (Suc d) km) (q_data q) (q_size q)
        (q_nextwrite q) (q_nextread q) ?fresh = Some q' \<and> q_inv q'
        \<and> q_list q' = q_list ?fresh @ map cell_val (q_cells q) \<and> q_size q' = q_size ?fresh"
      unfolding q_cells_def
      by (rule q_refill_ok)
        (use d n(3) f c0 q_nextwrite_eq [OF inv] q_count_less [OF inv] in
          \<open>simp_all add: q_cells_def\<close>)
    then obtain q' where q': "q_refill (nat (q_size q)) (q_addtail_d (Suc d) km) (q_data q)
        (q_size q) (q_nextwrite q) (q_nextread q) ?fresh = Some q'" "q_inv q'"
        "q_list q' = q_list q" "q_size q' = nsize"
      using f(2) by (auto simp: q_list_def [of q])
    have reset: "q\<lparr>q_size := nsize, q_data := replicate (ptr_cells nsize) Indet,
        q_nextread := 0, q_nextwrite := 0\<rparr> = ?fresh"
      by (cases q) simp
    have "q_grow_with (q_addtail_d (Suc d) km) km q t = Some (Inr (), q')"
      using n(1) True q'(1) by (simp add: q_grow_with_def Let_def reset)
    then show ?thesis using q' n True by auto
  qed
qed

lemma q_double_once:
  assumes "0 < n" "n < 2 ^ 29"
  shows "q_double (n + 1) n = Some (2 * n)"
proof -
  have "s32 (n * 2) = n * 2" using assms by simp
  then show ?thesis using assms by (subst q_double.simps, subst q_double.simps) simp
qed

lemma q_addtail_d_full:
  assumes inv: "q_inv q" and full: "q_full q" and km: "km_kseg0 km"
  shows "\<exists>q'. if km (ptr_bytes (2 * q_size q))
    then q_addtail_d (Suc (Suc d)) km q x = Some (Inr (), q') \<and> q_inv q'
      \<and> q_list q' = q_list q @ [x] \<and> q_size q' = 2 * q_size q
    else q_addtail_d (Suc (Suc d)) km q x = Some (Inl ENOMEM, q)"
proof -
  note d = q_inv_dest [OF inv]
  have s: "s32 (q_size q + 1) = q_size q + 1" using d by simp
  have unfold: "q_addtail_d (Suc (Suc d)) km q x =
      do { (result, q) \<leftarrow> q_grow_with (q_addtail_d (Suc d) km) km q (q_size q + 1);
           case result of Inl err \<Rightarrow> Some (Inl err, q)
           | Inr _ \<Rightarrow> do {
               let nextnext = (q_nextwrite q + 1) smod q_size q;
               data \<leftarrow> cupd (q_data q) (q_nextwrite q) (Val x);
               Some (Inr (), q\<lparr>q_data := data, q_nextwrite := nextnext\<rparr>)}}"
    using d q_full_iff [OF inv] full s by (simp add: q_addtail_d.simps(2) [of "Suc d"] Let_def)
  have dbl: "q_double (q_size q + 1) (q_size q) = Some (2 * q_size q)"
    using d by (simp add: q_double_once)
  show ?thesis
  proof (cases "km (ptr_bytes (2 * q_size q))")
    case False
    then show ?thesis
      using q_grow_with_ok [OF inv _ km, of "q_size q + 1" d] d(2) dbl by (auto simp: unfold)
  next
    case True
    then obtain q1 where
      grown: "q_grow_with (q_addtail_d (Suc d) km) km q (q_size q + 1) = Some (Inr (), q1)"
        "q_inv q1" "q_list q1 = q_list q" "q_size q1 = 2 * q_size q"
      using q_grow_with_ok [OF inv _ km, of "q_size q + 1" d] d(2) dbl by auto
    have "q_count q1 = q_count q" using grown(3) by (metis length_q_list)
    then have nf: "\<not> q_full q1" using full grown(4) d(1) by (simp add: q_full_def)
    then have "q_addtail_d (Suc d) km q1 x = do {
               data \<leftarrow> cupd (q_data q1) (q_nextwrite q1) (Val x);
               Some (Inr (), q1\<lparr>q_data := data, q_nextwrite := (q_nextwrite q1 + 1) smod q_size q1\<rparr>)}"
      using q_inv_dest [OF grown(2)] q_full_iff [OF grown(2)] by (simp add: q_addtail_d.simps Let_def)
    with q_addtail_d_room [OF grown(2) nf, of d km x] grown True show ?thesis
      by (auto simp: unfold Let_def)
  qed
qed

lemma q_empty_iff:
  assumes inv: "q_inv q"
  shows "q_empty q \<longleftrightarrow> q_list q = []"
proof
  assume "q_empty q"
  then have "q_count q = 0" by (simp add: q_empty_def q_count_def)
  then show "q_list q = []" by (metis length_0_conv length_q_list)
next
  assume "q_list q = []"
  then have "q_count q = 0" by (metis length_q_list list.size(3))
  then show "q_empty q"
    using q_nextwrite_eq [OF inv] q_inv_dest(4,5) [OF inv] by (simp add: q_empty_def)
qed

lemma q_remhead_ok:
  assumes inv: "q_inv q" and ne: "q_list q \<noteq> []"
  shows "\<exists>q'. q_remhead q = Some (hd (q_list q), q') \<and> q_inv q' \<and> q_list q' = tl (q_list q)
    \<and> q_size q' = q_size q \<and> get_head q = Some (hd (q_list q))"
proof -
  note d = q_inv_dest [OF inv]
  obtain n where n: "q_count q = Suc n"
    using ne by (metis length_0_conv length_q_list not0_implies_Suc)
  define nr where "nr = (q_nextread q + 1) mod q_size q"
  define q' where "q' = q\<lparr>q_nextread := nr\<rparr>"
  have cells: "q_cells q = q_data q ! nat (q_nextread q) # ring (q_data q) (q_size q) nr n"
    by (simp add: q_cells_def n nr_def)
  then obtain x where x: "q_data q ! nat (q_nextread q) = Val x"
    using d(8) by (cases "q_data q ! nat (q_nextread q)") auto
  have "(q_nextwrite q - nr) mod q_size q = int n mod q_size q"
    unfolding nr_def q_nextwrite_eq [OF inv] n
    by (simp add: mod_diff_left_eq mod_diff_right_eq)
  then have "q_count q' = n"
    using q_count_less [OF inv] n by (simp add: q_count_def q'_def)
  then have cells': "q_cells q' = ring (q_data q) (q_size q) nr n"
    by (simp add: q_cells_def q'_def)
  have "q_remhead q = Some (x, q')" "get_head q = Some x"
    using d x ne q_empty_iff [OF inv]
    by (simp_all add: q_remhead_def get_head_def q'_def nr_def smod_nonneg)
  moreover have "q_inv q'"
    using d cells cells' by (simp add: q_inv_def) (simp add: q'_def nr_def)
  ultimately show ?thesis
    using cells cells' x by (auto simp: q_list_def) (simp add: q'_def)
qed

section \<open>The contract of the queue\<close>

text \<open>Removing the head \<open>n\<close> times, as the loops over a queue do.\<close>
primrec drain :: "nat \<Rightarrow> ('q \<Rightarrow> ('a \<times> 'q) option) \<Rightarrow> 'q \<Rightarrow> ('a list \<times> 'q) option" where
  "drain 0 remhead q = Some ([], q)"
| "drain (Suc n) remhead q = do {
     (x, q) \<leftarrow> remhead q;
     (xs, q) \<leftarrow> drain n remhead q;
     Some (x # xs, q)
   }"

locale fifo =
  fixes inv :: "'q \<Rightarrow> bool" and contents :: "'q \<Rightarrow> 'a list" and isempty :: "'q \<Rightarrow> bool"
    and addtail :: "kmalloc_oracle \<Rightarrow> 'q \<Rightarrow> 'a \<Rightarrow> ((errno + unit) \<times> 'q) option"
    and remhead :: "'q \<Rightarrow> ('a \<times> 'q) option"
  assumes isempty_iff: "inv q \<Longrightarrow> isempty q \<longleftrightarrow> contents q = []"
    and addtail_cases: "km_kseg0 km \<Longrightarrow> inv q \<Longrightarrow>
      addtail km q x = Some (Inl ENOMEM, q) \<and> (\<exists>b. \<not> km b) \<or>
      (\<exists>q'. addtail km q x = Some (Inr (), q') \<and> inv q' \<and> contents q' = contents q @ [x])"
    and remhead_nonempty: "inv q \<Longrightarrow> contents q \<noteq> [] \<Longrightarrow>
      \<exists>q'. remhead q = Some (hd (contents q), q') \<and> inv q' \<and> contents q' = tl (contents q)"
    and remhead_empty: "inv q \<Longrightarrow> contents q = [] \<Longrightarrow> remhead q = None"
begin

lemma remhead_Cons:
  assumes "inv q" "contents q = x # xs"
  obtains q' where "remhead q = Some (x, q')" "inv q'" "contents q' = xs"
  using remhead_nonempty [OF assms(1)] assms(2) that by auto

lemma addtail_inv:
  assumes "km_kseg0 km" "inv q" "addtail km q x = Some (r, q')"
  shows "inv q'" "r = Inr () \<Longrightarrow> contents q' = contents q @ [x]" "r \<noteq> Inr () \<Longrightarrow> q' = q"
  using addtail_cases [OF assms(1,2), of x] assms(2,3) by auto

lemma addtail_total:
  assumes "km_kseg0 km" "inv q"
  obtains r q' where "addtail km q x = Some (r, q')" "r = Inr () \<or> r = Inl ENOMEM" "inv q'"
  using addtail_cases [OF assms, of x] assms(2) that by auto

lemma addtail_no_fail:
  assumes "km_kseg0 km" "inv q" "addtail km q x = Some (Inl e, q')"
  shows "e = ENOMEM" "\<exists>b. \<not> km b"
  using addtail_cases [OF assms(1,2), of x] assms(3) by auto

lemma drain_ok:
  "inv q \<Longrightarrow> contents q = xs @ ys \<Longrightarrow>
    \<exists>q'. drain (length xs) remhead q = Some (xs, q') \<and> inv q' \<and> contents q' = ys"
proof (induction xs arbitrary: q)
  case (Cons x xs)
  from Cons.prems(2) have "contents q = x # (xs @ ys)" by simp
  from remhead_Cons [OF Cons.prems(1) this] obtain q1 where
    "remhead q = Some (x, q1)" "inv q1" "contents q1 = xs @ ys" by blast
  with Cons.IH [OF this(2,3)] show ?case by auto
qed simp

end

lemma q_addtail_cases:
  assumes "km_kseg0 km" "q_inv q"
  shows "q_addtail km q x = Some (Inl ENOMEM, q) \<and> (\<exists>b. \<not> km b) \<or>
    (\<exists>q'. q_addtail km q x = Some (Inr (), q') \<and> q_inv q' \<and> q_list q' = q_list q @ [x])"
proof (cases "q_full q")
  case True
  from q_addtail_d_full [OF assms(2) this assms(1), of 0 x] show ?thesis
    by (auto simp: q_addtail_def numeral_2_eq_2 split: if_splits)
next
  case False
  from q_addtail_d_room [OF assms(2) this, of 1 km x] show ?thesis
    by (auto simp: q_addtail_def numeral_2_eq_2)
qed

interpretation kq: fifo q_inv q_list q_empty q_addtail q_remhead
proof
  fix q :: "'a queue"
  assume inv: "q_inv q"
  show "q_list q = [] \<Longrightarrow> q_remhead q = None"
    using q_empty_iff [OF inv] by (simp add: q_remhead_def)
  show "q_list q \<noteq> [] \<Longrightarrow> \<exists>q'. q_remhead q = Some (hd (q_list q), q') \<and> q_inv q' \<and> q_list q' = tl (q_list q)"
    using q_remhead_ok [OF inv] by blast
  show "q_empty q \<longleftrightarrow> q_list q = []" by (rule q_empty_iff [OF inv])
  show "km_kseg0 km \<Longrightarrow> q_addtail km q x = Some (Inl ENOMEM, q) \<and> (\<exists>b. \<not> km b) \<or>
      (\<exists>q'. q_addtail km q x = Some (Inr (), q') \<and> q_inv q' \<and> q_list q' = q_list q @ [x])" for km x
    by (rule q_addtail_cases [OF _ inv])
qed

section \<open>Properties\<close>

text \<open>Appending a list of values one by one, stopping at the first error.\<close>
primrec q_addall :: "kmalloc_oracle \<Rightarrow> 'a queue \<Rightarrow> 'a list \<Rightarrow> ((errno + unit) \<times> 'a queue) option" where
  "q_addall km q [] = Some (Inr (), q)"
| "q_addall km q (x # xs) = do {
     (result, q) \<leftarrow> q_addtail km q x;
     case result of Inl err \<Rightarrow> Some (Inl err, q) | Inr _ \<Rightarrow> q_addall km q xs
   }"

lemma q_addtail_room:
  assumes "q_inv q" "int (q_count q) < q_size q - 1"
  obtains q' where "q_addtail km q x = Some (Inr (), q')" "q_inv q'" "q_list q' = q_list q @ [x]"
    "q_size q' = q_size q" "q_count q' = Suc (q_count q)"
proof -
  have "\<not> q_full q" using assms(2) by (simp add: q_full_def)
  from q_addtail_d_room [OF assms(1) this, of 1 km x] obtain q' where
    q': "q_addtail_d 2 km q x = Some (Inr (), q')" "q_inv q'" "q_list q' = q_list q @ [x]"
      "q_size q' = q_size q"
    by (auto simp: numeral_2_eq_2)
  moreover have "q_count q' = Suc (q_count q)"
    using q'(3) by (metis length_append_singleton length_q_list)
  ultimately show ?thesis using that by (simp add: q_addtail_def)
qed

lemma q_addall_room:
  "q_inv q \<Longrightarrow> int (q_count q + length xs) < q_size q \<Longrightarrow>
    \<exists>q'. q_addall km q xs = Some (Inr (), q') \<and> q_inv q' \<and> q_list q' = q_list q @ xs
      \<and> q_size q' = q_size q"
proof (induction xs arbitrary: q)
  case (Cons x xs)
  have "int (q_count q) < q_size q - 1" using Cons.prems(2) by simp
  from q_addtail_room [OF Cons.prems(1) this, of km x] obtain q1 where
    q1: "q_addtail km q x = Some (Inr (), q1)" "q_inv q1" "q_list q1 = q_list q @ [x]"
      "q_size q1 = q_size q" "q_count q1 = Suc (q_count q)"
    by blast
  moreover have "int (q_count q1 + length xs) < q_size q1"
    using q1(4,5) Cons.prems(2) by simp
  ultimately show ?case using Cons.IH [OF q1(2)] by auto
qed simp

text \<open>
  C13. \<^verbatim>\<open>q_addtail\<close> on a well-formed queue never panics. When the ring is full and
  \<^verbatim>\<open>kmalloc\<close> cannot give a block of twice its size, it returns \<open>ENOMEM\<close> and leaves the
  queue as it was; in every other case it appends the value at the end of the queue,
  doubling the ring exactly when it was full.
\<close>
theorem q_addtail_fifo:
  assumes "km_kseg0 km" "q_inv q"
  shows "if q_full q \<and> \<not> km (ptr_bytes (2 * q_size q))
    then q_addtail km q x = Some (Inl ENOMEM, q)
    else \<exists>q'. q_addtail km q x = Some (Inr (), q') \<and> q_inv q' \<and> q_list q' = q_list q @ [x]
      \<and> q_size q' = (if q_full q then 2 * q_size q else q_size q)"
proof (cases "q_full q")
  case True
  then show ?thesis
    using q_addtail_d_full [OF assms(2) True assms(1), of 0 x]
    by (auto simp: q_addtail_def numeral_2_eq_2)
next
  case False
  then show ?thesis
    using q_addtail_d_room [OF assms(2) False, of 1 km x]
    by (auto simp: q_addtail_def numeral_2_eq_2)
qed

text \<open>A full queue of two cells, for the witnesses.\<close>
definition q_two :: "nat queue" where
  "q_two = \<lparr>q_size = 2, q_nextwrite = 1, q_nextread = 0, q_data = [Val 7, Indet]\<rparr>"

lemma q_two_inv: "q_inv q_two" "q_list q_two = [7]" "q_full q_two"
  by (simp_all add: q_two_def q_inv_def q_list_def q_cells_def q_count_def q_full_def)

lemma km_small: "km_kseg0 (\<lambda>b. b < 8)" "km_kseg0 (\<lambda>b. b < 4096)"
  by (auto simp: km_kseg0_def word_less_nat_alt)

lemma q_two_km: "ptr_bytes 4 = 16" "q_size q_two = 2"
  by (simp_all add: q_two_def ptr_bytes_def)

theorem q_addtail_fifo_witness:
  "q_addtail (\<lambda>b. b < 8) q_two 8 = Some (Inl ENOMEM, q_two) \<and>
    (\<exists>q'. q_addtail (\<lambda>b. b < 4096) q_two 8 = Some (Inr (), q') \<and> q_list q' = [7, 8])"
  using q_addtail_fifo [OF km_small(1) q_two_inv(1), of 8]
    q_addtail_fifo [OF km_small(2) q_two_inv(1), of 8]
  by (auto simp: q_two_inv q_two_km)

text \<open>
  C14. First in, first out: removing heads from a well-formed queue until it is empty never
  panics and returns its contents in the order they were appended.
\<close>
theorem q_remhead_fifo:
  assumes "q_inv q"
  shows "\<exists>q'. drain (length (q_list q)) q_remhead q = Some (q_list q, q') \<and> q_inv q' \<and> q_empty q'"
  using kq.drain_ok [OF assms, of "q_list q" "[]"] kq.isempty_iff by auto

theorem q_remhead_fifo_witness:
  "\<exists>q'. drain 1 q_remhead q_two = Some ([7], q') \<and> q_empty q'"
  using q_remhead_fifo [OF q_two_inv(1)] by (auto simp: q_two_inv)

text \<open>
  C15. \<^verbatim>\<open>q_preallocate(q, n)\<close> keeps the contents. It fails only when the ring has to grow and
  \<^verbatim>\<open>kmalloc\<close> refuses the block of the computed size; otherwise it makes room for \<open>n - 1\<close>
  entries: as many appends as keep the queue shorter than \<open>n\<close> then succeed, whatever
  \<^verbatim>\<open>kmalloc\<close> does.
\<close>
theorem q_preallocate_room:
  assumes "km_kseg0 km" "q_inv q" "n \<le> 2 ^ 28"
  shows "if q_size q < n \<and> \<not> km (ptr_bytes (the (q_double n (q_size q))))
    then q_preallocate km q n = Some (Inl ENOMEM, q)
    else \<exists>q'. q_preallocate km q n = Some (Inr (), q') \<and> q_inv q' \<and> q_list q' = q_list q
      \<and> (\<forall>km' xs. int (length (q_list q) + length xs) < n \<longrightarrow>
          (\<exists>q''. q_addall km' q' xs = Some (Inr (), q'') \<and> q_inv q'' \<and> q_list q'' = q_list q @ xs))"
proof -
  have pos: "q_size q > 0" using q_inv_dest(1) [OF assms(2)] .
  consider (fail) "q_preallocate km q n = Some (Inl ENOMEM, q)" "q_size q < n"
      "\<not> km (ptr_bytes (the (q_double n (q_size q))))"
    | (ok) q' where "q_preallocate km q n = Some (Inr (), q')" "q_inv q'" "q_list q' = q_list q"
      "n \<le> q_size q'" "q_size q < n \<Longrightarrow> km (ptr_bytes (the (q_double n (q_size q))))"
    using q_grow_with_ok [OF assms(2,3,1), of 0] pos assms(2)
    by (cases "n > q_size q") (auto simp: q_preallocate_def q_grow_def split: if_splits)
  then show ?thesis
  proof cases
    case ok
    have c: "q_count q' = length (q_list q)" using ok(3) by (metis length_q_list)
    have "\<exists>q''. q_addall km' q' xs = Some (Inr (), q'') \<and> q_inv q'' \<and> q_list q'' = q_list q @ xs"
      if "int (length (q_list q) + length xs) < n" for km' xs
      using q_addall_room [OF ok(2), of xs km'] that ok(3,4) c by auto
    then show ?thesis using ok(1-3,5) by auto
  qed auto
qed

theorem q_preallocate_room_witness:
  "\<exists>q' q''. q_preallocate (\<lambda>b. b < 4096) q_two 4 = Some (Inr (), q')
      \<and> q_addall (\<lambda>b. False) q' [8, 9] = Some (Inr (), q'') \<and> q_list q'' = [7, 8, 9]"
proof -
  have "ptr_bytes (the (q_double 4 (q_size q_two))) < 4096"
    by (simp add: q_two_def q_double.simps s32_def ptr_bytes_def)
  moreover have "int (length (q_list q_two) + length [8, 9 :: nat]) < 4"
    by (simp add: q_two_inv del: length_q_list)
  ultimately show ?thesis
    using q_preallocate_room [OF km_small(2) q_two_inv(1), of 4]
    by (auto simp: q_two_inv simp del: length_q_list dest!: spec [of _ "[8, 9]"] spec [of _ "\<lambda>b. False"])
qed

end
