(* ===== verification/Kern_Thread.thy ===== *)
theory Kern_Thread
  imports Kern_Queue Kern_Array "HOL-Library.Multiset"
begin

text \<open>
  The thread system: \<^verbatim>\<open>kern/thread/scheduler.c\<close>, \<^verbatim>\<open>kern/thread/hardclock.c\<close>, the interrupt
  level of \<^verbatim>\<open>arch/mips/mips/spl.c\<close>, and the part of \<^verbatim>\<open>thread.c\<close> that moves threads between
  the run queue, the sleepers and the zombies.

  A thread is the address of its \<^verbatim>\<open>struct thread\<close>; \<open>tsys\<close> holds the global variables. A
  context switch ends one function call and resumes another: \<open>mi_switch\<close> goes up to
  \<^verbatim>\<open>md_switch\<close>, \<open>mi_resume\<close> is what the thread that gets the processor does next. While the
  run queue is empty the scheduler waits for interrupts; the handlers that arrive are the
  argument \<open>irqs\<close>, and a scheduler that gets no more of them does not return (\<open>None\<close>).
\<close>

section \<open>Model\<close>

record tsys =
  runqueue :: "nat queue"
  sleepers :: "nat karray"
  zombies :: "nat karray"
  curthread :: "nat option"
  t_sleepaddr :: "nat \<Rightarrow> nat option"
  stack_ok :: "nat \<Rightarrow> bool"
  numthreads :: int
  curspl :: int
  iec :: bool
  in_interrupt :: bool
  lbolt_counter :: int

type_synonym irqs = "(tsys \<Rightarrow> tsys option) list"

subsection \<open>Interrupt levels\<close>

definition splx :: "int \<Rightarrow> tsys \<Rightarrow> int \<times> tsys" where
  "splx newspl ts = (curspl ts,
     ts\<lparr>iec := (if newspl > 0 then False else if newspl = 0 then True else iec ts), curspl := newspl\<rparr>)"

definition splhigh :: "tsys \<Rightarrow> int \<times> tsys" where
  "splhigh ts = splx 15 ts"

definition spl0 :: "tsys \<Rightarrow> int \<times> tsys" where
  "spl0 ts = splx 0 ts"

subsection \<open>Scheduler\<close>

definition scheduler_bootstrap :: "kmalloc_oracle \<Rightarrow> tsys \<Rightarrow> tsys option" where
  "scheduler_bootstrap km ts =
     (case q_create km 32 of Inl _ \<Rightarrow> None | Inr q \<Rightarrow> Some (ts\<lparr>runqueue := q\<rparr>))"

definition scheduler_preallocate :: "kmalloc_oracle \<Rightarrow> int \<Rightarrow> tsys \<Rightarrow> ((errno + unit) \<times> tsys) option" where
  "scheduler_preallocate km nthreads ts = do {
     kassert (curspl ts > 0);
     (result, q) \<leftarrow> q_preallocate km (runqueue ts) nthreads;
     Some (result, ts\<lparr>runqueue := q\<rparr>)
   }"

partial_function (option) q_discard :: "nat queue \<Rightarrow> nat queue option" where
  "q_discard q = (if q_empty q then Some q else Option.bind (q_remhead q) (\<lambda>p. q_discard (snd p)))"

definition scheduler_killall :: "tsys \<Rightarrow> tsys option" where
  "scheduler_killall ts = do {
     kassert (curspl ts > 0);
     q \<leftarrow> q_discard (runqueue ts);
     Some (ts\<lparr>runqueue := q\<rparr>)
   }"

text \<open>\<^verbatim>\<open>scheduler_shutdown\<close> frees the run queue, which must be empty by then.\<close>
definition scheduler_shutdown :: "tsys \<Rightarrow> unit option" where
  "scheduler_shutdown ts = do {
     ts \<leftarrow> scheduler_killall ts;
     kassert (curspl ts > 0);
     q_destroy (runqueue ts)
   }"

fun scheduler :: "irqs \<Rightarrow> tsys \<Rightarrow> (nat \<times> tsys) option" where
  "scheduler irqs ts = do {
     kassert (curspl ts > 0);
     if q_empty (runqueue ts)
     then (case irqs of [] \<Rightarrow> None | irq # irqs \<Rightarrow> do { ts \<leftarrow> irq ts; scheduler irqs ts })
     else do {
       (t, q) \<leftarrow> q_remhead (runqueue ts);
       Some (t, ts\<lparr>runqueue := q\<rparr>)
     }
   }"

declare scheduler.simps [simp del]

definition make_runnable :: "kmalloc_oracle \<Rightarrow> nat \<Rightarrow> tsys \<Rightarrow> ((errno + unit) \<times> tsys) option" where
  "make_runnable km t ts = do {
     kassert (curspl ts > 0);
     (result, q) \<leftarrow> q_addtail km (runqueue ts) t;
     Some (result, ts\<lparr>runqueue := q\<rparr>)
   }"

subsection \<open>Context switch\<close>

datatype threadstate_t = S_RUN | S_READY | S_SLEEP | S_ZOMB

text \<open>Where \<^verbatim>\<open>mi_switch\<close> puts the thread that gives up the processor.\<close>
definition stash :: "kmalloc_oracle \<Rightarrow> threadstate_t \<Rightarrow> nat \<Rightarrow> tsys \<Rightarrow> ((errno + unit) \<times> tsys) option" where
  "stash km nextstate cur ts =
     (case nextstate of
        S_READY \<Rightarrow> make_runnable km cur ts
      | S_SLEEP \<Rightarrow> do {
          (result, a) \<leftarrow> array_add km (sleepers ts) cur;
          Some (result, ts\<lparr>sleepers := a\<rparr>)
        }
      | S_ZOMB \<Rightarrow> do {
          (result, a) \<leftarrow> array_add km (zombies ts) cur;
          Some (result, ts\<lparr>zombies := a\<rparr>)
        }
      | S_RUN \<Rightarrow> None)"

text \<open>\<^verbatim>\<open>mi_switch\<close> up to the call of the scheduler, for the current thread \<open>cur\<close>.\<close>
definition mi_switch_out :: "kmalloc_oracle \<Rightarrow> threadstate_t \<Rightarrow> nat \<Rightarrow> tsys \<Rightarrow> tsys option" where
  "mi_switch_out km nextstate cur ts = do {
     kassert (stack_ok ts cur);
     (result, ts) \<leftarrow> stash km nextstate cur (ts\<lparr>curthread := None\<rparr>);
     kassert (result = Inr ());
     Some ts
   }"

definition dispatch :: "irqs \<Rightarrow> tsys \<Rightarrow> tsys option" where
  "dispatch irqs ts = do {
     (next, ts) \<leftarrow> scheduler irqs ts;
     Some (ts\<lparr>curthread := Some next\<rparr>)
   }"

definition mi_switch :: "kmalloc_oracle \<Rightarrow> irqs \<Rightarrow> threadstate_t \<Rightarrow> tsys \<Rightarrow> tsys option" where
  "mi_switch km irqs nextstate ts = do {
     kassert (curspl ts > 0);
     case curthread ts of
       None \<Rightarrow> Some ts
     | Some cur \<Rightarrow> do {
         ts \<leftarrow> mi_switch_out km nextstate cur ts;
         dispatch irqs ts
       }
   }"

text \<open>\<^verbatim>\<open>exorcise\<close>: no zombie may be the current thread; then the zombies are dropped.\<close>
definition exorcise :: "kmalloc_oracle \<Rightarrow> tsys \<Rightarrow> tsys option" where
  "exorcise km ts = do {
     kassert (curspl ts > 0);
     found \<leftarrow> scan (nat (array_getnum (zombies ts))) (\<lambda>z. curthread ts = Some z) (array_getguy (zombies ts)) 0;
     kassert (found = None);
     (result, a) \<leftarrow> array_setsize km (zombies ts) 0;
     kassert (result = Inr ());
     Some (ts\<lparr>zombies := a\<rparr>)
   }"

text \<open>What a thread that had called \<^verbatim>\<open>mi_switch\<close> does when it gets the processor back.\<close>
definition mi_resume :: "kmalloc_oracle \<Rightarrow> tsys \<Rightarrow> tsys option" where
  "mi_resume km ts = exorcise km ts"

definition thread_yield :: "kmalloc_oracle \<Rightarrow> irqs \<Rightarrow> tsys \<Rightarrow> tsys option" where
  "thread_yield km irqs ts = mi_switch km irqs S_READY (snd (splhigh ts))"

definition thread_sleep :: "kmalloc_oracle \<Rightarrow> irqs \<Rightarrow> nat \<Rightarrow> tsys \<Rightarrow> tsys option" where
  "thread_sleep km irqs addr ts = do {
     kassert (\<not> in_interrupt ts);
     cur \<leftarrow> curthread ts;
     mi_switch km irqs S_SLEEP (ts\<lparr>t_sleepaddr := (t_sleepaddr ts)(cur := Some addr)\<rparr>)
   }"

text \<open>The rest of \<^verbatim>\<open>thread_sleep\<close>, run by the thread that has been woken up.\<close>
definition thread_sleep_end :: "kmalloc_oracle \<Rightarrow> tsys \<Rightarrow> tsys option" where
  "thread_sleep_end km ts = do {
     ts \<leftarrow> mi_resume km ts;
     cur \<leftarrow> curthread ts;
     Some (ts\<lparr>t_sleepaddr := (t_sleepaddr ts)(cur := None)\<rparr>)
   }"

text \<open>
  The loop of \<^verbatim>\<open>thread_wakeup\<close>. Each iteration either removes \<^verbatim>\<open>sleepers[i]\<close> or increments
  \<open>i\<close>, so the number of iterations is the number of elements from \<open>i\<close> on; \<open>None\<close> would mean that the
  bound was too small.
\<close>
primrec wakeup_loop :: "nat \<Rightarrow> kmalloc_oracle \<Rightarrow> nat \<Rightarrow> int \<Rightarrow> tsys \<Rightarrow> tsys option" where
  "wakeup_loop 0 km addr i ts = (if i < array_getnum (sleepers ts) then None else Some ts)"
| "wakeup_loop (Suc n) km addr i ts =
     (if i < array_getnum (sleepers ts)
      then do {
        t \<leftarrow> array_getguy (sleepers ts) i;
        if t_sleepaddr ts t = Some addr
        then do {
          a \<leftarrow> array_remove (sleepers ts) i;
          (result, ts) \<leftarrow> make_runnable km t (ts\<lparr>sleepers := a\<rparr>);
          kassert (result = Inr ());
          wakeup_loop n km addr i ts
        }
        else wakeup_loop n km addr (i + 1) ts
      }
      else Some ts)"

definition thread_wakeup :: "kmalloc_oracle \<Rightarrow> nat \<Rightarrow> tsys \<Rightarrow> tsys option" where
  "thread_wakeup km addr ts = do {
     kassert (curspl ts > 0);
     wakeup_loop (nat (array_getnum (sleepers ts))) km addr 0 ts
   }"

definition thread_hassleepers :: "nat \<Rightarrow> tsys \<Rightarrow> bool option" where
  "thread_hassleepers addr ts = do {
     kassert (curspl ts > 0);
     found \<leftarrow> scan (nat (array_getnum (sleepers ts))) (\<lambda>t. t_sleepaddr ts t = Some addr) (array_getguy (sleepers ts)) 0;
     Some (found \<noteq> None)
   }"

text \<open>
  The atomic part of \<^verbatim>\<open>thread_fork\<close>, from \<^verbatim>\<open>splhigh\<close> on; before it, the new thread has been
  allocated and set up, which is not visible to the thread system.
\<close>
definition thread_fork_atomic :: "kmalloc_oracle \<Rightarrow> nat \<Rightarrow> tsys \<Rightarrow> ((errno + unit) \<times> tsys) option" where
  "thread_fork_atomic km child ts = do {
     let (s, ts) = splhigh ts;
     (result, a) \<leftarrow> array_preallocate km (sleepers ts) (s32 (numthreads ts + 1));
     let ts = ts\<lparr>sleepers := a\<rparr>;
     case result of Inl err \<Rightarrow> Some (Inl err, snd (splx s ts)) | Inr _ \<Rightarrow> do {
       (result, a) \<leftarrow> array_preallocate km (zombies ts) (s32 (numthreads ts + 1));
       let ts = ts\<lparr>zombies := a\<rparr>;
       case result of Inl err \<Rightarrow> Some (Inl err, snd (splx s ts)) | Inr _ \<Rightarrow> do {
         (result, ts) \<leftarrow> scheduler_preallocate km (s32 (numthreads ts + 1)) ts;
         case result of Inl err \<Rightarrow> Some (Inl err, snd (splx s ts)) | Inr _ \<Rightarrow> do {
           (result, ts) \<leftarrow> make_runnable km child ts;
           case result of Inl err \<Rightarrow> Some (Inl err, snd (splx s ts))
           | Inr _ \<Rightarrow> Some (Inr (), snd (splx s (ts\<lparr>numthreads := s32 (numthreads ts + 1)\<rparr>)))
         }
       }
     }
   }"

text \<open>\<^verbatim>\<open>thread_exit\<close> once the address space and the current directory have been given up.\<close>
definition thread_exit :: "kmalloc_oracle \<Rightarrow> irqs \<Rightarrow> tsys \<Rightarrow> tsys option" where
  "thread_exit km irqs ts = do {
     cur \<leftarrow> curthread ts;
     kassert (stack_ok ts cur);
     let ts = snd (splhigh ts);
     kassert (numthreads ts > 0);
     mi_switch km irqs S_ZOMB (ts\<lparr>numthreads := numthreads ts - 1\<rparr>)
   }"

definition thread_killall :: "kmalloc_oracle \<Rightarrow> tsys \<Rightarrow> tsys option" where
  "thread_killall km ts = do {
     kassert (curspl ts > 0);
     (result, a) \<leftarrow> array_setsize km (sleepers ts) 0;
     kassert (result = Inr ());
     Some (ts\<lparr>sleepers := a\<rparr>)
   }"

definition thread_panic :: "kmalloc_oracle \<Rightarrow> tsys \<Rightarrow> tsys option" where
  "thread_panic km ts = do {
     kassert (curspl ts > 0);
     ts \<leftarrow> thread_killall km ts;
     scheduler_killall ts
   }"

subsection \<open>The clock\<close>

text \<open>\<^verbatim>\<open>HZ\<close> with and without the kernel option \<^verbatim>\<open>synchprobs\<close>. \<open>lbolt\<close> is the address of that variable.\<close>
definition HZ :: "bool \<Rightarrow> int" where
  "HZ synchprobs = (if synchprobs then 10000 else 100)"

definition hardclock :: "kmalloc_oracle \<Rightarrow> irqs \<Rightarrow> bool \<Rightarrow> nat \<Rightarrow> tsys \<Rightarrow> tsys option" where
  "hardclock km irqs synchprobs lbolt ts = do {
     let ts = ts\<lparr>lbolt_counter := s32 (lbolt_counter ts + 1)\<rparr>;
     ts \<leftarrow> (if lbolt_counter ts \<ge> HZ synchprobs then thread_wakeup km lbolt (ts\<lparr>lbolt_counter := 0\<rparr>) else Some ts);
     thread_yield km irqs ts
   }"

section \<open>The thread system as lists\<close>

abbreviation runq :: "tsys \<Rightarrow> nat list" where
  "runq ts \<equiv> q_list (runqueue ts)"

definition slist :: "tsys \<Rightarrow> nat list" where
  "slist ts = map cell_val (arr_list (sleepers ts))"

definition zlist :: "tsys \<Rightarrow> nat list" where
  "zlist ts = map cell_val (arr_list (zombies ts))"

definition curl :: "tsys \<Rightarrow> nat list" where
  "curl ts = (case curthread ts of None \<Rightarrow> [] | Some t \<Rightarrow> [t])"

text \<open>
  The invariant. Every thread is in one place: the processor, the run queue, the sleepers
  or the zombies; \<^verbatim>\<open>numthreads\<close> counts those that have not exited. The arrays have the room
  that \<^verbatim>\<open>thread_fork\<close> asked for.
\<close>
definition ts_inv :: "tsys \<Rightarrow> bool" where
  "ts_inv ts \<longleftrightarrow> q_inv (runqueue ts) \<and> ka.holds (sleepers ts) (slist ts) \<and> ka.holds (zombies ts) (zlist ts)
     \<and> distinct (curl ts @ runq ts @ slist ts @ zlist ts)
     \<and> numthreads ts = int (length (curl ts @ runq ts @ slist ts))
     \<and> numthreads ts \<le> a_max (sleepers ts) \<and> numthreads ts \<le> q_size (runqueue ts)"

lemma holds_slist: "ka.holds a xs \<Longrightarrow> map cell_val (arr_list a) = xs"
  by (simp add: ka.holds_def comp_def)

lemma array_add_room:
  assumes h: "ka.holds a xs" and room: "int (length xs) < a_max a"
  shows "\<exists>a'. array_add km a x = Some (Inr (), a') \<and> ka.holds a' (xs @ [x]) \<and> a_max a' = a_max a"
proof -
  have inv: "arr_inv a" and l: "arr_list a = map Val xs" using h by (simp_all add: ka.holds_def)
  note d = arr_inv_dest [OF inv]
  have n: "a_num a = int (length xs)" using length_arr_list [OF inv] l by simp
  have "array_setsize km a (s32 (a_num a + 1)) = Some (Inr (), a\<lparr>a_num := a_num a + 1\<rparr>)"
    using d n room by (simp add: array_setsize_def)
  moreover have cu: "cupd (vblock (a_v a)) (a_num a) (Val x) = Some ((vblock (a_v a))[length xs := Val x])"
    using d n room by simp
  ultimately have "array_add km a x = Some (Inr (), a\<lparr>a_num := a_num a + 1, a_v := Some ((vblock (a_v a))[length xs := Val x])\<rparr>)"
    by (simp add: array_add_def)
  moreover have "ka.holds (a\<lparr>a_num := a_num a + 1, a_v := Some ((vblock (a_v a))[length xs := Val x])\<rparr>) (xs @ [x])"
  proof -
    have len: "length xs < length (vblock (a_v a))" using d n room by linarith
    have "take (length xs) (vblock (a_v a)) = map Val xs" using l n by (simp add: arr_list_def)
    then have "take (Suc (length xs)) ((vblock (a_v a))[length xs := Val x]) = map Val (xs @ [x])"
      using len by (simp add: take_Suc_conv_app_nth)
    moreover have "nat (a_num a + 1) = Suc (length xs)" using n by simp
    ultimately show ?thesis using d n room by (simp add: ka.holds_def arr_inv_def arr_list_def)
  qed
  ultimately show ?thesis by auto
qed

lemma array_remove_max: "array_remove a i = Some a' \<Longrightarrow> a_max a' = a_max a"
  by (auto simp: array_remove_def Let_def bind_eq_Some_conv)

lemma make_runnable_ok:
  assumes "curspl ts > 0" "q_inv (runqueue ts)" "int (length (runq ts)) < q_size (runqueue ts) - 1"
  shows "\<exists>q. make_runnable km t ts = Some (Inr (), ts\<lparr>runqueue := q\<rparr>) \<and> q_inv q
    \<and> q_list q = runq ts @ [t] \<and> q_size q = q_size (runqueue ts)"
proof -
  from q_addtail_room [OF assms(2), of km t] assms(3) obtain q where
    "q_addtail km (runqueue ts) t = Some (Inr (), q)" "q_inv q" "q_list q = runq ts @ [t]"
    "q_size q = q_size (runqueue ts)" by auto
  then show ?thesis using assms(1) by (auto simp: make_runnable_def)
qed

lemma scheduler_ready:
  assumes "curspl ts > 0" "q_inv (runqueue ts)" "runq ts = t # rest"
  shows "\<exists>q. scheduler irqs ts = Some (t, ts\<lparr>runqueue := q\<rparr>) \<and> q_inv q \<and> q_list q = rest
    \<and> q_size q = q_size (runqueue ts)"
proof -
  have "\<not> q_empty (runqueue ts)" using q_empty_iff [OF assms(2)] assms(3) by simp
  moreover from q_remhead_ok [OF assms(2)] assms(3) obtain q where
    "q_remhead (runqueue ts) = Some (t, q)" "q_inv q" "q_list q = rest" "q_size q = q_size (runqueue ts)" by auto
  ultimately show ?thesis using assms(1) by (subst scheduler.simps) auto
qed

text \<open>The wake-up loop moves the matching sleepers, in order, to the end of the run queue.\<close>
lemma wakeup_loop_ok:
  assumes "curspl ts > 0" "q_inv (runqueue ts)" "ka.holds (sleepers ts) (pre @ xs)"
    "int (length (runq ts) + length (filter (\<lambda>t. t_sleepaddr ts t = Some addr) xs)) < q_size (runqueue ts)"
  shows "\<exists>q a. wakeup_loop (length xs) km addr (int (length pre)) ts = Some (ts\<lparr>runqueue := q, sleepers := a\<rparr>)
    \<and> q_inv q \<and> q_list q = runq ts @ filter (\<lambda>t. t_sleepaddr ts t = Some addr) xs \<and> q_size q = q_size (runqueue ts)
    \<and> ka.holds a (pre @ filter (\<lambda>t. t_sleepaddr ts t \<noteq> Some addr) xs) \<and> a_max a = a_max (sleepers ts)"
  using assms
proof (induction xs arbitrary: ts pre)
  case Nil
  then show ?case by (intro exI [of _ "runqueue ts"] exI [of _ "sleepers ts"]) (simp add: ka.holds_getnum)
next
  case (Cons x xs)
  have num: "array_getnum (sleepers ts) = int (length pre + Suc (length xs))"
    and guy: "array_getguy (sleepers ts) (int (length pre)) = Some x"
    using ka.holds_getnum [OF Cons.prems(3)] ka.holds_getguy [OF Cons.prems(3), of "length pre"] by simp_all
  show ?case
  proof (cases "t_sleepaddr ts x = Some addr")
    case True
    have "length pre < length (pre @ x # xs)" by simp
    from ka.holds_remove [OF Cons.prems(3) this] obtain a where
      a: "array_remove (sleepers ts) (int (length pre)) = Some a" "ka.holds a (pre @ xs)" by auto
    let ?ts = "ts\<lparr>sleepers := a\<rparr>"
    from make_runnable_ok [of ?ts km x] Cons.prems(1,2,4) True obtain q where
      q: "make_runnable km x ?ts = Some (Inr (), ?ts\<lparr>runqueue := q\<rparr>)" "q_inv q" "q_list q = runq ts @ [x]"
        "q_size q = q_size (runqueue ts)" by auto
    from Cons.IH [of "?ts\<lparr>runqueue := q\<rparr>" pre] q a(2) Cons.prems(1,4) True obtain q' a' where
      "wakeup_loop (length xs) km addr (int (length pre)) (?ts\<lparr>runqueue := q\<rparr>) = Some (ts\<lparr>runqueue := q', sleepers := a'\<rparr>)"
      "q_inv q'" "q_list q' = runq ts @ x # filter (\<lambda>t. t_sleepaddr ts t = Some addr) xs" "q_size q' = q_size (runqueue ts)"
      "ka.holds a' (pre @ filter (\<lambda>t. t_sleepaddr ts t \<noteq> Some addr) xs)" "a_max a' = a_max a" by auto
    then show ?thesis using num guy True a(1) q(1) array_remove_max [OF a(1)] by auto
  next
    case False
    have h: "ka.holds (sleepers ts) ((pre @ [x]) @ xs)" using Cons.prems(3) by simp
    have "int (length (pre @ [x])) = int (length pre) + 1" by simp
    then show ?thesis using Cons.IH [OF Cons.prems(1,2) h] Cons.prems(4) num guy False by (auto simp: add.commute)
  qed
qed

lemma thread_wakeup_ok:
  assumes inv: "ts_inv ts" and spl: "curspl ts > 0" and cur: "curthread ts = Some cur"
  shows "\<exists>q a. thread_wakeup km addr ts = Some (ts\<lparr>runqueue := q, sleepers := a\<rparr>)
    \<and> q_list q = runq ts @ filter (\<lambda>t. t_sleepaddr ts t = Some addr) (slist ts)
    \<and> ka.holds a (filter (\<lambda>t. t_sleepaddr ts t \<noteq> Some addr) (slist ts)) \<and> ts_inv (ts\<lparr>runqueue := q, sleepers := a\<rparr>)"
proof -
  let ?P = "\<lambda>t. t_sleepaddr ts t = Some addr" and ?ss = "slist ts"
  have h: "ka.holds (sleepers ts) ([] @ ?ss)" and q: "q_inv (runqueue ts)"
    and n: "numthreads ts = 1 + int (length (runq ts) + length ?ss)" "numthreads ts \<le> q_size (runqueue ts)"
    using inv cur by (simp_all add: ts_inv_def curl_def)
  have "length (filter ?P ?ss) \<le> length ?ss" by simp
  then have room: "int (length (runq ts) + length (filter ?P ?ss)) < q_size (runqueue ts)" using n by linarith
  have "nat (array_getnum (sleepers ts)) = length ?ss" using ka.holds_getnum [OF h] by simp
  with wakeup_loop_ok [OF spl q h room, of km] spl obtain q' a where
    w: "thread_wakeup km addr ts = Some (ts\<lparr>runqueue := q', sleepers := a\<rparr>)" "q_inv q'"
      "q_list q' = runq ts @ filter ?P ?ss" "q_size q' = q_size (runqueue ts)"
      "ka.holds a (filter (\<lambda>t. \<not> ?P t) ?ss)" "a_max a = a_max (sleepers ts)"
    by (auto simp: thread_wakeup_def)
  let ?ts = "ts\<lparr>runqueue := q', sleepers := a\<rparr>"
  have sl: "slist ?ts = filter (\<lambda>t. \<not> ?P t) ?ss" using holds_slist [OF w(5)] by (simp add: slist_def)
  have "mset (filter ?P ?ss) + mset (filter (\<lambda>t. \<not> ?P t) ?ss) = mset ?ss" by simp
  then have ms: "mset (curl ?ts @ runq ?ts @ slist ?ts @ zlist ?ts) = mset (curl ts @ runq ts @ slist ts @ zlist ts)"
    and len: "length (filter ?P ?ss) + length (filter (\<lambda>t. \<not> ?P t) ?ss) = length ?ss"
    using w(3) sl by (simp_all add: curl_def zlist_def sum_length_filter_compl)
  have "distinct (curl ?ts @ runq ?ts @ slist ?ts @ zlist ?ts)"
    using inv mset_eq_imp_distinct_iff [OF ms] by (simp add: ts_inv_def)
  moreover have "numthreads ?ts = int (length (curl ?ts @ runq ?ts @ slist ?ts))"
    using n(1) w(3) sl len cur by (simp add: curl_def)
  ultimately have "ts_inv ?ts" using inv w sl unfolding ts_inv_def by (simp add: zlist_def)
  then show ?thesis using w by blast
qed

lemma array_setsize_zero:
  assumes "arr_inv a"
  shows "\<exists>a'. array_setsize km a 0 = Some (Inr (), a') \<and> ka.holds a' []"
  using arr_inv_dest [OF assms]
  by (cases "a_max a > 16") (auto simp: array_setsize_def ka.holds_def arr_inv_def arr_list_def kassert_def)

lemma exorcise_ok:
  assumes inv: "ts_inv ts" and spl: "curspl ts > 0"
  shows "\<exists>a. exorcise km ts = Some (ts\<lparr>zombies := a\<rparr>) \<and> ka.holds a [] \<and> ts_inv (ts\<lparr>zombies := a\<rparr>)"
proof -
  have h: "ka.holds (zombies ts) (zlist ts)" using inv by (simp add: ts_inv_def)
  have "\<forall>z\<in>set (zlist ts). \<not> curthread ts = Some z"
    using inv by (auto simp: ts_inv_def curl_def split: option.splits)
  from ka.holds_scan_none [OF h this] have sc: "scan (nat (array_getnum (zombies ts))) (\<lambda>z. curthread ts = Some z) (array_getguy (zombies ts)) 0 = Some None" .
  have "arr_inv (zombies ts)" using h by (simp add: ka.holds_def)
  from array_setsize_zero [OF this, of km] obtain a where
    a: "array_setsize km (zombies ts) 0 = Some (Inr (), a)" "ka.holds a []" by blast
  have "zlist (ts\<lparr>zombies := a\<rparr>) = []" using holds_slist [OF a(2)] by (simp add: zlist_def)
  then have "ts_inv (ts\<lparr>zombies := a\<rparr>)" using inv a(2) by (auto simp: ts_inv_def curl_def slist_def)
  moreover have "exorcise km ts = Some (ts\<lparr>zombies := a\<rparr>)" using sc a(1) spl by (simp add: exorcise_def)
  ultimately show ?thesis using a(2) by blast
qed

section \<open>Context switches\<close>

lemma dispatch_ok:
  assumes inv: "ts_inv ts" and spl: "curspl ts > 0" and idle: "curthread ts = None" and q: "runq ts = t # rest"
  shows "\<exists>q. dispatch irqs ts = Some (ts\<lparr>curthread := Some t, runqueue := q\<rparr>) \<and> q_list q = rest
    \<and> q_size q = q_size (runqueue ts) \<and> ts_inv (ts\<lparr>curthread := Some t, runqueue := q\<rparr>)"
proof -
  have qi: "q_inv (runqueue ts)" using inv by (simp add: ts_inv_def)
  from scheduler_ready [OF spl qi q, of irqs] obtain q' where
    s: "scheduler irqs ts = Some (t, ts\<lparr>runqueue := q'\<rparr>)" "q_inv q'" "q_list q' = rest" "q_size q' = q_size (runqueue ts)" by blast
  have "length (runq ts) = Suc (length rest)" using q by simp
  then have "ts_inv (ts\<lparr>curthread := Some t, runqueue := q'\<rparr>)"
    using inv idle q s by (auto simp: ts_inv_def curl_def slist_def zlist_def simp flip: length_q_list)
  then show ?thesis using s by (intro exI [of _ q']) (simp add: dispatch_def)
qed

lemma switch_out_sleep:
  assumes inv: "ts_inv ts" and cur: "curthread ts = Some cur" and st: "stack_ok ts cur"
  shows "\<exists>a. mi_switch_out km S_SLEEP cur ts = Some (ts\<lparr>curthread := None, sleepers := a\<rparr>)
    \<and> ka.holds a (slist ts @ [cur]) \<and> ts_inv (ts\<lparr>curthread := None, sleepers := a\<rparr>)"
proof -
  have h: "ka.holds (sleepers ts) (slist ts)" and room: "int (length (slist ts)) < a_max (sleepers ts)"
    using inv cur by (auto simp: ts_inv_def curl_def)
  from array_add_room [OF h room, of km cur] obtain a where
    a: "array_add km (sleepers ts) cur = Some (Inr (), a)" "ka.holds a (slist ts @ [cur])" "a_max a = a_max (sleepers ts)" by blast
  have "slist (ts\<lparr>curthread := None, sleepers := a\<rparr>) = slist ts @ [cur]" using holds_slist [OF a(2)] by (simp add: slist_def)
  then have "ts_inv (ts\<lparr>curthread := None, sleepers := a\<rparr>)"
    using inv cur a by (auto simp: ts_inv_def curl_def zlist_def)
  then show ?thesis using a st by (intro exI [of _ a]) (simp add: mi_switch_out_def stash_def)
qed

lemma switch_out_ready:
  assumes inv: "ts_inv ts" and cur: "curthread ts = Some cur" and st: "stack_ok ts cur" and spl: "curspl ts > 0"
    and room: "numthreads ts < q_size (runqueue ts)"
  shows "\<exists>q. mi_switch_out km S_READY cur ts = Some (ts\<lparr>curthread := None, runqueue := q\<rparr>)
    \<and> q_list q = runq ts @ [cur] \<and> q_size q = q_size (runqueue ts) \<and> ts_inv (ts\<lparr>curthread := None, runqueue := q\<rparr>)"
proof -
  have qi: "q_inv (runqueue ts)" and len: "int (length (runq ts)) < q_size (runqueue ts) - 1"
    using inv cur room by (auto simp: ts_inv_def curl_def)
  from make_runnable_ok [of "ts\<lparr>curthread := None\<rparr>" km cur] qi len spl obtain q where
    q: "make_runnable km cur (ts\<lparr>curthread := None\<rparr>) = Some (Inr (), ts\<lparr>curthread := None, runqueue := q\<rparr>)" "q_inv q"
      "q_list q = runq ts @ [cur]" "q_size q = q_size (runqueue ts)" by auto
  have "length (q_list q) = Suc (length (runq ts))" using q(3) by simp
  then have "ts_inv (ts\<lparr>curthread := None, runqueue := q\<rparr>)"
    using inv cur q by (auto simp: ts_inv_def curl_def slist_def zlist_def)
  then show ?thesis using q st by (intro exI [of _ q]) (simp add: mi_switch_out_def stash_def)
qed

lemma switch_out_zomb:
  assumes inv: "ts_inv ts" and cur: "curthread ts = Some cur" and st: "stack_ok ts cur"
    and room: "int (length (zlist ts)) < a_max (zombies ts)"
  defines "n \<equiv> numthreads ts - 1"
  shows "\<exists>a. mi_switch_out km S_ZOMB cur (ts\<lparr>numthreads := n\<rparr>) = Some (ts\<lparr>numthreads := n, curthread := None, zombies := a\<rparr>)
    \<and> ka.holds a (zlist ts @ [cur]) \<and> ts_inv (ts\<lparr>numthreads := n, curthread := None, zombies := a\<rparr>)"
proof -
  have h: "ka.holds (zombies ts) (zlist ts)" using inv by (auto simp: ts_inv_def)
  from array_add_room [OF h room, of km cur] obtain a where
    a: "array_add km (zombies ts) cur = Some (Inr (), a)" "ka.holds a (zlist ts @ [cur])" by blast
  have "zlist (ts\<lparr>numthreads := n, curthread := None, zombies := a\<rparr>) = zlist ts @ [cur]" using holds_slist [OF a(2)] by (simp add: zlist_def)
  then have "ts_inv (ts\<lparr>numthreads := n, curthread := None, zombies := a\<rparr>)"
    using inv cur a by (auto simp: ts_inv_def curl_def slist_def n_def)
  then show ?thesis using a st by (intro exI [of _ a]) (simp add: mi_switch_out_def stash_def)
qed

text \<open>A thread yields, and the thread that gets the processor finishes its \<^verbatim>\<open>mi_switch\<close>.\<close>
definition yield_resume :: "kmalloc_oracle \<Rightarrow> irqs \<Rightarrow> tsys \<Rightarrow> tsys option" where
  "yield_resume km irqs ts = Option.bind (thread_yield km irqs ts) (mi_resume km)"

primrec yields :: "nat \<Rightarrow> kmalloc_oracle \<Rightarrow> irqs \<Rightarrow> tsys \<Rightarrow> tsys option" where
  "yields 0 km irqs ts = Some ts"
| "yields (Suc n) km irqs ts = Option.bind (yield_resume km irqs ts) (yields n km irqs)"

text \<open>States in which a switch cannot fail: a thread is running, and the run queue has a spare cell.\<close>
definition ts_roomy :: "tsys \<Rightarrow> bool" where
  "ts_roomy ts \<longleftrightarrow> ts_inv ts \<and> curthread ts \<noteq> None \<and> numthreads ts < q_size (runqueue ts) \<and> (\<forall>t. stack_ok ts t)"

lemma splhigh_simps [simp]:
  "curspl (snd (splhigh ts)) = 15" "ts_inv (snd (splhigh ts)) = ts_inv ts"
  "curthread (snd (splhigh ts)) = curthread ts" "runqueue (snd (splhigh ts)) = runqueue ts"
  "numthreads (snd (splhigh ts)) = numthreads ts" "stack_ok (snd (splhigh ts)) = stack_ok ts"
  "sleepers (snd (splhigh ts)) = sleepers ts" "t_sleepaddr (snd (splhigh ts)) = t_sleepaddr ts"
  by (simp_all add: splhigh_def splx_def ts_inv_def curl_def slist_def zlist_def)

lemma yield_resume_ok:
  assumes "ts_roomy ts"
  shows "\<exists>ts'. yield_resume km irqs ts = Some ts' \<and> ts_roomy ts' \<and> curl ts' @ runq ts' = rotate1 (curl ts @ runq ts)
    \<and> slist ts' = slist ts"
proof -
  obtain cur where cur: "curthread ts = Some cur" using assms by (auto simp: ts_roomy_def)
  let ?t0 = "snd (splhigh ts)"
  have inv: "ts_inv ?t0" "curthread ?t0 = Some cur" "stack_ok ?t0 cur" "curspl ?t0 > 0" "numthreads ?t0 < q_size (runqueue ?t0)"
    using assms cur by (simp_all add: ts_roomy_def)
  from switch_out_ready [OF inv, of km] obtain q where
    q: "mi_switch_out km S_READY cur ?t0 = Some (?t0\<lparr>curthread := None, runqueue := q\<rparr>)" "q_list q = runq ts @ [cur]"
      "q_size q = q_size (runqueue ts)" "ts_inv (?t0\<lparr>curthread := None, runqueue := q\<rparr>)" by auto
  obtain t rest where tr: "runq ts @ [cur] = t # rest" by (cases "runq ts @ [cur]") auto
  let ?t1 = "?t0\<lparr>curthread := None, runqueue := q\<rparr>"
  have "curspl ?t1 > 0" "curthread ?t1 = None" "runq ?t1 = t # rest" using q(2) tr by simp_all
  from dispatch_ok [OF q(4) this, of irqs] obtain q' where
    d: "dispatch irqs ?t1 = Some (?t1\<lparr>curthread := Some t, runqueue := q'\<rparr>)" "q_list q' = rest" "q_size q' = q_size q"
      "ts_inv (?t1\<lparr>curthread := Some t, runqueue := q'\<rparr>)" by auto
  let ?t2 = "?t1\<lparr>curthread := Some t, runqueue := q'\<rparr>"
  have y: "thread_yield km irqs ts = Some ?t2" using inv(2) q(1) d(1) by (simp add: thread_yield_def mi_switch_def)
  from exorcise_ok [OF d(4), of km] obtain a where
    e: "exorcise km ?t2 = Some (?t2\<lparr>zombies := a\<rparr>)" "ts_inv (?t2\<lparr>zombies := a\<rparr>)" by auto
  have "ts_roomy (?t2\<lparr>zombies := a\<rparr>)" using assms e(2) q(3) d(3) by (simp add: ts_roomy_def)
  moreover have "curl (?t2\<lparr>zombies := a\<rparr>) @ runq (?t2\<lparr>zombies := a\<rparr>) = rotate1 (curl ts @ runq ts)"
    using cur d(2) tr by (simp add: curl_def)
  moreover have "slist (?t2\<lparr>zombies := a\<rparr>) = slist ts" by (simp add: slist_def)
  ultimately show ?thesis using y e(1) by (auto simp: yield_resume_def mi_resume_def)
qed

lemma yields_ok:
  "ts_roomy ts \<Longrightarrow> \<exists>ts'. yields n km irqs ts = Some ts' \<and> ts_roomy ts' \<and> curl ts' @ runq ts' = rotate n (curl ts @ runq ts)
    \<and> slist ts' = slist ts"
proof (induction n arbitrary: ts)
  case (Suc n)
  from yield_resume_ok [OF Suc.prems, of km irqs] obtain ts1 where
    t: "yield_resume km irqs ts = Some ts1" "ts_roomy ts1" "curl ts1 @ runq ts1 = rotate1 (curl ts @ runq ts)" "slist ts1 = slist ts" by blast
  from Suc.IH [OF t(2)] t show ?case by (auto simp: rotate1_rotate_swap)
qed auto

section \<open>Creating a thread\<close>

lemma q_preallocate_keep:
  assumes "km_kseg0 km" "q_inv q" "n \<le> 2 ^ 28"
  shows "\<exists>r q'. q_preallocate km q n = Some (r, q') \<and> q_inv q' \<and> q_list q' = q_list q \<and> q_size q \<le> q_size q'
    \<and> (r = Inl ENOMEM \<and> q' = q \<or> r = Inr () \<and> n \<le> q_size q')"
proof (cases "n > q_size q")
  case True
  from q_grow_with_ok [OF assms(2,3,1), of 0] obtain nsize q' where
    "q_double n (q_size q) = Some nsize" "n \<le> nsize"
    "if km (ptr_bytes nsize)
     then q_grow km q n = Some (Inr (), q') \<and> q_inv q' \<and> q_list q' = q_list q \<and> q_size q' = nsize
     else q_grow km q n = Some (Inl ENOMEM, q)" unfolding q_grow_def One_nat_def by blast
  then show ?thesis using True assms(2) q_inv_dest(1) [OF assms(2)]
    by (cases "km (ptr_bytes nsize)") (auto simp: q_preallocate_def)
next
  case False
  then show ?thesis using assms(2) q_inv_dest(1) [OF assms(2)] by (auto simp: q_preallocate_def)
qed

lemma array_preallocate_keep:
  assumes "km_kseg0 km" "ka.holds a xs" "n \<le> 2 ^ 28"
  shows "\<exists>r a'. array_preallocate km a n = Some (r, a') \<and> ka.holds a' xs \<and> a_max a \<le> a_max a'
    \<and> (r = Inl ENOMEM \<and> a' = a \<or> r = Inr () \<and> n \<le> a_max a')"
  using array_preallocate_ok [OF _ assms(3,1), of a] assms(2) by (auto simp: ka.holds_def)

lemma splx_simps [simp]:
  "ts_inv (snd (splx s ts)) = ts_inv ts" "curthread (snd (splx s ts)) = curthread ts" "runqueue (snd (splx s ts)) = runqueue ts"
  "numthreads (snd (splx s ts)) = numthreads ts" "slist (snd (splx s ts)) = slist ts" "zlist (snd (splx s ts)) = zlist ts"
  "slist (snd (splhigh ts)) = slist ts" "zlist (snd (splhigh ts)) = zlist ts"
  by (simp_all add: splhigh_def splx_def ts_inv_def curl_def slist_def zlist_def)

text \<open>The arrays and the run queue may be exchanged for larger ones with the same contents.\<close>
lemma ts_inv_exchange:
  assumes "ts_inv ts" "ka.holds a (slist ts)" "a_max (sleepers ts) \<le> a_max a" "ka.holds z (zlist ts)"
    "q_inv q" "q_list q = runq ts" "q_size (runqueue ts) \<le> q_size q"
  shows "ts_inv (ts\<lparr>sleepers := a, zombies := z, runqueue := q\<rparr>)"
    "slist (ts\<lparr>sleepers := a, zombies := z, runqueue := q\<rparr>) = slist ts"
    "zlist (ts\<lparr>sleepers := a, zombies := z, runqueue := q\<rparr>) = zlist ts"
proof -
  let ?ts = "ts\<lparr>sleepers := a, zombies := z, runqueue := q\<rparr>"
  show l: "slist ?ts = slist ts" "zlist ?ts = zlist ts"
    using holds_slist [OF assms(2)] holds_slist [OF assms(4)] by (simp_all add: slist_def zlist_def)
  have "length (q_list q) = length (runq ts)" by (simp only: assms(6))
  then show "ts_inv ?ts" using assms l unfolding ts_inv_def by (auto simp: curl_def)
qed

lemma thread_fork_atomic_ok:
  assumes km: "km_kseg0 km" and inv: "ts_inv ts" and cur: "curthread ts = Some cur" and small: "numthreads ts < 2 ^ 27"
    and new: "child \<notin> set (curl ts @ runq ts @ slist ts @ zlist ts)"
  shows "\<exists>r ts'. thread_fork_atomic km child ts = Some (r, ts') \<and> ts_inv ts' \<and> curthread ts' = curthread ts
    \<and> slist ts' = slist ts \<and> zlist ts' = zlist ts
    \<and> (r = Inl ENOMEM \<and> runq ts' = runq ts \<and> numthreads ts' = numthreads ts
       \<or> r = Inr () \<and> runq ts' = runq ts @ [child] \<and> numthreads ts' = numthreads ts + 1)"
proof -
  define t0 where "t0 = snd (splhigh ts)"
  have sh: "splhigh ts = (curspl ts, t0)" by (simp add: t0_def splhigh_def splx_def)
  let ?n = "s32 (numthreads ts + 1)"
  have n: "?n = numthreads ts + 1" "?n \<le> 2 ^ 28" using inv cur small by (simp_all add: ts_inv_def curl_def)
  have i0: "ts_inv t0" "curspl t0 > 0" "slist t0 = slist ts" "zlist t0 = zlist ts" "runqueue t0 = runqueue ts"
    "numthreads t0 = numthreads ts" "curthread t0 = curthread ts" using inv by (simp_all add: t0_def)
  have hs: "ka.holds (sleepers t0) (slist ts)" "ka.holds (zombies t0) (zlist ts)" "q_inv (runqueue ts)"
    using i0 by (simp_all add: ts_inv_def)
  obtain r1 a where a: "array_preallocate km (sleepers t0) ?n = Some (r1, a)" "ka.holds a (slist ts)" "a_max (sleepers t0) \<le> a_max a"
    "r1 = Inl ENOMEM \<and> a = sleepers t0 \<or> r1 = Inr () \<and> ?n \<le> a_max a" using array_preallocate_keep [OF km hs(1) n(2)] by blast
  obtain r2 z where z: "array_preallocate km (zombies t0) ?n = Some (r2, z)" "ka.holds z (zlist ts)"
    "r2 = Inl ENOMEM \<and> z = zombies t0 \<or> r2 = Inr () \<and> ?n \<le> a_max z" using array_preallocate_keep [OF km hs(2) n(2)] by blast
  obtain r3 q where q: "q_preallocate km (runqueue ts) ?n = Some (r3, q)" "q_inv q" "q_list q = runq ts" "q_size (runqueue ts) \<le> q_size q"
    "r3 = Inl ENOMEM \<and> q = runqueue ts \<or> r3 = Inr () \<and> ?n \<le> q_size q" using q_preallocate_keep [OF km hs(3) n(2)] by blast
  have qi: "q_inv (runqueue t0)" using hs(3) i0(5) by simp
  note e1 = ts_inv_exchange [OF i0(1), unfolded i0(3,4), OF a(2,3) hs(2) qi refl order_refl, simplified]
  note e2 = ts_inv_exchange [OF i0(1), unfolded i0(3,4), OF a(2,3) z(2) qi refl order_refl, simplified]
  note e3 = ts_inv_exchange [OF i0(1), unfolded i0(3-5), OF a(2,3) z(2) q(2-4)]
  consider (fs) "r1 = Inl ENOMEM" | (fz) "r1 = Inr ()" "r2 = Inl ENOMEM" | (fq) "r1 = Inr ()" "r2 = Inr ()" "r3 = Inl ENOMEM"
    | (ok) "r1 = Inr ()" "r2 = Inr ()" "r3 = Inr ()" using a(4) z(3) q(5) by blast
  then show ?thesis
  proof cases
    case ok
    let ?t = "t0\<lparr>sleepers := a, zombies := z, runqueue := q\<rparr>"
    have fit: "?n \<le> q_size q" "?n \<le> a_max a" using a(4) q(5) ok by auto
    have "numthreads ts = 1 + int (length (runq ts) + length (slist ts))" using inv cur by (simp add: ts_inv_def curl_def)
    then have "int (length (runq ?t)) < q_size (runqueue ?t) - 1" using fit(1) n(1) q(3) by simp
    with make_runnable_ok [of ?t km child] i0(2) q(2) obtain q' where
      m: "make_runnable km child ?t = Some (Inr (), ?t\<lparr>runqueue := q'\<rparr>)" "q_inv q'" "q_list q' = runq ts @ [child]" "q_size q' = q_size q"
      using q(3) by auto
    let ?t' = "?t\<lparr>runqueue := q', numthreads := ?n\<rparr>"
    have l: "slist ?t' = slist ts" "zlist ?t' = zlist ts" using e3(2,3) by (simp_all add: slist_def zlist_def)
    have c: "curl ?t' = [cur]" "runq ?t' = runq ts @ [child]" using cur i0(7) m(3) by (simp_all add: curl_def)
    have "distinct ([cur] @ runq ts @ slist ts @ zlist ts)" using inv cur by (simp add: ts_inv_def curl_def)
    then have "distinct ([cur] @ (runq ts @ [child]) @ slist ts @ zlist ts)" using new cur by (auto simp: curl_def)
    moreover have "numthreads ?t' = int (length ([cur] @ (runq ts @ [child]) @ slist ts))"
      using inv cur n(1) by (simp add: ts_inv_def curl_def)
    ultimately have "ts_inv ?t'" using a(2) z(2) m(2,4) fit unfolding ts_inv_def l c by simp
    moreover have "thread_fork_atomic km child ts = Some (Inr (), snd (splx (curspl ts) ?t'))"
      using a(1) z(1) q(1) m(1) ok i0(2,5,6) by (simp add: thread_fork_atomic_def scheduler_preallocate_def sh)
    ultimately show ?thesis using l m(3) n(1) i0(7) by simp
  qed (use a(1) z(1) q(1,3) e1 e2 e3 i0(2-) in \<open>simp_all add: thread_fork_atomic_def scheduler_preallocate_def sh\<close>)
qed

section \<open>Properties\<close>

text \<open>Thread 1 is running, 7 is ready, 3 and 5 sleep on the addresses 100 and 200.\<close>
definition ts_ex :: tsys where
  "ts_ex = \<lparr>runqueue = \<lparr>q_size = 8, q_nextwrite = 1, q_nextread = 0, q_data = Val 7 # replicate 7 Indet\<rparr>,
     sleepers = \<lparr>a_num = 2, a_max = 4, a_v = Some [Val 3, Val 5, Indet, Indet]\<rparr>,
     zombies = \<lparr>a_num = 0, a_max = 4, a_v = Some (replicate 4 Indet)\<rparr>, curthread = Some 1,
     t_sleepaddr = [3 \<mapsto> 100, 5 \<mapsto> 200], stack_ok = (\<lambda>_. True), numthreads = 4, curspl = 15, iec = False,
     in_interrupt = False, lbolt_counter = 0\<rparr>"

lemma ts_ex_lists: "runq ts_ex = [7]" "slist ts_ex = [3, 5]" "zlist ts_ex = []" "curl ts_ex = [1]"
  by (simp_all add: ts_ex_def q_list_def q_cells_def q_count_def slist_def zlist_def curl_def arr_list_def)

lemma ts_ex_inv: "ts_inv ts_ex" "ts_roomy ts_ex"
proof -
  have "q_inv (runqueue ts_ex)" "ka.holds (sleepers ts_ex) [3, 5]" "ka.holds (zombies ts_ex) []"
    by (simp_all add: ts_ex_def q_inv_def q_cells_def q_count_def ka.holds_def arr_inv_def arr_list_def)
  then show "ts_inv ts_ex" unfolding ts_inv_def ts_ex_lists by (simp add: ts_ex_def)
  then show "ts_roomy ts_ex" by (simp add: ts_roomy_def) (simp add: ts_ex_def)
qed

text \<open>
  C32. \<^verbatim>\<open>thread_wakeup\<close> moves exactly the threads that sleep on the address, in the order in
  which they went to sleep, to the end of the run queue, and leaves the other sleepers in
  their order. Called from a running thread it never panics, whatever the allocator does:
  the run queue has room for all of them. Every thread stays in exactly one place.
\<close>
theorem thread_wakeup_correct:
  assumes "ts_inv ts" "curspl ts > 0" "curthread ts \<noteq> None"
  shows "\<exists>ts'. thread_wakeup km addr ts = Some ts' \<and> ts_inv ts' \<and> curthread ts' = curthread ts
    \<and> runq ts' = runq ts @ filter (\<lambda>t. t_sleepaddr ts t = Some addr) (slist ts)
    \<and> slist ts' = filter (\<lambda>t. t_sleepaddr ts t \<noteq> Some addr) (slist ts)"
proof -
  obtain cur where "curthread ts = Some cur" using assms(3) by blast
  from thread_wakeup_ok [OF assms(1,2) this, of km addr] show ?thesis by (auto simp: slist_def holds_slist)
qed

theorem thread_wakeup_correct_witness:
  "\<exists>ts'. thread_wakeup (\<lambda>_. False) 100 ts_ex = Some ts' \<and> runq ts' = [7, 3] \<and> slist ts' = [5]"
proof -
  have "curspl ts_ex > 0" "curthread ts_ex \<noteq> None" "t_sleepaddr ts_ex = [3 \<mapsto> 100, 5 \<mapsto> 200]" by (simp_all add: ts_ex_def)
  with thread_wakeup_correct [OF ts_ex_inv(1) this(1,2), of "\<lambda>_. False" 100] show ?thesis by (auto simp: ts_ex_lists)
qed

text \<open>
  C33. Creating a thread keeps the invariant that every thread is in exactly one place, that
  \<^verbatim>\<open>numthreads\<close> counts the threads that have not exited, and that the sleepers array and the
  run queue are as large as that count. Either the new thread is the last one in the run
  queue, or an allocation was refused (\<open>ENOMEM\<close>) and all lists are as before.
\<close>
theorem thread_fork_keeps_invariant:
  assumes "km_kseg0 km" "ts_inv ts" "curthread ts \<noteq> None" "numthreads ts < 2 ^ 27"
    "child \<notin> set (curl ts @ runq ts @ slist ts @ zlist ts)"
  shows "\<exists>r ts'. thread_fork_atomic km child ts = Some (r, ts') \<and> ts_inv ts' \<and> curthread ts' = curthread ts
    \<and> slist ts' = slist ts \<and> zlist ts' = zlist ts
    \<and> (r = Inl ENOMEM \<and> runq ts' = runq ts \<and> numthreads ts' = numthreads ts
       \<or> r = Inr () \<and> runq ts' = runq ts @ [child] \<and> numthreads ts' = numthreads ts + 1)"
proof -
  obtain cur where "curthread ts = Some cur" using assms(3) by blast
  from thread_fork_atomic_ok [OF assms(1,2) this assms(4,5)] show ?thesis .
qed

theorem thread_fork_keeps_invariant_witness:
  "\<exists>r ts'. thread_fork_atomic (\<lambda>b. b < 4096) 9 ts_ex = Some (r, ts') \<and> ts_inv ts' \<and> slist ts' = [3, 5]"
proof -
  have "curthread ts_ex \<noteq> None" "numthreads ts_ex < 2 ^ 27" by (simp_all add: ts_ex_def)
  with thread_fork_keeps_invariant [OF km_small(2) ts_ex_inv(1) this, of 9] show ?thesis by (auto simp: ts_ex_lists)
qed

text \<open>
  C34. Round robin: when the threads that run only yield, every ready thread gets the
  processor, in the order of the run queue. After \<open>n\<close> yields the running thread followed by the
  run queue is the original sequence rotated \<open>n\<close> times, so the thread at position \<open>k\<close> of the
  run queue runs after \<open>k + 1\<close> yields. This needs a spare cell in the run queue.
\<close>
theorem round_robin:
  assumes "ts_roomy ts"
  shows "\<exists>ts'. yields n km irqs ts = Some ts' \<and> curl ts' @ runq ts' = rotate n (curl ts @ runq ts)
    \<and> (\<forall>k<length (runq ts). n = Suc k \<longrightarrow> curthread ts' = Some (runq ts ! k))"
proof -
  from yields_ok [OF assms, of n km irqs] obtain ts' where
    y: "yields n km irqs ts = Some ts'" "ts_roomy ts'" "curl ts' @ runq ts' = rotate n (curl ts @ runq ts)" by blast
  obtain cur c where c: "curl ts = [cur]" "curthread ts' = Some c" "curl ts' = [c]"
    using assms y(2) by (auto simp: ts_roomy_def curl_def)
  have "c = runq ts ! k" if k: "k < length (runq ts)" "n = Suc k" for k
  proof -
    have "hd (rotate n (cur # runq ts)) = (cur # runq ts) ! (n mod length (cur # runq ts))" by (rule hd_rotate_conv_nth) simp
    also have "\<dots> = runq ts ! k" using k by simp
    finally show ?thesis using y(3) c by (metis append_Cons append_Nil list.sel(1))
  qed
  then show ?thesis using y c by blast
qed

theorem round_robin_witness:
  "\<exists>ts'. yields 1 (\<lambda>_. False) [] ts_ex = Some ts' \<and> curthread ts' = Some 7"
  using round_robin [OF ts_ex_inv(2), of 1 "\<lambda>_. False" "[]"] by (auto simp: ts_ex_lists)

text \<open>
  C35. The room that \<^verbatim>\<open>scheduler_preallocate\<close> reserves is one cell too small for a yield: in a
  state that satisfies the invariant, where all other threads are ready and the run queue has
  exactly \<^verbatim>\<open>numthreads\<close> cells, \<^verbatim>\<open>thread_yield\<close> panics when the allocator refuses to double
  the run queue.
\<close>
theorem yield_panics_without_spare_cell:
  assumes "km_kseg0 km" "ts_inv ts" "curthread ts \<noteq> None" "slist ts = []" "numthreads ts = q_size (runqueue ts)"
    "\<not> km (ptr_bytes (2 * q_size (runqueue ts)))"
  shows "thread_yield km irqs ts = None"
proof -
  obtain cur where cur: "curthread ts = Some cur" using assms(3) by blast
  have "q_inv (runqueue ts)" using assms(2) by (simp add: ts_inv_def)
  moreover have "q_full (runqueue ts)" using assms(2,4,5) cur by (auto simp: ts_inv_def curl_def q_full_def)
  ultimately have "q_addtail km (runqueue ts) cur = Some (Inl ENOMEM, runqueue ts)"
    using q_addtail_d_full [of "runqueue ts" km 0 cur] assms(1,6) by (simp add: q_addtail_def numeral_2_eq_2)
  then have "make_runnable km cur ((snd (splhigh ts))\<lparr>curthread := None\<rparr>) = Some (Inl ENOMEM, (snd (splhigh ts))\<lparr>curthread := None\<rparr>)"
    by (simp add: make_runnable_def)
  then show ?thesis using cur by (simp add: thread_yield_def mi_switch_def mi_switch_out_def stash_def)
qed

definition ts_two :: tsys where
  "ts_two = ts_ex\<lparr>runqueue := q_two, sleepers := \<lparr>a_num = 0, a_max = 4, a_v = Some (replicate 4 Indet)\<rparr>, numthreads := 2\<rparr>"

theorem yield_panics_without_spare_cell_witness:
  "thread_yield (\<lambda>b. b < 8) [] ts_two = None"
proof (rule yield_panics_without_spare_cell)
  have l: "slist ts_two = []" "zlist ts_two = []" "curl ts_two = [1]" "runq ts_two = [7]"
    using q_two_inv(2) by (simp_all add: ts_two_def ts_ex_def slist_def zlist_def curl_def arr_list_def)
  have "ka.holds (sleepers ts_two) []" "ka.holds (zombies ts_two) []" "q_inv (runqueue ts_two)" "q_size (runqueue ts_two) = 2"
    using q_two_inv(1) by (simp_all add: ts_two_def ts_ex_def ka.holds_def arr_inv_def arr_list_def q_two_def)
  then show "ts_inv ts_two" unfolding ts_inv_def l by (simp add: ts_two_def)
  show "slist ts_two = []" by (fact l(1))
qed (simp_all add: ts_two_def ts_ex_def km_small q_two_km)

end
