(* ===== verification/Kern_Synch.thy ===== *)
theory Kern_Synch
  imports Kern_Thread
begin

text \<open>
  Semaphores, locks and condition variables: \<^verbatim>\<open>kern/thread/synch.c\<close>.

  The functions run with interrupts off, so on the one processor each of them is atomic up to
  the point where the thread goes to sleep. \<open>ksys\<close> holds the thread system, the
  synchronization objects by their addresses, and for each thread where it is inside these
  functions (\<open>pcs\<close>), with the interrupt level it will restore. A function that sleeps is two
  definitions: the call, up to the point where the scheduler takes over, and the rest, which the thread executes when it
  gets the processor again. \<open>hist\<close> records the completed operations; no function reads it.

  \<open>kstep\<close> is the interleaving of threads: the running thread calls a function or finishes
  one, the scheduler dispatches, an idle processor takes an interrupt that calls \<^verbatim>\<open>V\<close>.
\<close>

section \<open>Model\<close>

datatype kpc = Run | In_P nat int | In_acquire nat int | In_wait nat nat int | In_yield int

datatype kev = PDone nat nat | VDone nat | Acq nat nat | Rel nat nat

record ksys =
  tsy :: tsys
  sem_count :: "nat \<Rightarrow> int"
  lock_busy :: "nat \<Rightarrow> nat option"
  slept_threads :: "nat \<Rightarrow> nat queue"
  pcs :: "nat \<Rightarrow> kpc"
  hist :: "kev list"

subsection \<open>Creation and destruction\<close>

text \<open>\<^verbatim>\<open>kstrdup\<close> of a name of \<open>n\<close> characters; \<open>sizeof\<close> the structures is 8, 24 and 16.\<close>
definition sem_create :: "kmalloc_oracle \<Rightarrow> nat \<Rightarrow> int \<Rightarrow> (unit + int) option" where
  "sem_create km n initial_count = do {
     kassert (initial_count \<ge> 0);
     if \<not> km 8 then Some (Inl ()) else if \<not> km (of_nat (n + 1)) then Some (Inl ()) else Some (Inr initial_count)
   }"

definition sem_destroy :: "nat \<Rightarrow> tsys \<Rightarrow> unit option" where
  "sem_destroy sem ts = do { b \<leftarrow> thread_hassleepers sem (snd (splhigh ts)); kassert (\<not> b) }"

definition lock_create :: "kmalloc_oracle \<Rightarrow> nat \<Rightarrow> unit + nat option" where
  "lock_create km n = (if \<not> km 24 then Inl () else if \<not> km (of_nat (n + 1)) then Inl () else Inr None)"

definition lock_destroy :: "nat \<Rightarrow> tsys \<Rightarrow> unit option" where
  "lock_destroy lock ts = do { b \<leftarrow> thread_hassleepers lock (snd (splhigh ts)); kassert (\<not> b) }"

definition cv_create :: "kmalloc_oracle \<Rightarrow> nat \<Rightarrow> unit + nat queue" where
  "cv_create km n = (if \<not> km 16 then Inl () else if \<not> km (of_nat (n + 1)) then Inl () else q_create km 10)"

definition cv_destroy :: "nat queue \<Rightarrow> unit option" where
  "cv_destroy q = q_destroy q"

subsection \<open>Sleeping\<close>

text \<open>\<^verbatim>\<open>thread_sleep\<close> up to the scheduler, by a thread that will continue at \<open>p\<close>.\<close>
definition fall_asleep :: "kmalloc_oracle \<Rightarrow> nat \<Rightarrow> kpc \<Rightarrow> ksys \<Rightarrow> ksys option" where
  "fall_asleep km addr p s = do {
     kassert (\<not> in_interrupt (tsy s));
     kassert (curspl (tsy s) > 0);
     t \<leftarrow> curthread (tsy s);
     ts \<leftarrow> mi_switch_out km S_SLEEP t ((tsy s)\<lparr>t_sleepaddr := (t_sleepaddr (tsy s))(t := Some addr)\<rparr>);
     Some (s\<lparr>tsy := ts, pcs := (pcs s)(t := p)\<rparr>)
   }"

text \<open>The thread \<open>t\<close> leaves the function with the event \<open>e\<close> and restores the interrupt level.\<close>
definition finish :: "int \<Rightarrow> nat \<Rightarrow> kev list \<Rightarrow> ksys \<Rightarrow> ksys" where
  "finish spl t e s = s\<lparr>tsy := snd (splx spl (tsy s)), pcs := (pcs s)(t := Run), hist := hist s @ e\<rparr>"

subsection \<open>Semaphores\<close>

definition P_loop :: "kmalloc_oracle \<Rightarrow> nat \<Rightarrow> int \<Rightarrow> ksys \<Rightarrow> ksys option" where
  "P_loop km sem spl s =
     (if sem_count s sem = 0 then fall_asleep km sem (In_P sem spl) s
      else do {
        kassert (sem_count s sem > 0);
        t \<leftarrow> curthread (tsy s);
        Some (finish spl t [PDone t sem] (s\<lparr>sem_count := (sem_count s)(sem := sem_count s sem - 1)\<rparr>))
      })"

definition P_sem :: "kmalloc_oracle \<Rightarrow> nat \<Rightarrow> ksys \<Rightarrow> ksys option" where
  "P_sem km sem s = do {
     kassert (\<not> in_interrupt (tsy s));
     let (spl, ts) = splhigh (tsy s);
     P_loop km sem spl (s\<lparr>tsy := ts\<rparr>)
   }"

definition V_sem :: "kmalloc_oracle \<Rightarrow> nat \<Rightarrow> ksys \<Rightarrow> ksys option" where
  "V_sem km sem s = do {
     let (spl, ts) = splhigh (tsy s);
     let count = s32 (sem_count s sem + 1);
     kassert (count > 0);
     ts \<leftarrow> thread_wakeup km sem ts;
     Some (s\<lparr>tsy := snd (splx spl ts), sem_count := (sem_count s)(sem := count), hist := hist s @ [VDone sem]\<rparr>)
   }"

subsection \<open>Locks\<close>

definition acquire_loop :: "kmalloc_oracle \<Rightarrow> nat \<Rightarrow> int \<Rightarrow> ksys \<Rightarrow> ksys option" where
  "acquire_loop km lock spl s =
     (if lock_busy s lock \<noteq> None then fall_asleep km lock (In_acquire lock spl) s
      else do {
        t \<leftarrow> curthread (tsy s);
        Some (finish spl t [Acq t lock] (s\<lparr>lock_busy := (lock_busy s)(lock := Some t)\<rparr>))
      })"

definition lock_acquire :: "kmalloc_oracle \<Rightarrow> nat \<Rightarrow> ksys \<Rightarrow> ksys option" where
  "lock_acquire km lock s = do {
     let (spl, ts) = splhigh (tsy s);
     acquire_loop km lock spl (s\<lparr>tsy := ts\<rparr>)
   }"

definition lock_release :: "kmalloc_oracle \<Rightarrow> nat \<Rightarrow> ksys \<Rightarrow> ksys option" where
  "lock_release km lock s = do {
     let (spl, ts) = splhigh (tsy s);
     ts \<leftarrow> thread_wakeup km lock ts;
     Some (s\<lparr>tsy := snd (splx spl ts), lock_busy := (lock_busy s)(lock := None),
       hist := hist s @ map (\<lambda>t. Rel t lock) (curl ts)\<rparr>)
   }"

definition lock_do_i_hold :: "nat \<Rightarrow> ksys \<Rightarrow> bool" where
  "lock_do_i_hold lock s \<longleftrightarrow> lock_busy s lock = curthread (tsy s)"

subsection \<open>Condition variables\<close>

text \<open>The result of \<^verbatim>\<open>q_addtail\<close> is not looked at.\<close>
definition cv_wait :: "kmalloc_oracle \<Rightarrow> nat \<Rightarrow> nat \<Rightarrow> ksys \<Rightarrow> ksys option" where
  "cv_wait km cv lock s = do {
     let (spl, ts) = splhigh (tsy s);
     t \<leftarrow> curthread ts;
     (_, q) \<leftarrow> q_addtail km (slept_threads s cv) t;
     s \<leftarrow> lock_release km lock (s\<lparr>tsy := ts, slept_threads := (slept_threads s)(cv := q)\<rparr>);
     fall_asleep km t (In_wait cv lock spl) s
   }"

definition cv_signal :: "kmalloc_oracle \<Rightarrow> nat \<Rightarrow> ksys \<Rightarrow> ksys option" where
  "cv_signal km cv s = do {
     let (spl, ts) = splhigh (tsy s);
     (addr, q) \<leftarrow> q_remhead (slept_threads s cv);
     ts \<leftarrow> thread_wakeup km addr ts;
     Some (s\<lparr>tsy := snd (splx spl ts), slept_threads := (slept_threads s)(cv := q)\<rparr>)
   }"

text \<open>The loop of \<^verbatim>\<open>cv_broadcast\<close>.\<close>
partial_function (option) broadcast_loop :: "kmalloc_oracle \<Rightarrow> nat queue \<Rightarrow> tsys \<Rightarrow> (nat queue \<times> tsys) option" where
  "broadcast_loop km q ts =
     (if q_empty q then Some (q, ts)
      else Option.bind (q_remhead q) (\<lambda>p. Option.bind (thread_wakeup km (fst p) ts) (\<lambda>ts. broadcast_loop km (snd p) ts)))"

definition cv_broadcast :: "kmalloc_oracle \<Rightarrow> nat \<Rightarrow> ksys \<Rightarrow> ksys option" where
  "cv_broadcast km cv s = do {
     let (spl, ts) = splhigh (tsy s);
     (q, ts) \<leftarrow> broadcast_loop km (slept_threads s cv) ts;
     Some (s\<lparr>tsy := snd (splx spl ts), slept_threads := (slept_threads s)(cv := q)\<rparr>)
   }"

subsection \<open>Interleaving\<close>

text \<open>\<^verbatim>\<open>thread_yield\<close> up to the scheduler.\<close>
definition yield_out :: "kmalloc_oracle \<Rightarrow> ksys \<Rightarrow> ksys option" where
  "yield_out km s = do {
     let (spl, ts) = splhigh (tsy s);
     t \<leftarrow> curthread ts;
     ts \<leftarrow> mi_switch_out km S_READY t ts;
     Some (s\<lparr>tsy := ts, pcs := (pcs s)(t := In_yield spl)\<rparr>)
   }"

text \<open>What the running thread \<open>t\<close> does when it comes back from the scheduler.\<close>
definition resume :: "kmalloc_oracle \<Rightarrow> nat \<Rightarrow> ksys \<Rightarrow> ksys option" where
  "resume km t s =
     (case pcs s t of
        Run \<Rightarrow> None
      | In_P sem spl \<Rightarrow> do { ts \<leftarrow> thread_sleep_end km (tsy s); P_loop km sem spl (s\<lparr>tsy := ts\<rparr>) }
      | In_acquire lock spl \<Rightarrow> do { ts \<leftarrow> thread_sleep_end km (tsy s); acquire_loop km lock spl (s\<lparr>tsy := ts\<rparr>) }
      | In_wait cv lock spl \<Rightarrow> do { ts \<leftarrow> thread_sleep_end km (tsy s); lock_acquire km lock (s\<lparr>tsy := snd (splx spl ts)\<rparr>) }
      | In_yield spl \<Rightarrow> do { ts \<leftarrow> mi_resume km (tsy s); Some (finish spl t [] (s\<lparr>tsy := ts\<rparr>)) })"

datatype kop = Op_P nat | Op_V nat | Op_acquire nat | Op_release nat | Op_wait nat nat | Op_signal nat | Op_broadcast nat | Op_yield

fun exec_op :: "kmalloc_oracle \<Rightarrow> kop \<Rightarrow> ksys \<Rightarrow> ksys option" where
  "exec_op km (Op_P sem) s = P_sem km sem s"
| "exec_op km (Op_V sem) s = V_sem km sem s"
| "exec_op km (Op_acquire lock) s = lock_acquire km lock s"
| "exec_op km (Op_release lock) s = lock_release km lock s"
| "exec_op km (Op_wait cv lock) s = cv_wait km cv lock s"
| "exec_op km (Op_signal cv) s = cv_signal km cv s"
| "exec_op km (Op_broadcast cv) s = cv_broadcast km cv s"
| "exec_op km Op_yield s = yield_out km s"

text \<open>What \<^verbatim>\<open>synch.h\<close> asks of the callers: only the holder of a lock gives it up.\<close>
fun allowed :: "nat \<Rightarrow> kop \<Rightarrow> ksys \<Rightarrow> bool" where
  "allowed t (Op_release lock) s \<longleftrightarrow> lock_busy s lock = Some t"
| "allowed t (Op_wait cv lock) s \<longleftrightarrow> lock_busy s lock = Some t"
| "allowed t _ s \<longleftrightarrow> True"

text \<open>The steps; with \<open>strict\<close> the callers do what \<^verbatim>\<open>synch.h\<close> asks of them.\<close>
inductive kstep :: "bool \<Rightarrow> kmalloc_oracle \<Rightarrow> ksys \<Rightarrow> ksys \<Rightarrow> bool" for strict km where
  call: "curthread (tsy s) = Some t \<Longrightarrow> pcs s t = Run \<Longrightarrow> (strict \<longrightarrow> allowed t op s) \<Longrightarrow> exec_op km op s = Some s' \<Longrightarrow>
    kstep strict km s s'"
| goes_on: "curthread (tsy s) = Some t \<Longrightarrow> resume km t s = Some s' \<Longrightarrow> kstep strict km s s'"
| pick: "curthread (tsy s) = None \<Longrightarrow> dispatch [] (tsy s) = Some ts \<Longrightarrow> kstep strict km s (s\<lparr>tsy := ts\<rparr>)"
| irq: "curthread (tsy s) = None \<Longrightarrow> V_sem km sem s = Some s' \<Longrightarrow> kstep strict km s s'"

abbreviation kreach :: "bool \<Rightarrow> kmalloc_oracle \<Rightarrow> ksys \<Rightarrow> ksys \<Rightarrow> bool" where
  "kreach strict km \<equiv> (kstep strict km)\<^sup>*\<^sup>*"

section \<open>What the thread system does, when it returns\<close>

lemma q_addtail_some:
  assumes "km_kseg0 km" "q_inv q" "q_addtail km q x = Some (Inr (), q')"
  shows "q_inv q'" "q_list q' = q_list q @ [x]" "q_size q \<le> q_size q'"
proof -
  have "q_inv q' \<and> q_list q' = q_list q @ [x] \<and> q_size q \<le> q_size q'"
  proof (cases "q_full q")
    case True
    then show ?thesis using q_addtail_d_full [OF assms(2) True assms(1), of 0 x] assms(3) q_inv_dest(1) [OF assms(2)]
      by (auto simp: q_addtail_def numeral_2_eq_2 split: if_splits)
  next
    case False
    then show ?thesis using q_addtail_d_room [OF assms(2) False, of 1 km x] assms(3) by (auto simp: q_addtail_def numeral_2_eq_2)
  qed
  then show "q_inv q'" "q_list q' = q_list q @ [x]" "q_size q \<le> q_size q'" by auto
qed

lemma make_runnable_some:
  assumes "km_kseg0 km" "q_inv (runqueue ts)" "make_runnable km t ts = Some (Inr (), ts')"
  obtains q where "ts' = ts\<lparr>runqueue := q\<rparr>" "q_inv q" "q_list q = runq ts @ [t]" "q_size (runqueue ts) \<le> q_size q"
  using assms q_addtail_some [OF assms(1,2), of t] by (auto simp: make_runnable_def bind_eq_Some_conv)

lemma wakeup_loop_some:
  assumes km: "km_kseg0 km"
  shows "q_inv (runqueue ts) \<Longrightarrow> ka.holds (sleepers ts) (pre @ xs) \<Longrightarrow>
    wakeup_loop (length xs) km addr (int (length pre)) ts = Some ts' \<Longrightarrow>
    \<exists>q a. ts' = ts\<lparr>runqueue := q, sleepers := a\<rparr> \<and> q_inv q \<and> q_list q = runq ts @ filter (\<lambda>t. t_sleepaddr ts t = Some addr) xs
      \<and> q_size (runqueue ts) \<le> q_size q
      \<and> ka.holds a (pre @ filter (\<lambda>t. t_sleepaddr ts t \<noteq> Some addr) xs) \<and> a_max a = a_max (sleepers ts)"
proof (induction xs arbitrary: ts pre)
  case Nil
  then show ?case by (intro exI [of _ "runqueue ts"] exI [of _ "sleepers ts"]) (simp add: ka.holds_getnum)
next
  case (Cons x xs)
  have num: "array_getnum (sleepers ts) = int (length pre + Suc (length xs))"
    and guy: "array_getguy (sleepers ts) (int (length pre)) = Some x"
    using ka.holds_getnum [OF Cons.prems(2)] ka.holds_getguy [OF Cons.prems(2), of "length pre"] by simp_all
  show ?case
  proof (cases "t_sleepaddr ts x = Some addr")
    case True
    have "length pre < length (pre @ x # xs)" by simp
    from ka.holds_remove [OF Cons.prems(2) this] obtain a where
      a: "array_remove (sleepers ts) (int (length pre)) = Some a" "ka.holds a (pre @ xs)" by auto
    let ?ts = "ts\<lparr>sleepers := a\<rparr>"
    from Cons.prems(3) num guy True a(1) obtain ts1 where
      m: "make_runnable km x ?ts = Some (Inr (), ts1)" "wakeup_loop (length xs) km addr (int (length pre)) ts1 = Some ts'"
      by (auto simp: bind_eq_Some_conv)
    from make_runnable_some [OF km _ m(1)] Cons.prems(1) obtain q where
      q: "ts1 = ?ts\<lparr>runqueue := q\<rparr>" "q_inv q" "q_list q = runq ts @ [x]" "q_size (runqueue ts) \<le> q_size q" by auto
    from Cons.IH [of ts1 pre] q a(2) m(2) True array_remove_max [OF a(1)] show ?thesis by fastforce
  next
    case False
    have h: "ka.holds (sleepers ts) ((pre @ [x]) @ xs)" using Cons.prems(2) by simp
    have "wakeup_loop (length xs) km addr (int (length (pre @ [x]))) ts = Some ts'"
      using Cons.prems(3) num guy False by (simp add: add.commute)
    from Cons.IH [OF Cons.prems(1) h this] False show ?thesis by auto
  qed
qed

lemma thread_wakeup_some:
  assumes km: "km_kseg0 km" and inv: "ts_inv ts" and w: "thread_wakeup km addr ts = Some ts'"
  shows "ts_inv ts'" "slist ts' = filter (\<lambda>t. t_sleepaddr ts t \<noteq> Some addr) (slist ts)" "t_sleepaddr ts' = t_sleepaddr ts"
    "curthread ts' = curthread ts" "curspl ts' = curspl ts"
proof -
  let ?P = "\<lambda>t. t_sleepaddr ts t = Some addr" and ?ss = "slist ts"
  have h: "ka.holds (sleepers ts) ([] @ ?ss)" and q: "q_inv (runqueue ts)" using inv by (simp_all add: ts_inv_def)
  have "nat (array_getnum (sleepers ts)) = length ?ss" using ka.holds_getnum [OF h] by simp
  then have "wakeup_loop (length ?ss) km addr (int (length ([] :: nat list))) ts = Some ts'"
    using w by (simp add: thread_wakeup_def bind_eq_Some_conv)
  from wakeup_loop_some [OF km q h this] obtain q' a where
    w: "ts' = ts\<lparr>runqueue := q', sleepers := a\<rparr>" "q_inv q'" "q_list q' = runq ts @ filter ?P ?ss"
      "q_size (runqueue ts) \<le> q_size q'" "ka.holds a (filter (\<lambda>t. \<not> ?P t) ?ss)" "a_max a = a_max (sleepers ts)" by auto
  show sl: "slist ts' = filter (\<lambda>t. \<not> ?P t) ?ss" using holds_slist [OF w(5)] w(1) by (simp add: slist_def)
  have l: "zlist ts' = zlist ts" "curl ts' = curl ts" using w(1) by (simp_all add: zlist_def curl_def)
  have "mset (filter ?P ?ss) + mset (filter (\<lambda>t. \<not> ?P t) ?ss) = mset ?ss" by simp
  then have ms: "mset (curl ts @ q_list q' @ filter (\<lambda>t. \<not> ?P t) ?ss @ zlist ts) = mset (curl ts @ runq ts @ ?ss @ zlist ts)"
    using w(3) by simp
  have "length (filter ?P ?ss) + length (filter (\<lambda>t. \<not> ?P t) ?ss) = length ?ss" by (rule sum_length_filter_compl)
  moreover have "length (q_list q') = length (runq ts) + length (filter ?P ?ss)" by (simp only: w(3) length_append)
  ultimately have "numthreads ts = int (length (curl ts @ q_list q' @ filter (\<lambda>t. \<not> ?P t) ?ss))"
    using inv by (simp add: ts_inv_def)
  moreover have "distinct (curl ts @ q_list q' @ filter (\<lambda>t. \<not> ?P t) ?ss @ zlist ts)"
    using inv mset_eq_imp_distinct_iff [OF ms] by (simp add: ts_inv_def)
  ultimately show "ts_inv ts'" using inv w unfolding ts_inv_def sl l by simp
  show "t_sleepaddr ts' = t_sleepaddr ts" "curthread ts' = curthread ts" "curspl ts' = curspl ts" using w(1) by simp_all
qed

lemma ts_inv_sleepaddr [simp]:
  "ts_inv (ts\<lparr>t_sleepaddr := f\<rparr>) = ts_inv ts" "slist (ts\<lparr>t_sleepaddr := f\<rparr>) = slist ts"
  by (simp_all add: ts_inv_def slist_def zlist_def curl_def)

lemma dispatch_some:
  assumes inv: "ts_inv ts" and idle: "curthread ts = None" and d: "dispatch [] ts = Some ts'"
  shows "ts_inv ts'" "slist ts' = slist ts" "t_sleepaddr ts' = t_sleepaddr ts" "curspl ts' = curspl ts" "curspl ts > 0"
proof -
  from d have spl: "curspl ts > 0" and ne: "\<not> q_empty (runqueue ts)"
    by (auto simp: dispatch_def scheduler.simps bind_eq_Some_conv split: if_splits)
  then obtain t rest where q: "runq ts = t # rest" using q_empty_iff [of "runqueue ts"] inv by (cases "runq ts") (auto simp: ts_inv_def)
  from dispatch_ok [OF inv spl idle q, of "[]"] d
  show "ts_inv ts'" "slist ts' = slist ts" "t_sleepaddr ts' = t_sleepaddr ts" "curspl ts' = curspl ts" "curspl ts > 0"
    using spl by (auto simp: slist_def)
qed

lemma sleep_end_some:
  assumes inv: "ts_inv ts" and cur: "curthread ts = Some t" and e: "thread_sleep_end km ts = Some ts'"
  shows "ts_inv ts'" "slist ts' = slist ts" "curthread ts' = Some t" "curspl ts' = curspl ts" "curspl ts > 0"
    "\<And>u. u \<in> set (slist ts) \<Longrightarrow> t_sleepaddr ts' u = t_sleepaddr ts u"
proof -
  have spl: "curspl ts > 0" using e by (auto simp: thread_sleep_end_def mi_resume_def exorcise_def bind_eq_Some_conv)
  from exorcise_ok [OF inv spl, of km] obtain a where
    a: "exorcise km ts = Some (ts\<lparr>zombies := a\<rparr>)" "ts_inv (ts\<lparr>zombies := a\<rparr>)" by blast
  then have ts': "ts' = ts\<lparr>zombies := a, t_sleepaddr := (t_sleepaddr ts)(t := None)\<rparr>"
    using e cur by (auto simp: thread_sleep_end_def mi_resume_def)
  show "ts_inv ts'" "slist ts' = slist ts" "curthread ts' = Some t" "curspl ts' = curspl ts" "curspl ts > 0"
    using a(2) ts' cur spl by (simp_all add: slist_def)
  show "t_sleepaddr ts' u = t_sleepaddr ts u" if "u \<in> set (slist ts)" for u
    using that inv cur ts' by (auto simp: ts_inv_def curl_def)
qed

lemma resume_some:
  assumes inv: "ts_inv ts" and e: "mi_resume km ts = Some ts'"
  shows "ts_inv ts'" "slist ts' = slist ts" "curthread ts' = curthread ts" "t_sleepaddr ts' = t_sleepaddr ts" "curspl ts > 0"
proof -
  have spl: "curspl ts > 0" using e by (auto simp: mi_resume_def exorcise_def bind_eq_Some_conv)
  from exorcise_ok [OF inv spl, of km] e
  show "ts_inv ts'" "slist ts' = slist ts" "curthread ts' = curthread ts" "t_sleepaddr ts' = t_sleepaddr ts" "curspl ts > 0"
    using spl by (auto simp: mi_resume_def slist_def)
qed

lemma switch_sleep_some:
  assumes inv: "ts_inv ts" and cur: "curthread ts = Some t" and o: "mi_switch_out km S_SLEEP t ts = Some ts'"
  shows "ts_inv ts'" "slist ts' = slist ts @ [t]" "curthread ts' = None" "t_sleepaddr ts' = t_sleepaddr ts" "curspl ts' = curspl ts"
proof -
  have st: "stack_ok ts t" using o by (auto simp: mi_switch_out_def bind_eq_Some_conv)
  from switch_out_sleep [OF inv cur st, of km] o obtain a where
    "ts' = ts\<lparr>curthread := None, sleepers := a\<rparr>" "ka.holds a (slist ts @ [t])" "ts_inv ts'" by auto
  then show "ts_inv ts'" "slist ts' = slist ts @ [t]" "curthread ts' = None" "t_sleepaddr ts' = t_sleepaddr ts" "curspl ts' = curspl ts"
    using holds_slist [of a "slist ts @ [t]"] by (simp_all add: slist_def)
qed

lemma switch_ready_some:
  assumes km: "km_kseg0 km" and inv: "ts_inv ts" and cur: "curthread ts = Some t" and o: "mi_switch_out km S_READY t ts = Some ts'"
  shows "ts_inv ts'" "slist ts' = slist ts" "curthread ts' = None" "t_sleepaddr ts' = t_sleepaddr ts" "curspl ts' = curspl ts"
proof -
  from o have m: "make_runnable km t (ts\<lparr>curthread := None\<rparr>) = Some (Inr (), ts')"
    by (auto simp: mi_switch_out_def stash_def bind_eq_Some_conv)
  have "q_inv (runqueue (ts\<lparr>curthread := None\<rparr>))" using inv by (simp add: ts_inv_def)
  from make_runnable_some [OF km this m] obtain q where
    q: "ts' = ts\<lparr>curthread := None, runqueue := q\<rparr>" "q_inv q" "q_list q = runq ts @ [t]" "q_size (runqueue ts) \<le> q_size q" by auto
  have l: "slist ts' = slist ts" "zlist ts' = zlist ts" "curl ts' = []" "runq ts' = runq ts @ [t]"
    using q by (simp_all add: slist_def zlist_def curl_def)
  show "ts_inv ts'" using inv cur q unfolding ts_inv_def l by (auto simp: curl_def)
  show "slist ts' = slist ts" "curthread ts' = None" "t_sleepaddr ts' = t_sleepaddr ts" "curspl ts' = curspl ts"
    using q(1) l by simp_all
qed

section \<open>The invariant of the interleaving\<close>

text \<open>The holder of a lock by the history of its acquisitions and releases; \<open>None\<close> if two threads overlap.\<close>
fun lock_run :: "nat \<Rightarrow> nat option \<Rightarrow> kev list \<Rightarrow> nat option option" where
  "lock_run l h [] = Some h"
| "lock_run l h (Acq t l' # es) = (if l' = l then (if h = None then lock_run l (Some t) es else None) else lock_run l h es)"
| "lock_run l h (Rel t l' # es) = (if l' = l then (if h = Some t then lock_run l None es else None) else lock_run l h es)"
| "lock_run l h (e # es) = lock_run l h es"

lemma lock_run_append: "lock_run l h (xs @ ys) = Option.bind (lock_run l h xs) (\<lambda>h. lock_run l h ys)"
  by (induction l h xs rule: lock_run.induct) auto

definition vcount :: "nat \<Rightarrow> kev list \<Rightarrow> int" where
  "vcount m h = int (length (filter (\<lambda>e. e = VDone m) h)) - int (length (filter (\<lambda>e. \<exists>t. e = PDone t m) h))"

text \<open>A sleeping thread waits for something that is not there.\<close>
definition blocked :: "ksys \<Rightarrow> nat \<Rightarrow> bool" where
  "blocked s t \<longleftrightarrow>
     (case pcs s t of
        In_P m spl \<Rightarrow> t_sleepaddr (tsy s) t = Some m \<and> sem_count s m = 0
      | In_acquire l spl \<Rightarrow> t_sleepaddr (tsy s) t = Some l \<and> lock_busy s l \<noteq> None
      | In_wait cv l spl \<Rightarrow> t_sleepaddr (tsy s) t = Some t
      | _ \<Rightarrow> False)"

definition kinv0 :: "(nat \<Rightarrow> int) \<Rightarrow> ksys \<Rightarrow> bool" where
  "kinv0 init s \<longleftrightarrow> ts_inv (tsy s) \<and> (\<forall>t\<in>set (slist (tsy s)). blocked s t)
     \<and> (\<forall>m. 0 \<le> sem_count s m) \<and> (\<forall>m. sem_count s m < 2 ^ 31) \<and> (\<forall>m. sem_count s m = init m + vcount m (hist s))"

text \<open>Interrupts are off while the processor is idle and when a thread comes back into one of the functions.\<close>
definition kinv :: "(nat \<Rightarrow> int) \<Rightarrow> ksys \<Rightarrow> bool" where
  "kinv init s \<longleftrightarrow> kinv0 init s
     \<and> (case curthread (tsy s) of Some t \<Rightarrow> pcs s t \<noteq> Run \<longrightarrow> curspl (tsy s) > 0 | None \<Rightarrow> curspl (tsy s) > 0)"

text \<open>The part of the invariant that needs the discipline of the callers.\<close>
definition linv :: "ksys \<Rightarrow> bool" where
  "linv s \<longleftrightarrow> (\<forall>l. lock_run l None (hist s) = Some (lock_busy s l))"

lemma vcount_simps [simp]:
  "vcount m [] = 0" "vcount m (h @ [PDone t sem]) = vcount m h - (if m = sem then 1 else 0)"
  "vcount m (h @ [VDone sem]) = vcount m h + (if m = sem then 1 else 0)"
  "vcount m (h @ [Acq t l]) = vcount m h" "vcount m (h @ map (\<lambda>t. Rel t l) ts) = vcount m h"
  by (auto simp: vcount_def filter_empty_conv filter_map comp_def)

lemma cur_not_asleep: "kinv0 init s \<Longrightarrow> curthread (tsy s) = Some t \<Longrightarrow> t \<notin> set (slist (tsy s))"
  by (auto simp: kinv0_def ts_inv_def curl_def)

text \<open>A thread falls asleep where it is blocked.\<close>
lemma fall_asleep_kinv:
  assumes inv: "kinv0 init s" and cur: "curthread (tsy s) = Some t" and f: "fall_asleep km addr p s = Some s'"
    and b: "\<And>ts. t_sleepaddr ts t = Some addr \<Longrightarrow> blocked (s\<lparr>tsy := ts, pcs := (pcs s)(t := p)\<rparr>) t"
  shows "kinv init s'" "lock_busy s' = lock_busy s" "hist s' = hist s"
proof -
  let ?t0 = "(tsy s)\<lparr>t_sleepaddr := (t_sleepaddr (tsy s))(t := Some addr)\<rparr>"
  from f cur obtain ts' where o: "mi_switch_out km S_SLEEP t ?t0 = Some ts'" "s' = s\<lparr>tsy := ts', pcs := (pcs s)(t := p)\<rparr>"
    "curspl (tsy s) > 0" by (auto simp: fall_asleep_def bind_eq_Some_conv)
  have i0: "ts_inv ?t0" "curthread ?t0 = Some t" using inv cur by (simp_all add: kinv0_def)
  note sw = switch_sleep_some [OF i0 o(1)]
  have nt: "t \<notin> set (slist (tsy s))" by (rule cur_not_asleep [OF inv cur])
  have "blocked s' u" if "u \<in> set (slist (tsy s'))" for u
  proof (cases "u = t")
    case True
    then show ?thesis using b [of ts'] sw(4) o(2) by simp
  next
    case False
    then have "blocked s u" using that sw(2) o(2) inv by (auto simp: kinv0_def)
    then show ?thesis using False sw(4) o(2) by (simp add: blocked_def split: kpc.splits)
  qed
  then show "kinv init s'" using inv sw o(2,3) by (auto simp: kinv_def kinv0_def)
  show "lock_busy s' = lock_busy s" "hist s' = hist s" using o(2) by simp_all
qed

lemma P_loop_kinv:
  assumes inv: "kinv0 init s" and cur: "curthread (tsy s) = Some t" and p: "P_loop km sem spl s = Some s'"
  shows "kinv init s'" "linv s \<Longrightarrow> linv s'"
proof -
  have "kinv init s' \<and> (linv s \<longrightarrow> linv s')"
  proof (cases "sem_count s sem = 0")
    case True
    then have f: "fall_asleep km sem (In_P sem spl) s = Some s'" using p by (simp add: P_loop_def)
    from fall_asleep_kinv [OF inv cur f] True show ?thesis by (auto simp: blocked_def linv_def)
  next
    case False
    then have pos: "sem_count s sem > 0"
      and s': "s' = finish spl t [PDone t sem] (s\<lparr>sem_count := (sem_count s)(sem := sem_count s sem - 1)\<rparr>)"
      using p cur by (auto simp: P_loop_def bind_eq_Some_conv)
    have nt: "t \<notin> set (slist (tsy s))" by (rule cur_not_asleep [OF inv cur])
    have "blocked s' u" if "u \<in> set (slist (tsy s))" for u
    proof -
      have "blocked s u" "u \<noteq> t" using that nt inv by (auto simp: kinv0_def)
      then show ?thesis using pos s' by (auto simp: blocked_def finish_def splx_def split: kpc.splits)
    qed
    moreover have "sem_count s sem < 2 ^ 31" using inv unfolding kinv0_def by blast
    then have "sem_count s sem - 1 < 2 ^ 31" by simp
    ultimately have "kinv0 init s'" using inv pos s' by (auto simp: kinv0_def finish_def)
    then show ?thesis using s' cur by (auto simp: kinv_def finish_def linv_def lock_run_append)
  qed
  then show "kinv init s'" "linv s \<Longrightarrow> linv s'" by auto
qed

lemma acquire_loop_kinv:
  assumes inv: "kinv0 init s" and cur: "curthread (tsy s) = Some t" and p: "acquire_loop km lock spl s = Some s'"
  shows "kinv init s'" "linv s \<Longrightarrow> linv s'"
proof -
  have "kinv init s' \<and> (linv s \<longrightarrow> linv s')"
  proof (cases "lock_busy s lock = None")
    case False
    then have f: "fall_asleep km lock (In_acquire lock spl) s = Some s'" using p by (simp add: acquire_loop_def)
    from fall_asleep_kinv [OF inv cur f] False show ?thesis by (auto simp: blocked_def linv_def)
  next
    case True
    then have s': "s' = finish spl t [Acq t lock] (s\<lparr>lock_busy := (lock_busy s)(lock := Some t)\<rparr>)"
      using p cur by (auto simp: acquire_loop_def bind_eq_Some_conv)
    have nt: "t \<notin> set (slist (tsy s))" by (rule cur_not_asleep [OF inv cur])
    have "blocked s' u" if "u \<in> set (slist (tsy s))" for u
    proof -
      have "blocked s u" "u \<noteq> t" using that nt inv by (auto simp: kinv0_def)
      then show ?thesis using s' by (auto simp: blocked_def finish_def splx_def split: kpc.splits)
    qed
    then have "kinv0 init s'" using inv s' by (auto simp: kinv0_def finish_def)
    then show ?thesis using s' cur True by (auto simp: kinv_def finish_def linv_def lock_run_append)
  qed
  then show "kinv init s'" "linv s \<Longrightarrow> linv s'" by auto
qed

text \<open>Waking up threads only takes them from the sleepers.\<close>
lemma wakeup_blocked:
  assumes km: "km_kseg0 km" and inv: "kinv0 init s" and w: "thread_wakeup km addr (snd (splhigh (tsy s))) = Some ts"
  shows "ts_inv ts" "curthread ts = curthread (tsy s)" "t_sleepaddr ts = t_sleepaddr (tsy s)" "curl ts = curl (tsy s)"
    "\<And>t. t \<in> set (slist ts) \<longleftrightarrow> t \<in> set (slist (tsy s)) \<and> t_sleepaddr (tsy s) t \<noteq> Some addr" "curspl ts = 15"
proof -
  have "ts_inv (snd (splhigh (tsy s)))" using inv by (simp add: kinv0_def)
  note ws = thread_wakeup_some [OF km this w]
  show "ts_inv ts" "curthread ts = curthread (tsy s)" "t_sleepaddr ts = t_sleepaddr (tsy s)" "curl ts = curl (tsy s)" "curspl ts = 15"
    using ws by (simp_all add: curl_def)
  show "t \<in> set (slist ts) \<longleftrightarrow> t \<in> set (slist (tsy s)) \<and> t_sleepaddr (tsy s) t \<noteq> Some addr" for t using ws(2) by auto
qed

lemma splx_more [simp]: "t_sleepaddr (snd (splx spl ts)) = t_sleepaddr ts" "curspl (snd (splx spl ts)) = spl" "curl (snd (splx spl ts)) = curl ts"
  by (simp_all add: splx_def curl_def)

lemma splhigh_case: "case_prod f (splhigh ts) = f (curspl ts) (snd (splhigh ts))"
  by (simp add: splhigh_def splx_def)

lemma V_kinv:
  assumes km: "km_kseg0 km" and inv: "kinv init s" and v: "V_sem km sem s = Some s'"
  shows "kinv init s'" "linv s \<Longrightarrow> linv s'"
proof -
  from inv have i0: "kinv0 init s" by (simp add: kinv_def)
  from v obtain ts where c: "s32 (sem_count s sem + 1) > 0" and w: "thread_wakeup km sem (snd (splhigh (tsy s))) = Some ts"
    and s': "s' = s\<lparr>tsy := snd (splx (curspl (tsy s)) ts), sem_count := (sem_count s)(sem := s32 (sem_count s sem + 1)), hist := hist s @ [VDone sem]\<rparr>"
    by (auto simp: V_sem_def splhigh_case Let_def bind_eq_Some_conv)
  have b: "0 \<le> sem_count s sem" "sem_count s sem < 2 ^ 31" using i0 unfolding kinv0_def by blast+
  have c1: "s32 (sem_count s sem + 1) = sem_count s sem + 1"
  proof (cases "sem_count s sem + 1 < 2 ^ 31")
    case True
    then show ?thesis using b by simp
  next
    case False
    then have "sem_count s sem + 1 = 2 ^ 31" using b by linarith
    then show ?thesis using c by (simp add: s32_def)
  qed
  note wb = wakeup_blocked [OF km i0 w]
  have "blocked s' t" if "t \<in> set (slist ts)" for t
  proof -
    have "blocked s t" "t_sleepaddr (tsy s) t \<noteq> Some sem" using that wb(5) i0 by (auto simp: kinv0_def)
    then show ?thesis using s' wb(3) by (auto simp: blocked_def split: kpc.splits)
  qed
  then have "kinv0 init s'" using i0 s' c1 wb(1) s32_bounds(2) [of "sem_count s sem + 1"] unfolding kinv0_def by auto
  then show "kinv init s'" using inv s' wb(2) by (auto simp: kinv_def split: option.splits)
  show "linv s \<Longrightarrow> linv s'" using s' by (simp add: linv_def lock_run_append)
qed

lemma release_kinv:
  assumes km: "km_kseg0 km" and i0: "kinv0 init s" and cur: "curthread (tsy s) = Some t" and v: "lock_release km lock s = Some s'"
  shows "kinv0 init s'" "curthread (tsy s') = Some t" "pcs s' = pcs s" "linv s \<Longrightarrow> lock_busy s lock = Some t \<Longrightarrow> linv s'"
    "slept_threads s' = slept_threads s"
proof -
  from v obtain ts where w: "thread_wakeup km lock (snd (splhigh (tsy s))) = Some ts"
    and s': "s' = s\<lparr>tsy := snd (splx (curspl (tsy s)) ts), lock_busy := (lock_busy s)(lock := None), hist := hist s @ map (\<lambda>t. Rel t lock) (curl ts)\<rparr>"
    by (auto simp: lock_release_def splhigh_case bind_eq_Some_conv)
  note wb = wakeup_blocked [OF km i0 w]
  have "blocked s' t" if "t \<in> set (slist ts)" for t
  proof -
    have "blocked s t" "t_sleepaddr (tsy s) t \<noteq> Some lock" using that wb(5) i0 by (auto simp: kinv0_def)
    then show ?thesis using s' wb(3) by (auto simp: blocked_def split: kpc.splits)
  qed
  then show "kinv0 init s'" using i0 s' wb(1) by (auto simp: kinv0_def)
  show "curthread (tsy s') = Some t" "pcs s' = pcs s" "slept_threads s' = slept_threads s" using s' wb(2) cur by simp_all
  have "curl ts = [t]" using wb(4) cur by (simp add: curl_def)
  then show "linv s \<Longrightarrow> lock_busy s lock = Some t \<Longrightarrow> linv s'" using s' by (auto simp: linv_def lock_run_append)
qed

lemma kinv0_ts: "kinv0 init s \<Longrightarrow> ts_inv (tsy s)"
  by (simp add: kinv0_def)

lemma blocked_same:
  "pcs s' t = pcs s t \<Longrightarrow> t_sleepaddr (tsy s') t = t_sleepaddr (tsy s) t \<Longrightarrow> sem_count s' = sem_count s \<Longrightarrow>
    lock_busy s' = lock_busy s \<Longrightarrow> blocked s' t = blocked s t"
  by (simp add: blocked_def split: kpc.split)

text \<open>Changes of the thread system that keep the sleepers blocked.\<close>
lemma kinv0_tsy:
  assumes "kinv0 init s" "ts_inv ts" "set (slist ts) \<subseteq> set (slist (tsy s))"
    "\<And>t. t \<in> set (slist ts) \<Longrightarrow> t_sleepaddr ts t = t_sleepaddr (tsy s) t"
  shows "kinv0 init (s\<lparr>tsy := ts\<rparr>)" "kinv0 init (s\<lparr>tsy := ts, slept_threads := f\<rparr>)"
  using assms blocked_same [of "s\<lparr>tsy := ts\<rparr>" _ s] blocked_same [of "s\<lparr>tsy := ts, slept_threads := f\<rparr>" _ s]
  unfolding kinv0_def by auto

lemma cv_wait_kinv:
  assumes km: "km_kseg0 km" and i0: "kinv0 init s" and cur: "curthread (tsy s) = Some t" and v: "cv_wait km cv lock s = Some s'"
  shows "kinv init s'" "linv s \<Longrightarrow> lock_busy s lock = Some t \<Longrightarrow> linv s'"
proof -
  from v cur obtain r q s1 where l: "lock_release km lock (s\<lparr>tsy := snd (splhigh (tsy s)), slept_threads := (slept_threads s)(cv := q)\<rparr>) = Some s1"
    and f: "fall_asleep km t (In_wait cv lock (curspl (tsy s))) s1 = Some s'"
    by (auto simp: cv_wait_def splhigh_case bind_eq_Some_conv)
  let ?s = "s\<lparr>tsy := snd (splhigh (tsy s)), slept_threads := (slept_threads s)(cv := q)\<rparr>"
  have "kinv0 init ?s" by (intro kinv0_tsy(2) [OF i0]) (simp_all add: kinv0_ts [OF i0])
  moreover have "curthread (tsy ?s) = Some t" using cur by simp
  ultimately have r: "kinv0 init s1" "curthread (tsy s1) = Some t" "linv ?s \<Longrightarrow> lock_busy ?s lock = Some t \<Longrightarrow> linv s1"
    using release_kinv [OF km _ _ l] by blast+
  note fa = fall_asleep_kinv [OF r(1,2) f]
  show "kinv init s'" by (rule fa) (simp add: blocked_def)
  have "linv s1 \<Longrightarrow> linv s'" using fa by (simp add: linv_def blocked_def)
  then show "linv s \<Longrightarrow> lock_busy s lock = Some t \<Longrightarrow> linv s'" using r(3) by (simp add: linv_def)
qed

lemma woken_kinv:
  assumes "kinv init s" "ts_inv ts" "set (slist ts) \<subseteq> set (slist (tsy s))" "t_sleepaddr ts = t_sleepaddr (tsy s)"
    "curthread ts = curthread (tsy s)"
  shows "kinv init (s\<lparr>tsy := snd (splx (curspl (tsy s)) ts), slept_threads := f\<rparr>)"
proof -
  have "kinv0 init (s\<lparr>tsy := snd (splx (curspl (tsy s)) ts), slept_threads := f\<rparr>)"
    using assms by (intro kinv0_tsy(2)) (auto simp: kinv_def)
  then show ?thesis using assms(1,5) by (simp add: kinv_def split: option.splits)
qed

lemma cv_signal_kinv:
  assumes km: "km_kseg0 km" and inv: "kinv init s" and v: "cv_signal km cv s = Some s'"
  shows "kinv init s'" "linv s \<Longrightarrow> linv s'"
proof -
  from v obtain addr q ts where w: "thread_wakeup km addr (snd (splhigh (tsy s))) = Some ts"
    and s': "s' = s\<lparr>tsy := snd (splx (curspl (tsy s)) ts), slept_threads := (slept_threads s)(cv := q)\<rparr>"
    by (auto simp: cv_signal_def splhigh_case bind_eq_Some_conv)
  have "kinv0 init s" using inv by (simp add: kinv_def)
  note wb = wakeup_blocked [OF km this w]
  show "kinv init s'" unfolding s' using wb by (intro woken_kinv [OF inv]) auto
  show "linv s \<Longrightarrow> linv s'" using s' by (simp add: linv_def)
qed

lemma broadcast_loop_some:
  assumes km: "km_kseg0 km"
  shows "q_inv q \<Longrightarrow> ts_inv ts \<Longrightarrow> broadcast_loop km q ts = Some (q', ts') \<Longrightarrow>
    ts_inv ts' \<and> set (slist ts') \<subseteq> set (slist ts) \<and> t_sleepaddr ts' = t_sleepaddr ts \<and> curthread ts' = curthread ts"
proof (induction "length (q_list q)" arbitrary: q ts)
  case 0
  then have "q_empty q" using q_empty_iff [of q] by (metis length_0_conv)
  then show ?case using 0 by (simp add: broadcast_loop.simps)
next
  case (Suc n)
  then have ne: "q_list q \<noteq> []" by (metis list.size(3) nat.distinct(1))
  then have em: "\<not> q_empty q" using q_empty_iff [OF Suc.prems(1)] by simp
  from q_remhead_ok [OF Suc.prems(1) ne] obtain q1 where
    q1: "q_remhead q = Some (hd (q_list q), q1)" "q_inv q1" "q_list q1 = tl (q_list q)" by blast
  from Suc.prems(3) em q1(1) obtain ts1 where
    w: "thread_wakeup km (hd (q_list q)) ts = Some ts1" "broadcast_loop km q1 ts1 = Some (q', ts')"
    by (subst (asm) broadcast_loop.simps) (auto simp: bind_eq_Some_conv)
  note ws = thread_wakeup_some [OF km Suc.prems(2) w(1)]
  have "n = length (q_list q1)" unfolding q1(3) using Suc.hyps(2) by (metis diff_Suc_1 length_tl)
  from Suc.hyps(1) [OF this q1(2) ws(1) w(2)] ws show ?case by auto
qed

lemma cv_broadcast_kinv:
  assumes km: "km_kseg0 km" and inv: "kinv init s" and q: "q_inv (slept_threads s cv)" and v: "cv_broadcast km cv s = Some s'"
  shows "kinv init s'" "linv s \<Longrightarrow> linv s'"
proof -
  from v obtain q ts where w: "broadcast_loop km (slept_threads s cv) (snd (splhigh (tsy s))) = Some (q, ts)"
    and s': "s' = s\<lparr>tsy := snd (splx (curspl (tsy s)) ts), slept_threads := (slept_threads s)(cv := q)\<rparr>"
    by (auto simp: cv_broadcast_def splhigh_case bind_eq_Some_conv)
  have "ts_inv (snd (splhigh (tsy s)))" using inv by (auto simp: kinv_def dest: kinv0_ts)
  from broadcast_loop_some [OF km q this w] show "kinv init s'" unfolding s' by (intro woken_kinv [OF inv]) auto
  show "linv s \<Longrightarrow> linv s'" using s' by (simp add: linv_def)
qed

lemma yield_kinv:
  assumes km: "km_kseg0 km" and i0: "kinv0 init s" and cur: "curthread (tsy s) = Some t" and v: "yield_out km s = Some s'"
  shows "kinv init s'" "linv s \<Longrightarrow> linv s'"
proof -
  from v cur obtain ts where w: "mi_switch_out km S_READY t (snd (splhigh (tsy s))) = Some ts"
    and s': "s' = s\<lparr>tsy := ts, pcs := (pcs s)(t := In_yield (curspl (tsy s)))\<rparr>"
    by (auto simp: yield_out_def splhigh_case bind_eq_Some_conv)
  have "ts_inv (snd (splhigh (tsy s)))" "curthread (snd (splhigh (tsy s))) = Some t" using i0 cur by (simp_all add: kinv0_ts)
  note sw = switch_ready_some [OF km this w]
  have "blocked s' u" if "u \<in> set (slist (tsy s))" for u
  proof -
    have "u \<noteq> t" "blocked s u" using that cur_not_asleep [OF i0 cur] i0 by (auto simp: kinv0_def)
    then show ?thesis using sw(4) blocked_same [of s' u s] s' by simp
  qed
  then have "kinv0 init s'" using i0 sw s' unfolding kinv0_def by auto
  then show "kinv init s'" using sw s' by (simp add: kinv_def)
  show "linv s \<Longrightarrow> linv s'" using s' by (simp add: linv_def)
qed

lemma back_kinv0:
  assumes inv: "kinv0 init s" and cur: "curthread (tsy s) = Some t" and e: "thread_sleep_end km (tsy s) = Some ts"
  shows "kinv0 init (s\<lparr>tsy := ts\<rparr>)" "kinv0 init (s\<lparr>tsy := snd (splx spl ts)\<rparr>)" "curthread ts = Some t"
proof -
  note se = sleep_end_some [OF kinv0_ts [OF inv] cur e]
  show "kinv0 init (s\<lparr>tsy := ts\<rparr>)" "kinv0 init (s\<lparr>tsy := snd (splx spl ts)\<rparr>)" "curthread ts = Some t"
    using se by (auto intro!: kinv0_tsy(1) [OF inv])
qed

lemma lock_acquire_kinv:
  assumes inv: "kinv0 init s" and cur: "curthread (tsy s) = Some t" and a: "lock_acquire km lock s = Some s'"
  shows "kinv init s'" "linv s \<Longrightarrow> linv s'"
proof -
  let ?s = "s\<lparr>tsy := snd (splhigh (tsy s))\<rparr>"
  have i: "kinv0 init ?s" by (intro kinv0_tsy(1) [OF inv]) (simp_all add: kinv0_ts [OF inv])
  have c: "curthread (tsy ?s) = Some t" and l: "acquire_loop km lock (curspl (tsy s)) ?s = Some s'"
    using cur a by (simp_all add: lock_acquire_def splhigh_case)
  show "kinv init s'" "linv s \<Longrightarrow> linv s'" using acquire_loop_kinv [OF i c l] by (simp_all add: linv_def)
qed

lemma P_sem_kinv:
  assumes inv: "kinv0 init s" and cur: "curthread (tsy s) = Some t" and a: "P_sem km sem s = Some s'"
  shows "kinv init s'" "linv s \<Longrightarrow> linv s'"
proof -
  let ?s = "s\<lparr>tsy := snd (splhigh (tsy s))\<rparr>"
  have i: "kinv0 init ?s" by (intro kinv0_tsy(1) [OF inv]) (simp_all add: kinv0_ts [OF inv])
  have c: "curthread (tsy ?s) = Some t" and l: "P_loop km sem (curspl (tsy s)) ?s = Some s'"
    using cur a by (simp_all add: P_sem_def splhigh_case bind_eq_Some_conv)
  show "kinv init s'" "linv s \<Longrightarrow> linv s'" using P_loop_kinv [OF i c l] by (simp_all add: linv_def)
qed

lemma resume_kinv:
  assumes inv: "kinv0 init s" and cur: "curthread (tsy s) = Some t" and r: "resume km t s = Some s'"
  shows "kinv init s'" "linv s \<Longrightarrow> linv s'"
proof -
  have "kinv init s' \<and> (linv s \<longrightarrow> linv s')"
  proof (cases "pcs s t")
    case (In_P sem spl)
    with r obtain ts where ts: "thread_sleep_end km (tsy s) = Some ts" "P_loop km sem spl (s\<lparr>tsy := ts\<rparr>) = Some s'"
      by (auto simp: resume_def bind_eq_Some_conv)
    note b = back_kinv0 [OF inv cur ts(1)]
    show ?thesis using P_loop_kinv [OF b(1) _ ts(2)] b(3) by (simp add: linv_def)
  next
    case (In_acquire lock spl)
    with r obtain ts where ts: "thread_sleep_end km (tsy s) = Some ts" "acquire_loop km lock spl (s\<lparr>tsy := ts\<rparr>) = Some s'"
      by (auto simp: resume_def bind_eq_Some_conv)
    note b = back_kinv0 [OF inv cur ts(1)]
    show ?thesis using acquire_loop_kinv [OF b(1) _ ts(2)] b(3) by (simp add: linv_def)
  next
    case (In_wait cv lock spl)
    with r obtain ts where ts: "thread_sleep_end km (tsy s) = Some ts" "lock_acquire km lock (s\<lparr>tsy := snd (splx spl ts)\<rparr>) = Some s'"
      by (auto simp: resume_def bind_eq_Some_conv)
    note b = back_kinv0 [OF inv cur ts(1)]
    show ?thesis using lock_acquire_kinv [OF b(2) _ ts(2)] b(3) by (simp add: linv_def)
  next
    case (In_yield spl)
    with r obtain ts where ts: "mi_resume km (tsy s) = Some ts" "s' = finish spl t [] (s\<lparr>tsy := ts\<rparr>)"
      by (auto simp: resume_def bind_eq_Some_conv)
    note rs = resume_some [OF kinv0_ts [OF inv] ts(1)]
    have "blocked s' u" if "u \<in> set (slist (tsy s))" for u
    proof -
      have "u \<noteq> t" "blocked s u" using that cur_not_asleep [OF inv cur] inv by (auto simp: kinv0_def)
      then show ?thesis using rs blocked_same [of s' u s] ts(2) by (simp add: finish_def)
    qed
    then have "kinv0 init s'" using inv rs ts(2) unfolding kinv0_def by (auto simp: finish_def)
    then show ?thesis using rs ts(2) cur by (simp add: kinv_def finish_def linv_def)
  qed (use r in \<open>simp add: resume_def\<close>)
  then show "kinv init s'" "linv s \<Longrightarrow> linv s'" by auto
qed

text \<open>The queues of the condition variables stay well formed.\<close>
definition cvinv :: "ksys \<Rightarrow> bool" where
  "cvinv s \<longleftrightarrow> (\<forall>cv. q_inv (slept_threads s cv))"

lemma fall_asleep_cv: "fall_asleep km addr p s = Some s' \<Longrightarrow> slept_threads s' = slept_threads s"
  by (auto simp: fall_asleep_def bind_eq_Some_conv)

lemma loops_cv:
  "P_loop km sem spl s = Some s' \<Longrightarrow> slept_threads s' = slept_threads s"
  "acquire_loop km lock spl s = Some s' \<Longrightarrow> slept_threads s' = slept_threads s"
  "lock_acquire km lock s = Some s' \<Longrightarrow> slept_threads s' = slept_threads s"
  "resume km t s = Some s' \<Longrightarrow> slept_threads s' = slept_threads s"
proof -
  show p: "P_loop km sem spl s = Some s' \<Longrightarrow> slept_threads s' = slept_threads s" for sem spl s s'
    by (auto simp: P_loop_def finish_def bind_eq_Some_conv fall_asleep_cv split: if_splits)
  show a: "acquire_loop km lock spl s = Some s' \<Longrightarrow> slept_threads s' = slept_threads s" for lock spl s s'
    by (auto simp: acquire_loop_def finish_def bind_eq_Some_conv fall_asleep_cv split: if_splits)
  show l: "lock_acquire km lock s = Some s' \<Longrightarrow> slept_threads s' = slept_threads s" for lock s s'
    using a by (fastforce simp: lock_acquire_def splhigh_case)
  show "resume km t s = Some s' \<Longrightarrow> slept_threads s' = slept_threads s"
    using p a l by (fastforce simp: resume_def finish_def bind_eq_Some_conv split: kpc.splits)
qed

lemma broadcast_loop_cv:
  "q_inv q \<Longrightarrow> broadcast_loop km q ts = Some (q', ts') \<Longrightarrow> q_inv q'"
proof (induction "length (q_list q)" arbitrary: q ts)
  case 0
  then have "q_empty q" using q_empty_iff [of q] by (metis length_0_conv)
  then show ?case using 0 by (simp add: broadcast_loop.simps)
next
  case (Suc n)
  then have ne: "q_list q \<noteq> []" by (metis list.size(3) nat.distinct(1))
  then have em: "\<not> q_empty q" using q_empty_iff [OF Suc.prems(1)] by simp
  from q_remhead_ok [OF Suc.prems(1) ne] obtain q1 where
    q1: "q_remhead q = Some (hd (q_list q), q1)" "q_inv q1" "q_list q1 = tl (q_list q)" by blast
  from Suc.prems(2) em q1(1) obtain ts1 where "broadcast_loop km q1 ts1 = Some (q', ts')"
    by (subst (asm) broadcast_loop.simps) (auto simp: bind_eq_Some_conv)
  moreover have "n = length (q_list q1)" unfolding q1(3) using Suc.hyps(2) by (metis diff_Suc_1 length_tl)
  ultimately show ?case using Suc.hyps(1) q1(2) by blast
qed

lemma exec_op_cvinv:
  assumes km: "km_kseg0 km" and c: "cvinv s" and e: "exec_op km op s = Some s'"
  shows "cvinv s'"
proof (cases op)
  case (Op_wait cv lock)
  with e obtain t r q s1 where q: "q_addtail km (slept_threads s cv) t = Some (r, q)"
    and l: "lock_release km lock (s\<lparr>tsy := snd (splhigh (tsy s)), slept_threads := (slept_threads s)(cv := q)\<rparr>) = Some s1"
    and f: "fall_asleep km t (In_wait cv lock (curspl (tsy s))) s1 = Some s'"
    by (auto simp: cv_wait_def splhigh_case bind_eq_Some_conv)
  have "q_inv q" using kq.addtail_inv(1) [OF km _ q] c by (simp add: cvinv_def)
  moreover have "slept_threads s1 = (slept_threads s)(cv := q)"
    using l by (auto simp: lock_release_def splhigh_case bind_eq_Some_conv)
  ultimately show ?thesis using c fall_asleep_cv [OF f] by (simp add: cvinv_def)
next
  case (Op_signal cv)
  with e obtain addr q where q: "q_remhead (slept_threads s cv) = Some (addr, q)" and s': "slept_threads s' = (slept_threads s)(cv := q)"
    by (auto simp: cv_signal_def splhigh_case bind_eq_Some_conv)
  have i: "q_inv (slept_threads s cv)" using c by (simp add: cvinv_def)
  have "q_list (slept_threads s cv) \<noteq> []" using q kq.remhead_empty [OF i] by auto
  from q_remhead_ok [OF i this] q have "q_inv q" by auto
  then show ?thesis using c s' by (simp add: cvinv_def)
next
  case (Op_broadcast cv)
  with e obtain q ts where q: "broadcast_loop km (slept_threads s cv) (snd (splhigh (tsy s))) = Some (q, ts)"
    and s': "slept_threads s' = (slept_threads s)(cv := q)"
    by (auto simp: cv_broadcast_def splhigh_case bind_eq_Some_conv)
  then show ?thesis using c broadcast_loop_cv [OF _ q] by (simp add: cvinv_def)
qed (use e c in \<open>auto simp: cvinv_def P_sem_def V_sem_def lock_release_def yield_out_def splhigh_case Let_def bind_eq_Some_conv
    dest!: loops_cv\<close>)

lemma kstep_inv:
  assumes km: "km_kseg0 km" and st: "kstep strict km s s'" and inv: "kinv init s" and c: "cvinv s"
  shows "kinv init s'" "cvinv s'" "strict \<Longrightarrow> linv s \<Longrightarrow> linv s'"
proof -
  have i0: "kinv0 init s" using inv by (simp add: kinv_def)
  have "kinv init s' \<and> cvinv s' \<and> (strict \<longrightarrow> linv s \<longrightarrow> linv s')"
    using st
  proof cases
    case (call t op)
    have "kinv init s' \<and> (strict \<longrightarrow> linv s \<longrightarrow> linv s')"
    proof (cases op)
      case (Op_P m) then show ?thesis using P_sem_kinv [OF i0 call(1)] call(4) by auto
    next
      case (Op_V m) then show ?thesis using V_kinv [OF km inv] call(4) by auto
    next
      case (Op_acquire l) then show ?thesis using lock_acquire_kinv [OF i0 call(1)] call(4) by auto
    next
      case (Op_release l)
      then have "kinv0 init s'" "curthread (tsy s') = Some t" "pcs s' = pcs s" "linv s \<Longrightarrow> lock_busy s l = Some t \<Longrightarrow> linv s'"
        using release_kinv [OF km i0 call(1)] call(4) by auto
      then show ?thesis using call(2,3) Op_release by (auto simp: kinv_def)
    next
      case (Op_wait cv l) then show ?thesis using cv_wait_kinv [OF km i0 call(1)] call(3,4) by auto
    next
      case (Op_signal cv) then show ?thesis using cv_signal_kinv [OF km inv] call(4) by auto
    next
      case (Op_broadcast cv) then show ?thesis using cv_broadcast_kinv [OF km inv] c call(4) by (auto simp: cvinv_def)
    next
      case Op_yield then show ?thesis using yield_kinv [OF km i0 call(1)] call(4) by auto
    qed
    then show ?thesis using exec_op_cvinv [OF km c call(4)] by blast
  next
    case (goes_on t)
    then show ?thesis using resume_kinv [OF i0 goes_on(1,2)] loops_cv(4) [OF goes_on(2)] c by (auto simp: cvinv_def)
  next
    case (pick ts)
    note d = dispatch_some [OF kinv0_ts [OF i0] pick(2,3)]
    have "kinv0 init s'" unfolding pick(1) using d by (intro kinv0_tsy(1) [OF i0]) auto
    then show ?thesis using d pick(1) c by (auto simp: kinv_def cvinv_def linv_def split: option.split)
  next
    case (irq sem)
    have "slept_threads s' = slept_threads s" using irq(2) by (auto simp: V_sem_def splhigh_case Let_def bind_eq_Some_conv)
    then show ?thesis using V_kinv [OF km inv irq(2)] c by (auto simp: cvinv_def)
  qed
  then show "kinv init s'" "cvinv s'" "strict \<Longrightarrow> linv s \<Longrightarrow> linv s'" by auto
qed

lemma kreach_inv:
  assumes "kreach strict km s0 s" "km_kseg0 km" "kinv init s0" "cvinv s0"
  shows "kinv init s \<and> cvinv s \<and> (strict \<longrightarrow> linv s0 \<longrightarrow> linv s)"
  using assms by (induction rule: rtranclp_induct) (auto dest: kstep_inv)

section \<open>Properties\<close>

text \<open>A system in which no thread is inside one of the functions and all locks are free.\<close>
definition kstart :: "ksys \<Rightarrow> bool" where
  "kstart s \<longleftrightarrow> ts_inv (tsy s) \<and> slist (tsy s) = [] \<and> curthread (tsy s) \<noteq> None
     \<and> pcs s = (\<lambda>t. Run) \<and> hist s = [] \<and> lock_busy s = (\<lambda>l. None)
     \<and> (\<forall>m. 0 \<le> sem_count s m \<and> sem_count s m < 2 ^ 31) \<and> (\<forall>cv. q_inv (slept_threads s cv))"

lemma kstart_inv: "kstart s \<Longrightarrow> kinv (sem_count s) s \<and> cvinv s \<and> linv s"
  by (auto simp: kstart_def kinv_def kinv0_def cvinv_def linv_def)

lemma kreach_start:
  assumes "km_kseg0 km" "kstart s0" "kreach strict km s0 s"
  shows "kinv (sem_count s0) s" "cvinv s" "strict \<Longrightarrow> linv s"
  using kreach_inv [OF assms(3,1)] kstart_inv [OF assms(2)] by auto

text \<open>Thread 1 is running and thread 7 ready; the semaphore 200 starts with 1, the others with 0.\<close>
definition ks_ex :: ksys where
  "ks_ex = \<lparr>tsy = ts_two\<lparr>runqueue := runqueue ts_ex\<rparr>, sem_count = (\<lambda>m. if m = 200 then 1 else 0), lock_busy = (\<lambda>_. None), slept_threads = (\<lambda>_. q_two),
     pcs = (\<lambda>_. Run), hist = []\<rparr>"

lemma ks_ex_start: "kstart ks_ex"
proof -
  have l: "slist (tsy ks_ex) = []" "zlist (tsy ks_ex) = []" "curl (tsy ks_ex) = [1]" "runq (tsy ks_ex) = [7]"
    using ts_ex_lists by (simp_all add: ks_ex_def ts_two_def ts_ex_def slist_def zlist_def curl_def arr_list_def)
  have "ka.holds (sleepers (tsy ks_ex)) []" "ka.holds (zombies (tsy ks_ex)) []" "q_inv (runqueue (tsy ks_ex))" "q_size (runqueue (tsy ks_ex)) = 8"
    using ts_ex_inv(1) by (simp_all add: ts_inv_def ks_ex_def ts_two_def ts_ex_def ka.holds_def arr_inv_def arr_list_def)
  then have "ts_inv (tsy ks_ex)" unfolding ts_inv_def l by (simp add: ks_ex_def ts_two_def)
  then show ?thesis using l q_two_inv(1) by (simp add: kstart_def) (simp add: ks_ex_def ts_two_def ts_ex_def)
qed
text \<open>Thread 1 calls \<^verbatim>\<open>P\<close> and goes to sleep, thread 7 gets the processor and calls \<^verbatim>\<open>V\<close>.\<close>
definition run_ex :: "ksys option" where
  "run_ex = do {
     s \<leftarrow> P_sem (\<lambda>b. b < 4096) 100 ks_ex;
     ts \<leftarrow> dispatch [] (tsy s);
     V_sem (\<lambda>b. b < 4096) 100 (s\<lparr>tsy := ts\<rparr>)
   }"

lemma run_ex_state:
  "case run_ex of Some s \<Rightarrow> pcs s 1 = In_P 100 15 \<and> sem_count s 100 = 1 \<and> hist s = [VDone 100] | None \<Rightarrow> False"
  by code_simp

lemma run_ex_reach: "run_ex = Some s \<Longrightarrow> kreach strict (\<lambda>b. b < 4096) ks_ex s"
proof -
  assume "run_ex = Some s"
  then obtain s1 ts where p: "P_sem (\<lambda>b. b < 4096) 100 ks_ex = Some s1" and d: "dispatch [] (tsy s1) = Some ts"
    and v: "V_sem (\<lambda>b. b < 4096) 100 (s1\<lparr>tsy := ts\<rparr>) = Some s" by (auto simp: run_ex_def bind_eq_Some_conv)
  have idle: "case P_sem (\<lambda>b. b < 4096) 100 ks_ex of Some s \<Rightarrow> curthread (tsy s) = None | None \<Rightarrow> False" by code_simp
  have next7: "case Option.bind (P_sem (\<lambda>b. b < 4096) 100 ks_ex) (\<lambda>s. Option.bind (dispatch [] (tsy s)) (\<lambda>ts. Some (curthread ts, pcs s 7)))
    of Some r \<Rightarrow> r = (Some 7, Run) | None \<Rightarrow> False" by code_simp
  have "kstep strict (\<lambda>b. b < 4096) ks_ex s1"
    by (rule kstep.call [of _ 1 _ "Op_P 100"]) (use p in \<open>simp_all add: ks_ex_def ts_two_def ts_ex_def\<close>)
  moreover have "kstep strict (\<lambda>b. b < 4096) s1 (s1\<lparr>tsy := ts\<rparr>)" using kstep.pick [OF _ d] idle p by simp
  moreover have "kstep strict (\<lambda>b. b < 4096) (s1\<lparr>tsy := ts\<rparr>) s"
    by (rule kstep.call [of _ 7 _ "Op_V 100"]) (use p d v next7 in simp_all)
  ultimately show ?thesis by (simp add: converse_rtranclp_into_rtranclp)
qed

text \<open>
  C8. In every interleaving of threads and interrupts, the count of a semaphore is its initial
  count plus the number of \<^verbatim>\<open>V\<close>s minus the number of \<^verbatim>\<open>P\<close>s that have completed, and it is
  never negative: no more threads get through \<^verbatim>\<open>P\<close> than there were units.
\<close>
theorem semaphore_count:
  assumes "km_kseg0 km" "kstart s0" "kreach strict km s0 s"
  shows "sem_count s m = sem_count s0 m + int (length (filter (\<lambda>e. e = VDone m) (hist s)))
      - int (length (filter (\<lambda>e. \<exists>t. e = PDone t m) (hist s)))
    \<and> 0 \<le> sem_count s m"
proof -
  have "kinv0 (sem_count s0) s" using kreach_start(1) [OF assms] by (simp add: kinv_def)
  then show ?thesis unfolding kinv0_def vcount_def by (metis add_diff_eq)
qed

theorem semaphore_count_witness:
  "case run_ex of Some s \<Rightarrow> sem_count s 200 = 1 + int (length (filter (\<lambda>e. e = VDone 200) (hist s)))
      - int (length (filter (\<lambda>e. \<exists>t. e = PDone t 200) (hist s))) | None \<Rightarrow> False"
proof -
  obtain s where s: "run_ex = Some s" using run_ex_state by (cases run_ex) auto
  from semaphore_count [OF km_small(2) ks_ex_start run_ex_reach [OF s], of 200] show ?thesis
    unfolding s by (simp add: ks_ex_def)
qed

text \<open>
  C7. Mutual exclusion: as long as only the holder releases a lock, every interleaving of threads
  and interrupts acquires and releases each lock alternately, each release by the thread that
  acquired it, and the lock's \<^verbatim>\<open>busy\<close> field is the thread that holds it. So no two threads
  hold the same lock, and \<^verbatim>\<open>lock_do_i_hold\<close> is true exactly for the holder.
\<close>
theorem lock_mutual_exclusion:
  assumes "km_kseg0 km" "kstart s0" "kreach True km s0 s"
  shows "\<exists>h. lock_run l None (hist s) = Some h \<and> lock_busy s l = h
    \<and> (\<forall>t. curthread (tsy s) = Some t \<longrightarrow> (lock_do_i_hold l s \<longleftrightarrow> h = Some t))"
  using kreach_start(3) [OF assms] by (auto simp: linv_def lock_do_i_hold_def)

theorem lock_mutual_exclusion_witness:
  "\<exists>s. lock_acquire (\<lambda>b. b < 4096) 300 ks_ex = Some s \<and> lock_run 300 None (hist s) = Some (Some 1) \<and> lock_do_i_hold 300 s"
proof -
  have "case lock_acquire (\<lambda>b. b < 4096) 300 ks_ex of Some s \<Rightarrow> lock_busy s 300 = Some 1 \<and> curthread (tsy s) = Some 1 | None \<Rightarrow> False"
    by code_simp
  then obtain s where s: "lock_acquire (\<lambda>b. b < 4096) 300 ks_ex = Some s" "lock_busy s 300 = Some 1" "curthread (tsy s) = Some 1"
    by (cases "lock_acquire (\<lambda>b. b < 4096) 300 ks_ex") simp_all
  have "kstep True (\<lambda>b. b < 4096) ks_ex s"
    by (rule kstep.call [of _ 1 _ "Op_acquire 300"]) (use s(1) in \<open>simp_all add: ks_ex_def ts_two_def ts_ex_def\<close>)
  then have "kreach True (\<lambda>b. b < 4096) ks_ex s" by blast
  from lock_mutual_exclusion [OF km_small(2) ks_ex_start this, of 300] s show ?thesis by auto
qed

text \<open>
  C9. No wakeup is lost. In every interleaving, a thread that is inside \<^verbatim>\<open>P\<close> while the count
  is positive, or inside \<^verbatim>\<open>lock_acquire\<close> while the lock is free, is not asleep; and when it
  gets the processor it completes the operation without going back to sleep.
\<close>
theorem no_lost_wakeup:
  assumes "km_kseg0 km" "kstart s0" "kreach strict km s0 s"
    "pcs s t = In_P a spl \<and> sem_count s a > 0 \<or> pcs s t = In_acquire a spl \<and> lock_busy s a = None"
  shows "t \<notin> set (slist (tsy s)) \<and> (curthread (tsy s) = Some t \<longrightarrow>
    (\<exists>s'. resume km t s = Some s' \<and> pcs s' t = Run \<and> (hist s' = hist s @ [PDone t a] \<or> hist s' = hist s @ [Acq t a])))"
proof -
  have k: "kinv (sem_count s0) s" using kreach_start(1) [OF assms(1-3)] .
  then have i0: "kinv0 (sem_count s0) s" by (simp add: kinv_def)
  then have "t \<notin> set (slist (tsy s))" using assms(4) by (auto simp: kinv0_def blocked_def)
  moreover have "\<exists>s'. resume km t s = Some s' \<and> pcs s' t = Run \<and> (hist s' = hist s @ [PDone t a] \<or> hist s' = hist s @ [Acq t a])"
    if cur: "curthread (tsy s) = Some t"
  proof -
    have "curspl (tsy s) > 0" using k cur assms(4) by (auto simp: kinv_def)
    from exorcise_ok [OF kinv0_ts [OF i0] this, of km] obtain z where
      "exorcise km (tsy s) = Some ((tsy s)\<lparr>zombies := z\<rparr>)" by blast
    then show ?thesis using cur assms(4)
      by (auto simp: resume_def thread_sleep_end_def mi_resume_def P_loop_def acquire_loop_def finish_def)
  qed
  ultimately show ?thesis by blast
qed

theorem no_lost_wakeup_witness:
  "case run_ex of Some s \<Rightarrow> pcs s 1 = In_P 100 15 \<and> 1 \<notin> set (slist (tsy s)) | None \<Rightarrow> False"
proof -
  obtain s where s: "run_ex = Some s" using run_ex_state by (cases run_ex) auto
  note st = run_ex_state [unfolded s, simplified option.case]
  from no_lost_wakeup [OF km_small(2) ks_ex_start run_ex_reach [OF s], of 1 100 15] st show ?thesis unfolding s by simp
qed

text \<open>
  C37. \<^verbatim>\<open>lock_release\<close> does not look at the holder: whichever thread is running can release a
  lock that another thread holds, and then acquire it at once. The other thread has not
  released it, so the history has two holders at the same time.
\<close>
theorem lock_release_by_other_thread:
  assumes "ts_inv (tsy s)" "curthread (tsy s) = Some t" "lock_busy s l = Some u" "u \<noteq> t"
    "lock_run l None (hist s) = Some (Some u)"
  shows "\<exists>s1 s2. lock_release km l s = Some s1 \<and> lock_acquire km l s1 = Some s2 \<and> lock_busy s2 l = Some t
    \<and> hist s2 = hist s @ [Rel t l, Acq t l] \<and> lock_run l None (hist s2) = None"
proof -
  from thread_wakeup_ok [of "snd (splhigh (tsy s))" t km l] assms(1,2) obtain q a where
    "thread_wakeup km l (snd (splhigh (tsy s))) = Some ((snd (splhigh (tsy s)))\<lparr>runqueue := q, sleepers := a\<rparr>)" by auto
  moreover have "curl ((snd (splhigh (tsy s)))\<lparr>runqueue := q, sleepers := a\<rparr>) = [t]" using assms(2) by (simp add: curl_def)
  ultimately show ?thesis using assms(2-)
    by (simp add: lock_release_def lock_acquire_def acquire_loop_def splhigh_case finish_def lock_run_append)
qed

theorem lock_release_by_other_thread_witness:
  "\<exists>s1 s2. lock_release (\<lambda>_. False) 300 (ks_ex\<lparr>lock_busy := [300 \<mapsto> 7], hist := [Acq 7 300]\<rparr>) = Some s1
    \<and> lock_acquire (\<lambda>_. False) 300 s1 = Some s2 \<and> lock_busy s2 300 = Some 1 \<and> lock_run 300 None (hist s2) = None"
proof -
  have "ts_inv (tsy ks_ex)" "curthread (tsy ks_ex) = Some 1"
    using ks_ex_start by (simp add: kstart_def) (simp add: ks_ex_def ts_two_def ts_ex_def)
  with lock_release_by_other_thread [of "ks_ex\<lparr>lock_busy := [300 \<mapsto> 7], hist := [Acq 7 300]\<rparr>" 1 300 7 "\<lambda>_. False"]
  show ?thesis by auto
qed



end
