(* ===== verification/Sfs_Vnode.thy ===== *)
theory Sfs_Vnode
  imports Sfs_Trunc Sfs_Dir Kern_Synch
begin

text \<open>
  The vnodes of an SFS volume: \<^verbatim>\<open>kern/fs/vfs/vnode.c\<close> and the vnode operations of
  \<^verbatim>\<open>kern/fs/sfs/sfs_vnode.c\<close>.

  A vnode is named by its address, and \<open>sfs_heap\<close> holds the \<^verbatim>\<open>struct sfs_vnode\<close> objects. The address that
  \<^verbatim>\<open>kmalloc\<close> would return for a new one is the argument \<open>new\<close> of the operations that may load a
  vnode; each of them loads at most one. An operation on a vnode is the call through its table of operations: \<open>vop\<close>
  checks the vnode as \<^verbatim>\<open>vnode_check\<close> does and returns the error of the table's stub, or runs
  the operation. The lock that protects the counts is created and destroyed with the vnode;
  acquiring and releasing it around a few instructions is not represented.
\<close>

section \<open>Reference counts\<close>

text \<open>\<^verbatim>\<open>vnode_init\<close>; the lock's name \<^verbatim>\<open>vnode-countlock\<close> has 15 characters.\<close>
definition vnode_init :: "kmalloc_oracle \<Rightarrow> sfs_ops \<Rightarrow> sfs_vnode \<Rightarrow> errno + sfs_vnode" where
  "vnode_init km ops vn =
     (case lock_create km 15 of
        Inl _ \<Rightarrow> Inl ENOMEM
      | Inr _ \<Rightarrow> Inr (vn\<lparr>sv_ops := ops, sv_refcount := 1, sv_opencount := 0\<rparr>))"

definition vnode_kill :: "sfs_vnode \<Rightarrow> unit option" where
  "vnode_kill vn = do {
     kassert (sv_refcount vn = 1);
     kassert (sv_opencount vn = 0)
   }"

text \<open>\<^verbatim>\<open>vnode_check\<close> of an existing vnode; a count of zero is allowed only to \<^verbatim>\<open>VOP_RECLAIM\<close>.\<close>
definition vnode_check :: "bool \<Rightarrow> sfs_vnode \<Rightarrow> unit option" where
  "vnode_check reclaim v = do {
     kassert (\<not> sv_refcount v < 0);
     kassert (\<not> (sv_refcount v = 0 \<and> \<not> reclaim));
     kassert (\<not> sv_opencount v < 0)
   }"

definition put_vnode :: "nat \<Rightarrow> sfs_vnode \<Rightarrow> sfs_fs \<Rightarrow> sfs_fs" where
  "put_vnode p sv sfs = sfs\<lparr>sfs_heap := (sfs_heap sfs)(p \<mapsto> sv)\<rparr>"

text \<open>An operation on the object at \<open>p\<close>.\<close>
definition on_vnode :: "nat \<Rightarrow> (sfs_fs \<Rightarrow> sfs_vnode \<Rightarrow> ('r \<times> sfs_fs \<times> sfs_vnode) option) \<Rightarrow> sfs_fs \<Rightarrow> ('r \<times> sfs_fs) option" where
  "on_vnode p f sfs = do {
     sv \<leftarrow> sfs_heap sfs p;
     (r, sfs, sv) \<leftarrow> f sfs sv;
     Some (r, put_vnode p sv sfs)
   }"

text \<open>Signed overflow of a count has no result.\<close>
definition vnode_incref :: "nat \<Rightarrow> sfs_fs \<Rightarrow> sfs_fs option" where
  "vnode_incref p sfs = do {
     vn \<leftarrow> sfs_heap sfs p;
     kassert (sv_refcount vn + 1 < 2 ^ 31);
     Some (put_vnode p (vn\<lparr>sv_refcount := sv_refcount vn + 1\<rparr>) sfs)
   }"

text \<open>\<^verbatim>\<open>vnode_decref\<close> over the \<^verbatim>\<open>vop_reclaim\<close> of the vnode; its result is only printed.\<close>
definition vnode_decref :: "(nat \<Rightarrow> sfs_fs \<Rightarrow> ((errno + unit) \<times> sfs_fs) option) \<Rightarrow> nat \<Rightarrow> sfs_fs \<Rightarrow> sfs_fs option" where
  "vnode_decref reclaim p sfs = do {
     vn \<leftarrow> sfs_heap sfs p;
     kassert (sv_refcount vn > 0);
     if sv_refcount vn > 1 then Some (put_vnode p (vn\<lparr>sv_refcount := sv_refcount vn - 1\<rparr>) sfs)
     else do {
       vnode_check True vn;
       (result, sfs) \<leftarrow> reclaim p sfs;
       Some sfs
     }
   }"

definition vnode_incopen :: "nat \<Rightarrow> sfs_fs \<Rightarrow> sfs_fs option" where
  "vnode_incopen p sfs = do {
     vn \<leftarrow> sfs_heap sfs p;
     kassert (sv_opencount vn + 1 < 2 ^ 31);
     Some (put_vnode p (vn\<lparr>sv_opencount := sv_opencount vn + 1\<rparr>) sfs)
   }"

definition vnode_decopen :: "(nat \<Rightarrow> sfs_fs \<Rightarrow> ((errno + unit) \<times> sfs_fs) option) \<Rightarrow> nat \<Rightarrow> sfs_fs \<Rightarrow> sfs_fs option" where
  "vnode_decopen close p sfs = do {
     vn \<leftarrow> sfs_heap sfs p;
     kassert (sv_opencount vn > 0);
     let opencount = sv_opencount vn - 1;
     let vn = vn\<lparr>sv_opencount := opencount\<rparr>;
     let sfs = put_vnode p vn sfs;
     if opencount > 0 then Some sfs
     else do {
       vnode_check False vn;
       (result, sfs) \<leftarrow> close p sfs;
       Some sfs
     }
   }"

section \<open>The tables of operations\<close>

datatype vop_name =
    V_open | V_close | V_reclaim
  | V_read | V_readlink | V_getdirentry | V_write | V_ioctl | V_stat | V_gettype | V_tryseek
  | V_fsync | V_mmap | V_truncate | V_namefile
  | V_creat | V_symlink | V_mkdir | V_link | V_remove | V_rmdir | V_rename
  | V_lookup | V_lookparent

text \<open>
  The entries of \<^verbatim>\<open>sfs_fileops\<close> and \<^verbatim>\<open>sfs_dirops\<close> that are stubs, with the error the stub
  returns; \<open>None\<close> for an entry that is the SFS operation of that name.
\<close>
fun sfs_stub :: "sfs_ops \<Rightarrow> vop_name \<Rightarrow> errno option" where
  "sfs_stub sfs_fileops op =
     (if op \<in> {V_readlink, V_getdirentry, V_namefile, V_creat, V_symlink, V_mkdir, V_link, V_remove, V_rmdir,
               V_rename, V_lookup, V_lookparent}
      then Some ENOTDIR else None)"
| "sfs_stub sfs_dirops op =
     (if op \<in> {V_read, V_readlink, V_write, V_mmap, V_truncate} then Some EISDIR
      else if op \<in> {V_getdirentry, V_tryseek, V_symlink, V_mkdir, V_rmdir} then Some EUNIMP
      else None)"

text \<open>\<^verbatim>\<open>__VOP\<close>: check the vnode, then call through its table.\<close>
definition vop :: "vop_name \<Rightarrow> nat \<Rightarrow> (sfs_fs \<Rightarrow> ((errno + 'r) \<times> sfs_fs) option) \<Rightarrow> sfs_fs \<Rightarrow> ((errno + 'r) \<times> sfs_fs) option" where
  "vop op p f sfs = do {
     vn \<leftarrow> sfs_heap sfs p;
     vnode_check (op = V_reclaim) vn;
     case sfs_stub (sv_ops vn) op of
       Some err \<Rightarrow> Some (Inl err, sfs)
     | None \<Rightarrow> f sfs
   }"

section \<open>Simple operations\<close>

text \<open>\<^verbatim>\<open>sfs_open\<close>, \<^verbatim>\<open>sfs_opendir\<close>: \<^verbatim>\<open>O_APPEND\<close> is 32, \<^verbatim>\<open>O_ACCMODE\<close> is 3, \<^verbatim>\<open>O_RDONLY\<close> is 0.\<close>
definition sfs_open :: "u32 \<Rightarrow> errno + unit" where
  "sfs_open openflags = (if openflags AND 32 \<noteq> 0 then Inl EUNIMP else Inr ())"

definition sfs_opendir :: "u32 \<Rightarrow> errno + unit" where
  "sfs_opendir openflags =
     (if openflags AND 3 \<noteq> 0 then Inl EISDIR
      else if openflags AND 32 \<noteq> 0 then Inl EISDIR else Inr ())"

definition vop_open :: "nat \<Rightarrow> u32 \<Rightarrow> sfs_fs \<Rightarrow> ((errno + unit) \<times> sfs_fs) option" where
  "vop_open p openflags = vop V_open p (\<lambda>sfs. do {
     vn \<leftarrow> sfs_heap sfs p;
     Some (case sv_ops vn of sfs_fileops \<Rightarrow> sfs_open openflags | sfs_dirops \<Rightarrow> sfs_opendir openflags, sfs)
   })"

definition sfs_fsync :: "nat \<Rightarrow> sfs_fs \<Rightarrow> ((errno + unit) \<times> sfs_fs) option" where
  "sfs_fsync p sfs = on_vnode p sfs_sync_inode sfs"

definition sfs_close :: "nat \<Rightarrow> sfs_fs \<Rightarrow> ((errno + unit) \<times> sfs_fs) option" where
  "sfs_close p sfs = vop V_fsync p (sfs_fsync p) sfs"

text \<open>Files only: reading and writing with the user's or the kernel's \<^verbatim>\<open>uio\<close>.\<close>
definition sfs_read :: "nat \<Rightarrow> uio \<Rightarrow> sfs_fs \<Rightarrow> ((errno + unit) \<times> uio \<times> sfs_fs) option" where
  "sfs_read p uio sfs = do {
     sv \<leftarrow> sfs_heap sfs p;
     kassert (uio_rw uio = UIO_READ);
     (result, sfs, sv, uio) \<leftarrow> sfs_io sfs sv uio;
     Some (result, uio, put_vnode p sv sfs)
   }"

definition sfs_write :: "nat \<Rightarrow> uio \<Rightarrow> sfs_fs \<Rightarrow> ((errno + unit) \<times> uio \<times> sfs_fs) option" where
  "sfs_write p uio sfs = do {
     sv \<leftarrow> sfs_heap sfs p;
     kassert (uio_rw uio = UIO_WRITE);
     (result, sfs, sv, uio) \<leftarrow> sfs_io sfs sv uio;
     Some (result, uio, put_vnode p sv sfs)
   }"

definition sfs_ioctl :: "errno + unit" where
  "sfs_ioctl = Inl EINVAL"

text \<open>\<^verbatim>\<open>S_IFREG\<close> is octal 010000, \<^verbatim>\<open>S_IFDIR\<close> is octal 020000.\<close>
definition sfs_gettype :: "sfs_vnode \<Rightarrow> u32 option" where
  "sfs_gettype sv =
     (if sfi_type (sv_i sv) = SFS_TYPE_FILE then Some 0x1000
      else if sfi_type (sv_i sv) = SFS_TYPE_DIR then Some 0x2000 else None)"

record stat =
  st_mode :: u32
  st_nlink :: u32
  st_size :: int
  st_blocks :: u32

text \<open>\<^verbatim>\<open>VOP_GETTYPE\<close> inside; neither table has a stub for it.\<close>
definition sfs_stat :: "sfs_vnode \<Rightarrow> stat option" where
  "sfs_stat sv = do {
     vnode_check False sv;
     mode \<leftarrow> sfs_gettype sv;
     Some \<lparr>st_mode = mode, st_nlink = 0, st_size = s32 (uint (sfi_size (sv_i sv))), st_blocks = 0\<rparr>
   }"

definition sfs_tryseek :: "int \<Rightarrow> errno + unit" where
  "sfs_tryseek pos = (if pos < 0 then Inl EINVAL else Inr ())"

definition sfs_mmap :: "errno + unit" where
  "sfs_mmap = Inl EUNIMP"

text \<open>\<^verbatim>\<open>sfs_namefile\<close> sends back nothing: the empty string.\<close>
definition sfs_namefile :: "sfs_vnode \<Rightarrow> (errno + unit) option" where
  "sfs_namefile sv = do {
     kassert (sv_ino sv = SFS_ROOT_LOCATION);
     Some (Inr ())
   }"

definition vop_truncate :: "nat \<Rightarrow> int \<Rightarrow> sfs_fs \<Rightarrow> ((errno + unit) \<times> sfs_fs) option" where
  "vop_truncate p len sfs = vop V_truncate p (on_vnode p (\<lambda>sfs sv. sfs_truncate sfs sv len)) sfs"

section \<open>Reclaiming and loading vnodes\<close>

definition sfs_reclaim :: "nat \<Rightarrow> sfs_fs \<Rightarrow> ((errno + unit) \<times> sfs_fs) option" where
  "sfs_reclaim p sfs = do {
     sv \<leftarrow> sfs_heap sfs p;
     if sv_refcount sv \<noteq> 1
     then do {
       kassert (sv_refcount sv > 1);
       Some (Inl EBUSY, put_vnode p (sv\<lparr>sv_refcount := sv_refcount sv - 1\<rparr>) sfs)
     }
     else do {
       (result, sfs) \<leftarrow> (if sfi_linkcount (sv_i sv) = 0 then vop_truncate p 0 sfs else Some (Inr (), sfs));
       case result of Inl err \<Rightarrow> Some (Inl err, sfs) | Inr _ \<Rightarrow> do {
         (result, sfs) \<leftarrow> on_vnode p sfs_sync_inode sfs;
         case result of Inl err \<Rightarrow> Some (Inl err, sfs) | Inr _ \<Rightarrow> do {
           sv \<leftarrow> sfs_heap sfs p;
           sfs \<leftarrow> (if sfi_linkcount (sv_i sv) = 0 then sfs_bfree sfs (sv_ino sv) else Some sfs);
           found \<leftarrow> scan (nat (array_getnum (sfs_vnodes sfs))) (\<lambda>q. q = p) (array_getguy (sfs_vnodes sfs)) 0;
           (ix, _) \<leftarrow> found;
           vnodes \<leftarrow> array_remove (sfs_vnodes sfs) ix;
           vnode_kill sv;
           Some (Inr (), sfs\<lparr>sfs_vnodes := vnodes, sfs_heap := (sfs_heap sfs)(p := None)\<rparr>)
         }
       }
     }
   }"

definition vop_decref :: "nat \<Rightarrow> sfs_fs \<Rightarrow> sfs_fs option" where
  "vop_decref p sfs = vnode_decref sfs_reclaim p sfs"

text \<open>The search in the table of vnodes, which panics on an inode in a free block.\<close>
primrec load_search :: "nat \<Rightarrow> sfs_fs \<Rightarrow> u32 \<Rightarrow> int \<Rightarrow> nat option option" where
  "load_search 0 sfs ino i = Some None"
| "load_search (Suc n) sfs ino i = do {
     p \<leftarrow> array_getguy (sfs_vnodes sfs) i;
     sv \<leftarrow> sfs_heap sfs p;
     used \<leftarrow> sfs_bused sfs (sv_ino sv);
     kassert used;
     if sv_ino sv = ino then Some (Some p) else load_search n sfs ino (i + 1)
   }"

text \<open>The type of the inode, and whether setting it has made the inode dirty.\<close>
definition load_type :: "u16 \<Rightarrow> sfs_inode \<Rightarrow> (sfs_inode \<times> bool) option" where
  "load_type forcetype i =
     (if forcetype \<noteq> SFS_TYPE_INVAL
      then do {
        kassert (sfi_type i = SFS_TYPE_INVAL);
        Some (i\<lparr>sfi_type := forcetype\<rparr>, True)
      }
      else Some (i, False))"

definition load_ops :: "sfs_inode \<Rightarrow> sfs_ops option" where
  "load_ops i =
     (if sfi_type i = SFS_TYPE_FILE then Some sfs_fileops
      else if sfi_type i = SFS_TYPE_DIR then Some sfs_dirops else None)"

text \<open>
  \<^verbatim>\<open>sizeof(struct sfs_vnode)\<close> is 544. The inode is read into the new object, whose contents
  before that do not matter.
\<close>
definition sfs_loadvnode :: "kmalloc_oracle \<Rightarrow> nat \<Rightarrow> u32 \<Rightarrow> u16 \<Rightarrow> sfs_fs \<Rightarrow> ((errno + nat) \<times> sfs_fs) option" where
  "sfs_loadvnode km new ino forcetype sfs = do {
     found \<leftarrow> load_search (nat (array_getnum (sfs_vnodes sfs))) sfs ino 0;
     case found of
       Some p \<Rightarrow> do {
         kassert (forcetype = SFS_TYPE_INVAL);
         sfs \<leftarrow> vnode_incref p sfs;
         Some (Inr p, sfs)
       }
     | None \<Rightarrow>
         if \<not> km 544 then Some (Inl ENOMEM, sfs)
         else do {
           used \<leftarrow> sfs_bused sfs ino;
           kassert used;
           (result, buf, sfs) \<leftarrow> sfs_rblock sfs (replicate 512 0) 0 ino;
           case result of Inl err \<Rightarrow> Some (Inl err, sfs) | Inr _ \<Rightarrow> do {
             (i, dirty) \<leftarrow> load_type forcetype (inode_of buf);
             ops \<leftarrow> load_ops i;
             case vnode_init km ops \<lparr>sv_ops = ops, sv_refcount = 0, sv_opencount = 0, sv_i = i, sv_ino = ino, sv_dirty = dirty\<rparr> of
               Inl err \<Rightarrow> Some (Inl err, sfs)
             | Inr sv \<Rightarrow> do {
                 (result, vnodes) \<leftarrow> array_add km (sfs_vnodes sfs) new;
                 let sfs = sfs\<lparr>sfs_vnodes := vnodes\<rparr>;
                 case result of
                   Inl err \<Rightarrow> do {
                     vnode_kill sv;
                     Some (Inl err, sfs)
                   }
                 | Inr _ \<Rightarrow> Some (Inr new, put_vnode new sv sfs)
               }
           }
         }
   }"

definition sfs_getroot :: "kmalloc_oracle \<Rightarrow> nat \<Rightarrow> sfs_fs \<Rightarrow> (nat \<times> sfs_fs) option" where
  "sfs_getroot km new sfs = do {
     (result, sfs) \<leftarrow> sfs_loadvnode km new SFS_ROOT_LOCATION SFS_TYPE_INVAL sfs;
     case result of Inl err \<Rightarrow> None | Inr p \<Rightarrow> Some (p, sfs)
   }"

section \<open>Names\<close>

text \<open>\<^verbatim>\<open>sfs_lookonce\<close> in the directory at \<open>d\<close>: the vnode and the slot.\<close>
definition sfs_lookonce :: "kmalloc_oracle \<Rightarrow> nat \<Rightarrow> nat \<Rightarrow> u8 list \<Rightarrow> sfs_fs \<Rightarrow> ((errno + nat \<times> int) \<times> sfs_fs) option" where
  "sfs_lookonce km new d name sfs = do {
     (result, sfs) \<leftarrow> on_vnode d (\<lambda>sfs sv. map_option (\<lambda>(r, _, s). (r, s)) (sfs_dir_findname sfs sv name)) sfs;
     case result of Inl err \<Rightarrow> Some (Inl err, sfs) | Inr (ino, slot) \<Rightarrow> do {
       (result, sfs) \<leftarrow> sfs_loadvnode km new ino SFS_TYPE_INVAL sfs;
       case result of Inl err \<Rightarrow> Some (Inl err, sfs) | Inr p \<Rightarrow> do {
         sv \<leftarrow> sfs_heap sfs p;
         kassert (sfi_linkcount (sv_i sv) \<noteq> 0);
         Some (Inr (p, slot), sfs)
       }
     }
   }"

definition sfs_makeobj :: "kmalloc_oracle \<Rightarrow> nat \<Rightarrow> u16 \<Rightarrow> sfs_fs \<Rightarrow> ((errno + nat) \<times> sfs_fs) option" where
  "sfs_makeobj km new type sfs = do {
     (result, sfs) \<leftarrow> sfs_balloc sfs;
     case result of Inl err \<Rightarrow> Some (Inl err, sfs) | Inr ino \<Rightarrow> sfs_loadvnode km new ino type sfs
   }"

text \<open>The link count of the vnode at \<open>p\<close> changes by \<open>f\<close>, and the inode becomes dirty.\<close>
definition set_linkcount :: "(u16 \<Rightarrow> u16) \<Rightarrow> nat \<Rightarrow> sfs_fs \<Rightarrow> sfs_fs option" where
  "set_linkcount f p sfs = do {
     sv \<leftarrow> sfs_heap sfs p;
     Some (put_vnode p (sv\<lparr>sv_i := (sv_i sv)\<lparr>sfi_linkcount := f (sfi_linkcount (sv_i sv))\<rparr>, sv_dirty := True\<rparr>) sfs)
   }"

definition drop_linkcount :: "nat \<Rightarrow> sfs_fs \<Rightarrow> sfs_fs option" where
  "drop_linkcount p sfs = do {
     sv \<leftarrow> sfs_heap sfs p;
     kassert (sfi_linkcount (sv_i sv) > 0);
     set_linkcount (\<lambda>n. n - 1) p sfs
   }"

definition sfs_creat :: "kmalloc_oracle \<Rightarrow> nat \<Rightarrow> nat \<Rightarrow> u8 list \<Rightarrow> bool \<Rightarrow> sfs_fs \<Rightarrow> ((errno + nat) \<times> sfs_fs) option" where
  "sfs_creat km new d name excl sfs = do {
     (result, sfs) \<leftarrow> on_vnode d (\<lambda>sfs sv. map_option (\<lambda>(r, _, s). (r, s)) (sfs_dir_findname sfs sv name)) sfs;
     case result of
       Inr (ino, _) \<Rightarrow>
         if excl then Some (Inl EEXIST, sfs)
         else sfs_loadvnode km new ino SFS_TYPE_INVAL sfs
     | Inl err \<Rightarrow>
         if err \<noteq> ENOENT then Some (Inl err, sfs)
         else do {
           (result, sfs) \<leftarrow> sfs_makeobj km new SFS_TYPE_FILE sfs;
           case result of Inl err \<Rightarrow> Some (Inl err, sfs) | Inr newguy \<Rightarrow> do {
             sv \<leftarrow> sfs_heap sfs newguy;
             (result, sfs) \<leftarrow> on_vnode d (\<lambda>sfs dv. sfs_dir_link sfs dv name (sv_ino sv)) sfs;
             case result of
               Inl err \<Rightarrow> do {
                 sfs \<leftarrow> vop_decref newguy sfs;
                 Some (Inl err, sfs)
               }
             | Inr _ \<Rightarrow> do {
                 sfs \<leftarrow> set_linkcount (\<lambda>n. n + 1) newguy sfs;
                 Some (Inr newguy, sfs)
               }
           }
         }
   }"

definition sfs_link :: "nat \<Rightarrow> u8 list \<Rightarrow> nat \<Rightarrow> sfs_fs \<Rightarrow> ((errno + unit) \<times> sfs_fs) option" where
  "sfs_link d name file sfs = do {
     f \<leftarrow> sfs_heap sfs file;
     (result, sfs) \<leftarrow> on_vnode d (\<lambda>sfs dv. sfs_dir_link sfs dv name (sv_ino f)) sfs;
     case result of
       Inl err \<Rightarrow> Some (Inl err, sfs)
     | Inr _ \<Rightarrow> do {
         sfs \<leftarrow> set_linkcount (\<lambda>n. n + 1) file sfs;
         Some (Inr (), sfs)
       }
   }"

definition sfs_remove :: "kmalloc_oracle \<Rightarrow> nat \<Rightarrow> nat \<Rightarrow> u8 list \<Rightarrow> sfs_fs \<Rightarrow> ((errno + unit) \<times> sfs_fs) option" where
  "sfs_remove km new d name sfs = do {
     (result, sfs) \<leftarrow> sfs_lookonce km new d name sfs;
     case result of Inl err \<Rightarrow> Some (Inl err, sfs) | Inr (victim, slot) \<Rightarrow> do {
       (result, sfs) \<leftarrow> on_vnode d (\<lambda>sfs dv. sfs_dir_unlink sfs dv slot) sfs;
       sfs \<leftarrow> (case result of Inr _ \<Rightarrow> drop_linkcount victim sfs | Inl _ \<Rightarrow> Some sfs);
       sfs \<leftarrow> vop_decref victim sfs;
       Some (result, sfs)
     }
   }"

text \<open>The recovery at \<^verbatim>\<open>puke_harder\<close> panics when the new entry cannot be erased.\<close>
definition sfs_rename :: "kmalloc_oracle \<Rightarrow> nat \<Rightarrow> nat \<Rightarrow> u8 list \<Rightarrow> nat \<Rightarrow> u8 list \<Rightarrow> sfs_fs \<Rightarrow> ((errno + unit) \<times> sfs_fs) option" where
  "sfs_rename km new d1 n1 d2 n2 sfs = do {
     kassert (d1 = d2);
     sv \<leftarrow> sfs_heap sfs d1;
     kassert (sv_ino sv = SFS_ROOT_LOCATION);
     (result, sfs) \<leftarrow> sfs_lookonce km new d1 n1 sfs;
     case result of Inl err \<Rightarrow> Some (Inl err, sfs) | Inr (g1, slot1) \<Rightarrow> do {
       gv \<leftarrow> sfs_heap sfs g1;
       kassert (sfi_type (sv_i gv) = SFS_TYPE_FILE);
       (result, sfs) \<leftarrow> on_vnode d1 (\<lambda>sfs dv. sfs_dir_link sfs dv n2 (sv_ino gv)) sfs;
       case result of
         Inl err \<Rightarrow> do {
           sfs \<leftarrow> vop_decref g1 sfs;
           Some (Inl err, sfs)
         }
       | Inr slot2 \<Rightarrow> do {
           sfs \<leftarrow> set_linkcount (\<lambda>n. n + 1) g1 sfs;
           (result, sfs) \<leftarrow> on_vnode d1 (\<lambda>sfs dv. sfs_dir_unlink sfs dv slot1) sfs;
           case result of
             Inr _ \<Rightarrow> do {
               sfs \<leftarrow> drop_linkcount g1 sfs;
               sfs \<leftarrow> vop_decref g1 sfs;
               Some (Inr (), sfs)
             }
           | Inl err \<Rightarrow> do {
               (result2, sfs) \<leftarrow> on_vnode d1 (\<lambda>sfs dv. sfs_dir_unlink sfs dv slot2) sfs;
               kassert (result2 = Inr ());
               gv \<leftarrow> sfs_heap sfs g1;
               let sfs = put_vnode g1 (gv\<lparr>sv_i := (sv_i gv)\<lparr>sfi_linkcount := sfi_linkcount (sv_i gv) - 1\<rparr>\<rparr>) sfs;
               sfs \<leftarrow> vop_decref g1 sfs;
               Some (Inl err, sfs)
             }
         }
     }
   }"

text \<open>\<^verbatim>\<open>sfs_lookparent\<close> copies the path to the buffer: the result is the vnode and the copied name.\<close>
definition sfs_lookparent :: "nat \<Rightarrow> u8 list \<Rightarrow> u32 \<Rightarrow> sfs_fs \<Rightarrow> ((errno + nat \<times> u8 list) \<times> sfs_fs) option" where
  "sfs_lookparent p path buflen sfs = do {
     sv \<leftarrow> sfs_heap sfs p;
     if sfi_type (sv_i sv) \<noteq> SFS_TYPE_DIR then Some (Inl ENOTDIR, sfs)
     else if of_nat (length path) + 1 > buflen then Some (Inl ENAMETOOLONG, sfs)
     else do {
       sfs \<leftarrow> vnode_incref p sfs;
       Some (Inr (p, path), sfs)
     }
   }"

definition sfs_lookup :: "kmalloc_oracle \<Rightarrow> nat \<Rightarrow> nat \<Rightarrow> u8 list \<Rightarrow> sfs_fs \<Rightarrow> ((errno + nat) \<times> sfs_fs) option" where
  "sfs_lookup km new d path sfs = do {
     sv \<leftarrow> sfs_heap sfs d;
     if sfi_type (sv_i sv) \<noteq> SFS_TYPE_DIR then Some (Inl ENOTDIR, sfs)
     else do {
       (result, sfs) \<leftarrow> sfs_lookonce km new d path sfs;
       Some (map_sum id fst result, sfs)
     }
   }"

end
