(* ===== verification/Sfs_Volume.thy ===== *)
theory Sfs_Volume
  imports Sfs_Vnode
begin

text \<open>
  An SFS volume as a whole. The abstract state is a map from names to inode numbers and a map
  from inode numbers to the bytes of the files; \<open>fs_inv\<close> is the invariant that ties them to
  the vnode table, the inodes and the blocks: each file owns its blocks alone, the vnodes in
  memory and the inodes on disk agree unless the vnode is dirty, and link counts are the numbers of names. The
  vnode operations that change names are shown to act on the abstract state as their names say.
\<close>

section \<open>The invariant of a volume\<close>

text \<open>The vnodes in memory, and their inode numbers.\<close>
definition vlist :: "sfs_fs \<Rightarrow> nat list" where
  "vlist sfs = map cell_val (arr_list (sfs_vnodes sfs))"

definition ino_at :: "sfs_fs \<Rightarrow> nat \<Rightarrow> u32" where
  "ino_at sfs p = sv_ino (the (sfs_heap sfs p))"

definition loaded :: "sfs_fs \<Rightarrow> u32 set" where
  "loaded sfs = ino_at sfs ` set (vlist sfs)"

text \<open>
  \<open>im\<close> gives the current inode of each inode number in use: the one in memory if it is loaded.
\<close>
definition vn_ok :: "sfs_fs \<Rightarrow> (u32 \<Rightarrow> sfs_inode option) \<Rightarrow> sfs_vnode \<Rightarrow> bool" where
  "vn_ok sfs im sv \<longleftrightarrow> im (sv_ino sv) = Some (sv_i sv) \<and> sv_refcount sv > 0 \<and> sv_opencount sv \<ge> 0 \<and> sv_opencount sv \<le> sv_refcount sv
     \<and> load_ops (sv_i sv) = Some (sv_ops sv) \<and> (sv_dirty sv \<or> sdisk sfs ! unat (sv_ino sv) = inode_bytes (sv_i sv))"

definition vtable :: "sfs_fs \<Rightarrow> (u32 \<Rightarrow> sfs_inode option) \<Rightarrow> bool" where
  "vtable sfs im \<longleftrightarrow> ka.holds (sfs_vnodes sfs) (vlist sfs) \<and> distinct (vlist sfs) \<and> inj_on (ino_at sfs) (set (vlist sfs))
     \<and> (\<forall>p\<in>set (vlist sfs). \<exists>sv. sfs_heap sfs p = Some sv \<and> vn_ok sfs im sv)
     \<and> (\<forall>ino i. im ino = Some i \<and> ino \<notin> loaded sfs \<longrightarrow> sdisk sfs ! unat ino = inode_bytes i)"

text \<open>The blocks of a file with its inode.\<close>
definition own :: "u8 list list \<Rightarrow> u32 \<Rightarrow> sfs_inode \<Rightarrow> nat set" where
  "own d ino i = insert (unat ino) (fblocks d i)"

definition blocks_ok :: "sfs_fs \<Rightarrow> (u32 \<Rightarrow> sfs_inode option) \<Rightarrow> bool" where
  "blocks_ok sfs im \<longleftrightarrow>
     (\<forall>ino i. im ino = Some i \<longrightarrow> ino \<noteq> 0 \<and> unat ino \<in> slive sfs \<and> unat ino \<notin> fblocks (sdisk sfs) i
       \<and> finv (sdisk sfs) (slive sfs) i)
     \<and> (\<forall>ino i ino' i'. im ino = Some i \<and> im ino' = Some i' \<and> ino \<noteq> ino' \<longrightarrow>
       own (sdisk sfs) ino i \<inter> own (sdisk sfs) ino' i' = {})"

definition volume :: "sfs_fs \<Rightarrow> (u32 \<Rightarrow> sfs_inode option) \<Rightarrow> bool" where
  "volume sfs im \<longleftrightarrow> sinv sfs \<and> blocks_ok sfs im \<and> vtable sfs im"

text \<open>The abstract state: the names in the root directory and the bytes of the files.\<close>
definition dlist :: "sfs_fs \<Rightarrow> nat \<Rightarrow> sfs_dir list" where
  "dlist sfs d = dents sfs (the (sfs_heap sfs d))"

definition names_of :: "sfs_fs \<Rightarrow> nat \<Rightarrow> u8 list \<Rightarrow> u32 option" where
  "names_of sfs d = dmap (dlist sfs d)"

definition slot_at :: "sfs_fs \<Rightarrow> nat \<Rightarrow> u8 list \<Rightarrow> int \<Rightarrow> bool" where
  "slot_at sfs d n slot \<longleftrightarrow> (\<exists>k<length (dlist sfs d). slot = int k \<and> matches n (dlist sfs d ! k))"

definition bytes_of :: "sfs_fs \<Rightarrow> sfs_inode \<Rightarrow> u8 list" where
  "bytes_of sfs i = take (unat (sfi_size i)) (fimage (sdisk sfs) i)"

definition data_of :: "sfs_fs \<Rightarrow> (u32 \<Rightarrow> sfs_inode option) \<Rightarrow> u32 \<Rightarrow> u8 list option" where
  "data_of sfs im ino = (if ino = 1 then None else map_option (bytes_of sfs) (im ino))"

definition root_ok :: "sfs_fs \<Rightarrow> nat \<Rightarrow> bool" where
  "root_ok sfs d \<longleftrightarrow> d \<in> set (vlist sfs) \<and> (\<exists>rv. sfs_heap sfs d = Some rv \<and> sv_ino rv = 1 \<and> dinv sfs rv)"

definition links_ok :: "(u8 list \<Rightarrow> u32 option) \<Rightarrow> (u32 \<Rightarrow> sfs_inode option) \<Rightarrow> u32 set \<Rightarrow> bool" where
  "links_ok names im L \<longleftrightarrow> (\<forall>n ino. names n = Some ino \<longrightarrow> ino \<noteq> 1 \<and> im ino \<noteq> None)
     \<and> (\<forall>ino i. im ino = Some i \<and> ino \<noteq> 1 \<longrightarrow> sfi_type i = 1 \<and> unat (sfi_linkcount i) = card {n. names n = Some ino}
       \<and> (sfi_linkcount i = 0 \<longrightarrow> ino \<in> L))"

definition fs_inv :: "nat \<Rightarrow> sfs_fs \<Rightarrow> (u32 \<Rightarrow> sfs_inode option) \<Rightarrow> bool" where
  "fs_inv d sfs im \<longleftrightarrow> volume sfs im \<and> root_ok sfs d \<and> links_ok (names_of sfs d) im (loaded sfs)"

section \<open>Changes to one vnode\<close>

lemma put_vnode_simps [simp]:
  "sfs_device (put_vnode p sv sfs) = sfs_device sfs" "sfs_super (put_vnode p sv sfs) = sfs_super sfs"
  "sfs_freemap (put_vnode p sv sfs) = sfs_freemap sfs" "sfs_vnodes (put_vnode p sv sfs) = sfs_vnodes sfs"
  "sfs_heap (put_vnode p sv sfs) = (sfs_heap sfs)(p \<mapsto> sv)" "slive (put_vnode p sv sfs) = slive sfs"
  "sinv (put_vnode p sv sfs) = sinv sfs" "vlist (put_vnode p sv sfs) = vlist sfs"
  by (simp_all add: put_vnode_def slive_def sinv_def vlist_def)

text \<open>A file keeps its contents when its blocks do.\<close>
lemma finv_frame:
  assumes i: "finv d live i" and same: "\<And>b. b \<in> fblocks d i \<Longrightarrow> d' ! b = d ! b" and live: "fblocks d i \<subseteq> live'"
  shows "fblocks d' i = fblocks d i" "finv d' live' i" "fimage d' i = fimage d i"
proof -
  have ib: "d' ! unat (sfi_indirect i) = d ! unat (sfi_indirect i)" if "sfi_indirect i \<noteq> 0"
    using that by (intro same) (auto simp: fblocks_def)
  have m: "fmap d' i k = fmap d i k" for k using ib by (simp add: fmap_def)
  show fb: "fblocks d' i = fblocks d i" by (simp add: fblocks_def m)
  then have "fblocks d' i \<subseteq> live'" using live by simp
  then show "finv d' live' i" using i unfolding finv_def m by blast
  show "fimage d' i = fimage d i"
  proof (rule fimage_cong)
    fix k :: nat
    assume "k < 143"
    then have "unat (fmap d i k) \<in> fblocks d i" if "fmap d i k \<noteq> 0" using that by (auto simp: fblocks_def)
    then show "fblk d' i k = fblk d i k" using same by (simp add: fblk_def m)
  qed
qed

text \<open>
  The vnode at \<open>p\<close> changes from \<open>sv\<close> to \<open>sv'\<close>. On disk only its own blocks and its inode may
  change; it may free its blocks and gain free ones.
\<close>
definition vupd :: "nat \<Rightarrow> sfs_fs \<Rightarrow> sfs_vnode \<Rightarrow> sfs_fs \<Rightarrow> sfs_vnode \<Rightarrow> bool" where
  "vupd p sfs sv s' sv' \<longleftrightarrow> sinv s' \<and> sfs_vnodes s' = sfs_vnodes sfs \<and> sfs_heap s' = (sfs_heap sfs)(p \<mapsto> sv')
     \<and> sv_ino sv' = sv_ino sv \<and> sv_refcount sv' > 0 \<and> sv_opencount sv' \<ge> 0 \<and> sv_opencount sv' \<le> sv_refcount sv' \<and> load_ops (sv_i sv') = Some (sv_ops sv')
     \<and> finv (sdisk s') (slive s') (sv_i sv')
     \<and> slive sfs - fblocks (sdisk sfs) (sv_i sv) \<subseteq> slive s'
     \<and> fblocks (sdisk s') (sv_i sv') \<subseteq> fblocks (sdisk sfs) (sv_i sv) \<union> (slive s' - slive sfs)
     \<and> (\<forall>b\<in>slive sfs - fblocks (sdisk sfs) (sv_i sv) - {unat (sv_ino sv)}. sdisk s' ! b = sdisk sfs ! b)
     \<and> (sv_dirty sv' \<or> sdisk s' ! unat (sv_ino sv) = inode_bytes (sv_i sv'))"

lemma volume_inode:
  assumes "volume sfs im" "im ino = Some i"
  shows "ino \<noteq> 0" "unat ino \<in> slive sfs" "unat ino \<notin> fblocks (sdisk sfs) i" "finv (sdisk sfs) (slive sfs) i"
  using assms by (simp_all add: volume_def blocks_ok_def)

lemma volume_vnode:
  assumes "volume sfs im" "p \<in> set (vlist sfs)"
  obtains sv where "sfs_heap sfs p = Some sv" "vn_ok sfs im sv" "im (sv_ino sv) = Some (sv_i sv)" "finv (sdisk sfs) (slive sfs) (sv_i sv)"
    "unat (sv_ino sv) \<in> slive sfs" "unat (sv_ino sv) \<notin> fblocks (sdisk sfs) (sv_i sv)" "sv_ino sv \<noteq> 0"
proof -
  from assms obtain sv where sv: "sfs_heap sfs p = Some sv" "vn_ok sfs im sv" by (auto simp: volume_def vtable_def)
  then have "im (sv_ino sv) = Some (sv_i sv)" by (simp add: vn_ok_def)
  with sv volume_inode [OF assms(1) this] show thesis by (intro that)
qed

text \<open>The blocks of other files.\<close>
lemma other_blocks:
  assumes "volume sfs im" "im ino = Some i" "im ino' = Some i'" "ino \<noteq> ino'"
  shows "own (sdisk sfs) ino' i' \<subseteq> slive sfs - own (sdisk sfs) ino i"
proof -
  have "own (sdisk sfs) ino i \<inter> own (sdisk sfs) ino' i' = {}" using assms by (simp add: volume_def blocks_ok_def)
  moreover have "own (sdisk sfs) ino' i' \<subseteq> slive sfs"
    using volume_inode [OF assms(1,3)] by (simp add: own_def finv_def)
  ultimately show ?thesis by blast
qed

lemma vupd_other:
  assumes v: "volume sfs im" and sv: "im (sv_ino sv) = Some (sv_i sv)" and u: "vupd p sfs sv s' sv'"
    and i: "im ino = Some i" "ino \<noteq> sv_ino sv"
  shows "fblocks (sdisk s') i = fblocks (sdisk sfs) i" "finv (sdisk s') (slive s') i" "fimage (sdisk s') i = fimage (sdisk sfs) i"
    "sdisk s' ! unat ino = sdisk sfs ! unat ino" "own (sdisk sfs) ino i \<subseteq> slive s'"
proof -
  note o = other_blocks [OF v sv i(1) i(2) [symmetric]]
  have fi: "finv (sdisk sfs) (slive sfs) i" using volume_inode [OF v i(1)] by simp
  have fb: "fblocks (sdisk sfs) i \<subseteq> slive sfs - fblocks (sdisk sfs) (sv_i sv) - {unat (sv_ino sv)}"
    "unat ino \<in> slive sfs - fblocks (sdisk sfs) (sv_i sv) - {unat (sv_ino sv)}" using o by (auto simp: own_def)
  have live: "fblocks (sdisk sfs) i \<subseteq> slive s'" and same: "\<And>b. b \<in> fblocks (sdisk sfs) i \<Longrightarrow> sdisk s' ! b = sdisk sfs ! b"
    using u fb(1) unfolding vupd_def by blast+
  show "fblocks (sdisk s') i = fblocks (sdisk sfs) i" "finv (sdisk s') (slive s') i" "fimage (sdisk s') i = fimage (sdisk sfs) i"
    using finv_frame [OF fi same live] by auto
  show "sdisk s' ! unat ino = sdisk sfs ! unat ino" "own (sdisk sfs) ino i \<subseteq> slive s'"
    using u fb unfolding vupd_def own_def by blast+
qed

lemma loaded_upd: "p \<in> set (vlist sfs) \<Longrightarrow> sfs_heap sfs p = Some sv \<Longrightarrow> vupd p sfs sv s' sv' \<Longrightarrow>
    vlist s' = vlist sfs \<and> ino_at s' = ino_at sfs \<and> loaded s' = loaded sfs"
proof -
  assume a: "p \<in> set (vlist sfs)" "sfs_heap sfs p = Some sv" "vupd p sfs sv s' sv'"
  then have "vlist s' = vlist sfs" by (simp add: vupd_def vlist_def)
  moreover have "ino_at s' = ino_at sfs" using a by (auto simp: vupd_def ino_at_def)
  ultimately show ?thesis by (simp add: loaded_def)
qed

lemma disjoint_gain: "A \<subseteq> S - insert n F \<Longrightarrow> N \<subseteq> F \<union> (S' - S) \<Longrightarrow> A \<inter> insert n N = {}"
  by blast

lemma volume_upd:
  assumes v: "volume sfs im" and p: "p \<in> set (vlist sfs)" "sfs_heap sfs p = Some sv" and u: "vupd p sfs sv s' sv'"
  shows "volume s' (im(sv_ino sv \<mapsto> sv_i sv'))"
proof -
  let ?im = "im(sv_ino sv \<mapsto> sv_i sv')" and ?n = "sv_ino sv"
  from volume_vnode [OF v p(1)] p(2) have sv: "im ?n = Some (sv_i sv)" "finv (sdisk sfs) (slive sfs) (sv_i sv)"
    "unat ?n \<in> slive sfs" "unat ?n \<notin> fblocks (sdisk sfs) (sv_i sv)" "?n \<noteq> 0" by auto
  note o = vupd_other [OF v sv(1) u] and L = loaded_upd [OF p u]
  have new: "fblocks (sdisk s') (sv_i sv') \<subseteq> fblocks (sdisk sfs) (sv_i sv) \<union> (slive s' - slive sfs)"
    "unat ?n \<in> slive s'" "unat ?n \<notin> fblocks (sdisk s') (sv_i sv')" "finv (sdisk s') (slive s') (sv_i sv')"
    using u sv(3,4) unfolding vupd_def by blast+
  have ownS: "own (sdisk s') ino i = own (sdisk sfs) ino i" "own (sdisk s') ino i \<inter> own (sdisk s') ?n (sv_i sv') = {}"
    if "im ino = Some i" "ino \<noteq> ?n" for ino i
  proof -
    show e: "own (sdisk s') ino i = own (sdisk sfs) ino i" using o(1) [OF that] by (simp add: own_def)
    have "own (sdisk sfs) ino i \<subseteq> slive sfs - own (sdisk sfs) ?n (sv_i sv)" using other_blocks [OF v sv(1) that(1)] that(2) by blast
    then show "own (sdisk s') ino i \<inter> own (sdisk s') ?n (sv_i sv') = {}"
      unfolding e unfolding own_def by (rule disjoint_gain [OF _ new(1)])
  qed
  have "blocks_ok s' ?im"
    unfolding blocks_ok_def
  proof (intro conjI allI impI)
    fix ino i assume "?im ino = Some i"
    then consider (upd) "ino = ?n" "i = sv_i sv'" | (other) "im ino = Some i" "ino \<noteq> ?n" by (cases "ino = ?n") simp_all
    then have "ino \<noteq> 0 \<and> unat ino \<in> slive s' \<and> unat ino \<notin> fblocks (sdisk s') i \<and> finv (sdisk s') (slive s') i"
    proof cases
      case upd
      then show ?thesis using sv(5) new by simp
    next
      case other
      have "unat ino \<in> slive s'" using o(5) [OF other] by (simp add: own_def)
      then show ?thesis using o(1,2) [OF other] volume_inode [OF v other(1)] by simp
    qed
    then show "ino \<noteq> 0" "unat ino \<in> slive s'" "unat ino \<notin> fblocks (sdisk s') i" "finv (sdisk s') (slive s') i" by blast+
  next
    fix ino i ino' i' assume a: "?im ino = Some i \<and> ?im ino' = Some i' \<and> ino \<noteq> ino'"
    show "own (sdisk s') ino i \<inter> own (sdisk s') ino' i' = {}"
    proof (cases "ino = ?n \<or> ino' = ?n")
      case True
      then show ?thesis using a ownS(2) by (auto simp: Int_commute split: if_splits)
    next
      case False
      then have b: "im ino = Some i" "im ino' = Some i'" "ino \<noteq> ?n" "ino' \<noteq> ?n" "ino \<noteq> ino'" using a by auto
      then have "own (sdisk sfs) ino i \<inter> own (sdisk sfs) ino' i' = {}" using v by (simp add: volume_def blocks_ok_def)
      then show ?thesis unfolding ownS(1) [OF b(1,3)] ownS(1) [OF b(2,4)] .
    qed
  qed
  moreover have "vtable s' ?im"
    unfolding vtable_def
  proof (intro conjI allI impI ballI)
    show "ka.holds (sfs_vnodes s') (vlist s')" "distinct (vlist s')" "inj_on (ino_at s') (set (vlist s'))"
      using v u L unfolding volume_def vtable_def vupd_def by auto
  next
    fix q assume q: "q \<in> set (vlist s')"
    show "\<exists>sv. sfs_heap s' q = Some sv \<and> vn_ok s' ?im sv"
    proof (cases "q = p")
      case True
      then show ?thesis using u by (auto simp: vupd_def vn_ok_def)
    next
      case False
      from volume_vnode [OF v, of q] q L obtain w where w: "sfs_heap sfs q = Some w" "vn_ok sfs im w" by auto
      have "ino_at sfs q \<noteq> ino_at sfs p" using v p(1) q L False unfolding volume_def vtable_def by (auto dest: inj_onD)
      then have ne: "sv_ino w \<noteq> ?n" using w p(2) by (simp add: ino_at_def)
      then have "sdisk s' ! unat (sv_ino w) = sdisk sfs ! unat (sv_ino w)" using o(4) [of "sv_ino w" "sv_i w"] w(2) by (simp add: vn_ok_def)
      then show ?thesis using u w ne False by (auto simp: vupd_def vn_ok_def)
    qed
  next
    fix ino i assume a: "?im ino = Some i \<and> ino \<notin> loaded s'"
    have "?n \<in> loaded sfs" using p unfolding loaded_def ino_at_def by (intro image_eqI [of _ _ p]) simp_all
    then have b: "im ino = Some i" "ino \<noteq> ?n" "ino \<notin> loaded sfs" using a L by (auto split: if_splits)
    then have "sdisk sfs ! unat ino = inode_bytes i" using v unfolding volume_def vtable_def by blast
    then show "sdisk s' ! unat ino = inode_bytes i" using o(4) [OF b(1,2)] by simp
  qed
  ultimately show ?thesis using u by (simp add: volume_def vupd_def)
qed

text \<open>The other files keep their bytes, and the file its own if its image and size are the same.\<close>
lemma data_upd:
  assumes v: "volume sfs im" and p: "p \<in> set (vlist sfs)" "sfs_heap sfs p = Some sv" and u: "vupd p sfs sv s' sv'"
  shows "ino \<noteq> sv_ino sv \<Longrightarrow> data_of s' (im(sv_ino sv \<mapsto> sv_i sv')) ino = data_of sfs im ino"
    "sv_ino sv = 1 \<or> bytes_of s' (sv_i sv') = bytes_of sfs (sv_i sv) \<Longrightarrow> data_of s' (im(sv_ino sv \<mapsto> sv_i sv')) = data_of sfs im"
proof -
  from volume_vnode [OF v p(1)] p(2) have sv: "im (sv_ino sv) = Some (sv_i sv)" by auto
  show d: "data_of s' (im(sv_ino sv \<mapsto> sv_i sv')) ino = data_of sfs im ino" if "ino \<noteq> sv_ino sv" for ino
    using vupd_other(3) [OF v sv u] that by (cases "im ino") (auto simp: data_of_def bytes_of_def)
  show "data_of s' (im(sv_ino sv \<mapsto> sv_i sv')) = data_of sfs im"
    if "sv_ino sv = 1 \<or> bytes_of s' (sv_i sv') = bytes_of sfs (sv_i sv)"
  proof
    fix ino
    show "data_of s' (im(sv_ino sv \<mapsto> sv_i sv')) ino = data_of sfs im ino"
      using d that sv by (cases "ino = sv_ino sv") (auto simp: data_of_def)
  qed
qed

text \<open>A change to another vnode leaves the root directory as it is.\<close>
lemma root_upd:
  assumes v: "volume sfs im" and p: "p \<in> set (vlist sfs)" "sfs_heap sfs p = Some sv" and u: "vupd p sfs sv s' sv'"
    and d: "root_ok sfs d" "p \<noteq> d"
  shows "root_ok s' d" "dlist s' d = dlist sfs d" "sfs_heap s' d = sfs_heap sfs d"
proof -
  from d obtain rv where rv: "d \<in> set (vlist sfs)" "sfs_heap sfs d = Some rv" "sv_ino rv = 1" "dinv sfs rv" by (auto simp: root_ok_def)
  from volume_vnode [OF v p(1)] p(2) have sv: "im (sv_ino sv) = Some (sv_i sv)" by auto
  from volume_vnode [OF v rv(1)] rv(2,3) have ri: "im 1 = Some (sv_i rv)" by auto
  have "ino_at sfs p \<noteq> ino_at sfs d" using v p(1) rv(1) d(2) unfolding volume_def vtable_def by (auto dest: inj_onD)
  then have ne: "1 \<noteq> sv_ino sv" using p(2) rv by (simp add: ino_at_def)
  note o = vupd_other [OF v sv u ri ne]
  show h: "sfs_heap s' d = sfs_heap sfs d" using u d(2) by (simp add: vupd_def)
  have "dents s' rv = dents sfs rv" using o(3) by (simp add: dents_def)
  moreover have "vinv s' rv" using o(2) u by (simp add: vinv_def vupd_def)
  ultimately show "root_ok s' d" "dlist s' d = dlist sfs d"
    using rv h loaded_upd [OF p u] by (auto simp: root_ok_def dlist_def dinv_def)
qed

lemma load_ops_type: "sfi_type i' = sfi_type i \<Longrightarrow> load_ops i' = load_ops i"
  by (simp add: load_ops_def)

text \<open>Operations of the earlier theories on the file of a vnode, which may also set the size.\<close>
lemma vupd_dstep:
  assumes st: "dstep sfs sv s1 sv'" and ok: "vn_ok sfs im sv" and own: "unat (sv_ino sv) \<in> slive sfs - fblocks (sdisk sfs) (sv_i sv)"
  shows "vupd p sfs sv (put_vnode p sv' s1) sv'"
proof -
  from st obtain v where v: "fstep sfs sv s1 v" "sv' = v \<or> (\<exists>n. sv' = v\<lparr>sv_i := (sv_i v)\<lparr>sfi_size := n\<rparr>, sv_dirty := True\<rparr>)"
    by (auto simp: dstep_def)
  have f: "finv (sdisk s1) (slive s1) (sv_i sv')" "fblocks (sdisk s1) (sv_i sv') = fblocks (sdisk s1) (sv_i v)"
    "sfi_type (sv_i sv') = sfi_type (sv_i sv)" "sv_ops sv' = sv_ops sv" "sv_ino sv' = sv_ino sv"
    "sv_refcount sv' = sv_refcount sv" "sv_opencount sv' = sv_opencount sv"
    using v by (auto simp: fstep_def size_irrelevant)
  have "sdisk s1 ! unat (sv_ino sv) = sdisk sfs ! unat (sv_ino sv)" using v(1) own by (simp add: fstep_def)
  moreover have "sv_dirty sv' \<or> sv_i sv' = sv_i sv \<and> \<not> sv_dirty sv" using v by (auto simp: fstep_def)
  ultimately have "sv_dirty sv' \<or> sdisk s1 ! unat (sv_ino sv) = inode_bytes (sv_i sv')" using ok by (auto simp: vn_ok_def)
  moreover have "slive sfs \<subseteq> slive s1" using v(1) by (auto simp: fstep_def slive_def)
  ultimately show ?thesis
    using v(1) f ok load_ops_type [OF f(3)] by (auto simp: vupd_def vn_ok_def fstep_def)
qed

text \<open>Changes to the fields of a vnode.\<close>
lemma vupd_fields:
  assumes ok: "vn_ok sfs im sv" and fi: "finv (sdisk sfs) (slive sfs) (sv_i sv)" and si: "sinv sfs"
    and i: "sfi_direct (sv_i sv') = sfi_direct (sv_i sv)" "sfi_indirect (sv_i sv') = sfi_indirect (sv_i sv)" "sfi_waste (sv_i sv') = sfi_waste (sv_i sv)"
      "sfi_type (sv_i sv') = sfi_type (sv_i sv)" "sv_ops sv' = sv_ops sv" "sv_ino sv' = sv_ino sv" "sv_refcount sv' > 0"
      "sv_opencount sv' \<ge> 0" "sv_opencount sv' \<le> sv_refcount sv'" "sv_dirty sv' \<or> sv_i sv' = sv_i sv \<and> \<not> sv_dirty sv"
  shows "vupd p sfs sv (put_vnode p sv' sfs) sv'" "fimage (sdisk sfs) (sv_i sv') = fimage (sdisk sfs) (sv_i sv)"
proof -
  have m: "fmap d (sv_i sv') k = fmap d (sv_i sv) k" for d k using i by (simp add: fmap_def)
  have fb: "fblocks d (sv_i sv') = fblocks d (sv_i sv)" for d using i by (simp add: fblocks_def m)
  show "fimage (sdisk sfs) (sv_i sv') = fimage (sdisk sfs) (sv_i sv)" by (rule fimage_cong) (simp add: fblk_def m)
  have "finv (sdisk sfs) (slive sfs) (sv_i sv')" using fi unfolding finv_def m fb inode_wf_def i(1-3) by blast
  then show "vupd p sfs sv (put_vnode p sv' sfs) sv'" using ok i si load_ops_type [OF i(4)] by (auto simp: vupd_def vn_ok_def fb)
qed

text \<open>Only the device or the free map have moved on.\<close>
lemma volume_same:
  assumes v: "volume sfs im" and s': "sinv s'" "sdisk s' = sdisk sfs" "slive sfs \<subseteq> slive s'" "sfs_vnodes s' = sfs_vnodes sfs" "sfs_heap s' = sfs_heap sfs"
  shows "volume s' im" "data_of s' im = data_of sfs im" "vlist s' = vlist sfs" "loaded s' = loaded sfs" "dlist s' d = dlist sfs d"
    "root_ok sfs d \<Longrightarrow> root_ok s' d"
proof -
  show vl: "vlist s' = vlist sfs" using s'(4) by (simp add: vlist_def)
  have ia: "ino_at s' = ino_at sfs" using s'(5) by (simp add: ino_at_def fun_eq_iff)
  then show ld: "loaded s' = loaded sfs" using vl by (simp add: loaded_def)
  have fi: "finv (sdisk sfs) (slive s') i" if "finv (sdisk sfs) (slive sfs) i" for i using that s'(3) by (auto simp: finv_def)
  have "blocks_ok s' im" using v s'(3) fi unfolding volume_def blocks_ok_def s'(2) by blast
  moreover have "vtable s' im" using v unfolding volume_def vtable_def vl ia ld s'(2,4,5) vn_ok_def by simp
  ultimately show "volume s' im" using s'(1) by (simp add: volume_def)
  have "bytes_of s' = bytes_of sfs" by (simp add: bytes_of_def s'(2) fun_eq_iff)
  then show "data_of s' im = data_of sfs im" by (intro ext) (simp add: data_of_def)
  show "dlist s' d = dlist sfs d" by (simp add: dlist_def dents_def s'(2,5))
  show "root_ok s' d" if r: "root_ok sfs d"
  proof -
    from r obtain rv where rv: "d \<in> set (vlist sfs)" "sfs_heap sfs d = Some rv" "sv_ino rv = 1" "dinv sfs rv" by (auto simp: root_ok_def)
    then have "dinv s' rv" using fi s'(1,2) by (simp add: dinv_def vinv_def dents_def)
    then show ?thesis using rv vl s'(5) by (auto simp: root_ok_def)
  qed
qed

section \<open>The root directory\<close>

lemma root_vnode:
  assumes "volume sfs im" "root_ok sfs d"
  obtains rv where "d \<in> set (vlist sfs)" "sfs_heap sfs d = Some rv" "sv_ino rv = 1" "dinv sfs rv" "vn_ok sfs im rv"
    "im 1 = Some (sv_i rv)" "unat (sv_ino rv) \<in> slive sfs - fblocks (sdisk sfs) (sv_i rv)" "dlist sfs d = dents sfs rv"
proof -
  from assms(2) obtain rv where rv: "d \<in> set (vlist sfs)" "sfs_heap sfs d = Some rv" "sv_ino rv = 1" "dinv sfs rv"
    by (auto simp: root_ok_def)
  from volume_vnode [OF assms(1) rv(1)] rv(2,3) show thesis by (intro that [OF rv]) (auto simp: dlist_def)
qed

text \<open>Nothing of the abstract state and of the vnodes has changed.\<close>
definition quiet :: "nat \<Rightarrow> sfs_fs \<Rightarrow> (u32 \<Rightarrow> sfs_inode option) \<Rightarrow> sfs_fs \<Rightarrow> bool" where
  "quiet d sfs im s' \<longleftrightarrow> volume s' im \<and> root_ok s' d \<and> data_of s' im = data_of sfs im \<and> dlist s' d = dlist sfs d
     \<and> sfs_heap s' = sfs_heap sfs \<and> sfs_vnodes s' = sfs_vnodes sfs"

lemma quiet_loaded: "quiet d sfs im s' \<Longrightarrow> loaded s' = loaded sfs \<and> vlist s' = vlist sfs \<and> names_of s' d = names_of sfs d"
  by (simp add: quiet_def loaded_def vlist_def ino_at_def names_of_def)

lemma quiet_same:
  assumes "volume sfs im" "root_ok sfs d" "sinv s'" "sdisk s' = sdisk sfs" "slive sfs \<subseteq> slive s'" "sfs_vnodes s' = sfs_vnodes sfs"
    "sfs_heap s' = sfs_heap sfs"
  shows "quiet d sfs im s'"
  using volume_same [OF assms(1,3-7)] assms(2,6,7) by (simp add: quiet_def)

definition find_in :: "nat \<Rightarrow> u8 list \<Rightarrow> sfs_fs \<Rightarrow> ((errno + u32 \<times> int) \<times> sfs_fs) option" where
  "find_in d name sfs = on_vnode d (\<lambda>sfs sv. map_option (\<lambda>(r, _, s). (r, s)) (sfs_dir_findname sfs sv name)) sfs"

lemma find_in_ok:
  assumes v: "volume sfs im" and d: "root_ok sfs d"
  shows "\<exists>r s1. find_in d name sfs = Some (r, s1) \<and> quiet d sfs im s1
    \<and> (case names_of sfs d name of None \<Rightarrow> r = Inl ENOENT | Some ino \<Rightarrow> \<exists>slot. r = Inr (ino, slot) \<and> slot_at s1 d name slot)"
proof -
  from root_vnode [OF v d] obtain rv where rv: "sfs_heap sfs d = Some rv" "dinv sfs rv" "dlist sfs d = dents sfs rv" by blast
  have u: "names_unique (dents sfs rv)" using rv(2) by (simp add: dinv_def)
  from sfs_dir_findname_ok [OF rv(2), of name] obtain r empt s1 where
    f: "sfs_dir_findname sfs rv name = Some (r, empt, s1, rv)" "fstep sfs rv s1 rv" "sdisk s1 = sdisk sfs"
      "case r of
         Inr (ino, slot) \<Rightarrow> \<exists>k<dslots rv. slot = int k \<and> matches name (dents sfs rv ! k) \<and> ino = sfd_ino (dents sfs rv ! k)
       | Inl e \<Rightarrow> e = ENOENT \<and> (\<forall>k<dslots rv. \<not> matches name (dents sfs rv ! k))" by blast
  have h: "sfs_heap s1 = sfs_heap sfs" using f(2) by (simp add: fstep_def)
  then have p: "put_vnode d rv s1 = s1" using rv(1) by (simp add: put_vnode_def fun_upd_idem)
  have "slive sfs \<subseteq> slive s1" using f(2) by (auto simp: fstep_def slive_def)
  then have q: "quiet d sfs im s1" using f(2,3) h by (intro quiet_same [OF v d]) (simp_all add: fstep_def)
  then have dl: "dlist s1 d = dents sfs rv" using rv(3) by (simp add: quiet_def)
  have "find_in d name sfs = Some (r, s1)" using f(1) rv(1) p by (simp add: find_in_def on_vnode_def)
  moreover have "case names_of sfs d name of None \<Rightarrow> r = Inl ENOENT | Some ino \<Rightarrow> \<exists>slot. r = Inr (ino, slot) \<and> slot_at s1 d name slot"
  proof (cases r)
    case (Inl e)
    then have "names_of sfs d name = None" using f(4) dmap_none_iff [OF u] rv(3) by (simp add: names_of_def)
    then show ?thesis using Inl f(4) by simp
  next
    case (Inr x)
    then obtain ino k where x: "x = (ino, int k)" "k < dslots rv" "matches name (dents sfs rv ! k)" "ino = sfd_ino (dents sfs rv ! k)"
      using f(4) by (cases x) auto
    then have "names_of sfs d name = Some ino" using dmap_iff [OF u] rv(3) by (auto simp: names_of_def)
    then show ?thesis using Inr x dl by (auto simp: slot_at_def)
  qed
  ultimately show ?thesis using q by blast
qed

text \<open>A write to the root directory: only its own vnode changes.\<close>
definition rootstep :: "nat \<Rightarrow> sfs_fs \<Rightarrow> (u32 \<Rightarrow> sfs_inode option) \<Rightarrow> sfs_fs \<Rightarrow> (u32 \<Rightarrow> sfs_inode option) \<Rightarrow> bool" where
  "rootstep d sfs im s' im' \<longleftrightarrow> volume s' im' \<and> root_ok s' d \<and> data_of s' im' = data_of sfs im
     \<and> (\<exists>i. im' = im(1 \<mapsto> i)) \<and> (\<exists>rv'. sfs_heap s' = (sfs_heap sfs)(d \<mapsto> rv')) \<and> sfs_vnodes s' = sfs_vnodes sfs \<and> loaded s' = loaded sfs"

lemma rootstep_ok:
  assumes v: "volume sfs im" and d: "root_ok sfs d" and h: "sfs_heap sfs d = Some rv" and st: "dstep sfs rv s1 rv'" and di: "dinv s1 rv'"
  shows "rootstep d sfs im (put_vnode d rv' s1) (im(1 \<mapsto> sv_i rv'))" "dlist (put_vnode d rv' s1) d = dents s1 rv'"
proof -
  have rv: "d \<in> set (vlist sfs)" "sv_ino rv = 1" "vn_ok sfs im rv"
    "unat (sv_ino rv) \<in> slive sfs - fblocks (sdisk sfs) (sv_i rv)"
    by (rule root_vnode [OF v d]; use h in simp)+
  let ?s = "put_vnode d rv' s1"
  have u: "vupd d sfs rv ?s rv'" by (rule vupd_dstep [OF st rv(3,4)])
  have "volume ?s (im(1 \<mapsto> sv_i rv'))" using volume_upd [OF v rv(1) h u] rv(2) by simp
  moreover have "data_of ?s (im(1 \<mapsto> sv_i rv')) = data_of sfs im" using data_upd(2) [OF v rv(1) h u] rv(2) by simp
  moreover have eq: "dents ?s rv' = dents s1 rv'" by (simp add: dents_def)
  then have "dinv ?s rv'" using di by (simp add: dinv_def vinv_def)
  then have "root_ok ?s d" using rv loaded_upd [OF rv(1) h u] u by (auto simp: root_ok_def vupd_def)
  ultimately show "rootstep d sfs im ?s (im(1 \<mapsto> sv_i rv'))"
    using u loaded_upd [OF rv(1) h u] unfolding rootstep_def vupd_def by blast
  show "dlist ?s d = dents s1 rv'" using eq by (simp add: dlist_def)
qed

lemma link_in_ok:
  assumes v: "volume sfs im" and d: "root_ok sfs d" and n: "0 \<notin> set name" "ino \<noteq> 0"
  shows "\<exists>r s1 im1. on_vnode d (\<lambda>sfs dv. sfs_dir_link sfs dv name ino) sfs = Some (r, s1) \<and> rootstep d sfs im s1 im1
    \<and> (case r of
         Inr slot \<Rightarrow> names_of sfs d name = None \<and> names_of s1 d = (names_of sfs d)(name \<mapsto> ino) \<and> slot_at s1 d name slot
           \<and> slots_kept (dlist sfs d) (dlist s1 d)
       | Inl e \<Rightarrow> dlist s1 d = dlist sfs d \<and> (e = EEXIST \<longleftrightarrow> names_of sfs d name \<noteq> None) \<and> e \<in> {EEXIST, ENAMETOOLONG, EINVAL, ENOSPC})"
proof -
  from root_vnode [OF v d] obtain rv where rv: "sfs_heap sfs d = Some rv" "dinv sfs rv" "dlist sfs d = dents sfs rv" by blast
  from sfs_dir_link_ok [OF rv(2) n] obtain r s1 rv' where
    l: "sfs_dir_link sfs rv name ino = Some (r, s1, rv')" "dinv s1 rv'" "dstep sfs rv s1 rv'"
      "case r of
         Inr slot \<Rightarrow> dmap (dents sfs rv) name = None \<and> length name < 60
           \<and> dmap (dents s1 rv') = (dmap (dents sfs rv))(name \<mapsto> ino)
           \<and> (\<exists>k<dslots rv'. slot = int k \<and> matches name (dents s1 rv' ! k)) \<and> slots_kept (dents sfs rv) (dents s1 rv')
       | Inl e \<Rightarrow> dents s1 rv' = dents sfs rv
           \<and> (e = EEXIST \<and> dmap (dents sfs rv) name \<noteq> None
             \<or> e = ENAMETOOLONG \<and> dmap (dents sfs rv) name = None \<and> 60 \<le> length name
             \<or> e \<in> {EINVAL, ENOSPC} \<and> dmap (dents sfs rv) name = None \<and> length name < 60
               \<and> (dslots rv = 1144 \<or> sused s1 = {..<unat (bm_nbits (sfs_freemap s1))}))" by (elim exE conjE) (rule that)
  note st = rootstep_ok [OF v d rv(1) l(3,2)]
  have "on_vnode d (\<lambda>sfs dv. sfs_dir_link sfs dv name ino) sfs = Some (r, put_vnode d rv' s1)" using l(1) rv(1) by (simp add: on_vnode_def)
  moreover have "case r of
         Inr slot \<Rightarrow> names_of sfs d name = None \<and> names_of (put_vnode d rv' s1) d = (names_of sfs d)(name \<mapsto> ino) \<and> slot_at (put_vnode d rv' s1) d name slot
           \<and> slots_kept (dlist sfs d) (dlist (put_vnode d rv' s1) d)
       | Inl e \<Rightarrow> dlist (put_vnode d rv' s1) d = dlist sfs d \<and> (e = EEXIST \<longleftrightarrow> names_of sfs d name \<noteq> None) \<and> e \<in> {EEXIST, ENAMETOOLONG, EINVAL, ENOSPC}"
    unfolding names_of_def slot_at_def st(2) rv(3)
  proof (cases r)
    case (Inl e)
    define M where "M = dmap (dents sfs rv) name"
    have "dents s1 rv' = dents sfs rv" "e = EEXIST \<and> M \<noteq> None \<or> e = ENAMETOOLONG \<and> M = None \<or> e \<in> {EINVAL, ENOSPC} \<and> M = None"
      using l(4) unfolding Inl sum.case M_def by blast+
    then show "case r of Inr slot \<Rightarrow> dmap (dents sfs rv) name = None \<and> dmap (dents s1 rv') = (dmap (dents sfs rv))(name \<mapsto> ino)
          \<and> (\<exists>k<length (dents s1 rv'). slot = int k \<and> matches name (dents s1 rv' ! k)) \<and> slots_kept (dents sfs rv) (dents s1 rv')
      | Inl e \<Rightarrow> dents s1 rv' = dents sfs rv \<and> (e = EEXIST \<longleftrightarrow> dmap (dents sfs rv) name \<noteq> None) \<and> e \<in> {EEXIST, ENAMETOOLONG, EINVAL, ENOSPC}"
      unfolding Inl sum.case M_def [symmetric] by (cases M) auto
  next
    case (Inr slot)
    then show "case r of Inr slot \<Rightarrow> dmap (dents sfs rv) name = None \<and> dmap (dents s1 rv') = (dmap (dents sfs rv))(name \<mapsto> ino)
          \<and> (\<exists>k<length (dents s1 rv'). slot = int k \<and> matches name (dents s1 rv' ! k)) \<and> slots_kept (dents sfs rv) (dents s1 rv')
      | Inl e \<Rightarrow> dents s1 rv' = dents sfs rv \<and> (e = EEXIST \<longleftrightarrow> dmap (dents sfs rv) name \<noteq> None) \<and> e \<in> {EEXIST, ENAMETOOLONG, EINVAL, ENOSPC}"
      using l(4) by simp
  qed
  ultimately show ?thesis using st(1) by blast
qed

lemma slot_at_kept: "slot_at sfs d name slot \<Longrightarrow> slots_kept (dlist sfs d) (dlist s' d) \<Longrightarrow> slot_at s' d name slot"
  by (auto simp: slot_at_def slots_kept_def matches_def)

lemma unlink_in_ok:
  assumes v: "volume sfs im" and d: "root_ok sfs d" and sl: "slot_at sfs d name slot"
  shows "\<exists>s1 im1. on_vnode d (\<lambda>sfs dv. sfs_dir_unlink sfs dv slot) sfs = Some (Inr (), s1) \<and> rootstep d sfs im s1 im1
    \<and> names_of s1 d = (names_of sfs d)(name := None)"
proof -
  from root_vnode [OF v d] obtain rv where rv: "sfs_heap sfs d = Some rv" "dinv sfs rv" "dlist sfs d = dents sfs rv" by blast
  from sl obtain k where k: "slot = int k" "k < dslots rv" "matches name (dents sfs rv ! k)" by (auto simp: slot_at_def rv(3))
  from sfs_dir_unlink_ok [OF rv(2) k(2,3)] obtain s1 rv' where
    l: "sfs_dir_unlink sfs rv (int k) = Some (Inr (), s1, rv')" "dinv s1 rv'" "dstep sfs rv s1 rv'"
      "dmap (dents s1 rv') = (dmap (dents sfs rv))(name := None)" by (elim exE conjE) (rule that)
  note st = rootstep_ok [OF v d rv(1) l(3,2)]
  have "on_vnode d (\<lambda>sfs dv. sfs_dir_unlink sfs dv slot) sfs = Some (Inr (), put_vnode d rv' s1)" using l(1) rv(1) k(1) by (simp add: on_vnode_def)
  moreover have "names_of (put_vnode d rv' s1) d = (names_of sfs d)(name := None)"
    using l(4) unfolding names_of_def st(2) rv(3) by simp
  ultimately show ?thesis using st(1) by blast
qed

section \<open>Loading\<close>

lemma sfs_bused_ok: "sinv sfs \<Longrightarrow> unat b \<in> slive sfs \<Longrightarrow> sfs_bused sfs b = Some True"
proof -
  assume a: "sinv sfs" "unat b \<in> slive sfs"
  then have "b < bm_nbits (sfs_freemap sfs)" "b < sp_nblocks (sfs_super sfs)" "unat b \<in> sused sfs"
    by (auto simp: slive_def sinv_def word_less_nat_alt)
  then show ?thesis using bitmap_isset_ok [of "sfs_freemap sfs" b] a(1) by (auto simp: sfs_bused_def sinv_def)
qed

lemma load_search_ok:
  assumes v: "volume sfs im"
  shows "ka.holds (sfs_vnodes sfs) (pre @ ps) \<Longrightarrow> set ps \<subseteq> set (vlist sfs) \<Longrightarrow>
    load_search (length ps) sfs ino (int (length pre)) = Some (find (\<lambda>p. ino_at sfs p = ino) ps)"
proof (induction ps arbitrary: pre)
  case (Cons p ps)
  have "array_getguy (sfs_vnodes sfs) (int (length pre)) = Some p" using ka.holds_getguy [OF Cons.prems(1), of "length pre"] by simp
  moreover from volume_vnode [OF v, of p] Cons.prems(2) obtain sv where
    sv: "sfs_heap sfs p = Some sv" "unat (sv_ino sv) \<in> slive sfs" by auto
  moreover have "sfs_bused sfs (sv_ino sv) = Some True" using v sv(2) by (intro sfs_bused_ok) (simp_all add: volume_def)
  moreover have "load_search (length ps) sfs ino (int (length (pre @ [p]))) = Some (find (\<lambda>p. ino_at sfs p = ino) ps)"
    using Cons.prems by (intro Cons.IH) simp_all
  ultimately show ?case by (simp add: ino_at_def add.commute)
qed simp

text \<open>The counts are below the largest \<^verbatim>\<open>int\<close>.\<close>
definition refs_ok :: "sfs_fs \<Rightarrow> bool" where
  "refs_ok sfs \<longleftrightarrow> (\<forall>p\<in>set (vlist sfs). sv_refcount (the (sfs_heap sfs p)) < 2 ^ 31 - 1)"

text \<open>A vnode enters the table, for an inode of the volume or a new one.\<close>
lemma volume_add:
  assumes v: "volume sfs im0" and new: "sfs_heap sfs new = None" "ka.holds vs (vlist sfs @ [new])"
    and sv: "vn_ok sfs im sv" "sv_ino sv \<notin> loaded sfs" and im0: "\<forall>ino. ino \<noteq> sv_ino sv \<longrightarrow> im0 ino = im ino" and bl: "blocks_ok sfs im"
  defines "s' \<equiv> put_vnode new sv (sfs\<lparr>sfs_vnodes := vs\<rparr>)"
  shows "volume s' im" "vlist s' = vlist sfs @ [new]" "loaded s' = insert (sv_ino sv) (loaded sfs)" "data_of s' im = data_of sfs im"
    "root_ok sfs d \<Longrightarrow> root_ok s' d \<and> dlist s' d = dlist sfs d"
proof -
  have nv: "new \<notin> set (vlist sfs)" using v new(1) by (auto simp: volume_def vtable_def)
  show vl: "vlist s' = vlist sfs @ [new]" using holds_slist [OF new(2)] by (simp add: s'_def vlist_def)
  have ia: "ino_at s' p = (if p = new then sv_ino sv else ino_at sfs p)" for p by (simp add: s'_def ino_at_def)
  have im: "ino_at s' ` set (vlist sfs) = loaded sfs" unfolding loaded_def using nv by (intro image_cong) (auto simp: ia)
  then show ld: "loaded s' = insert (sv_ino sv) (loaded sfs)" using ia [of new] by (simp add: loaded_def [of s'] vl)
  have disk: "sdisk s' = sdisk sfs" "slive s' = slive sfs" "sinv s' = sinv sfs" by (simp_all add: s'_def slive_def sinv_def)
  have "inj_on (ino_at s') (set (vlist sfs))" using v nv unfolding volume_def vtable_def inj_on_def by (auto simp: ia)
  moreover have "ino_at s' new \<notin> ino_at s' ` set (vlist sfs)" using sv(2) im by (simp add: ia)
  ultimately have inj: "inj_on (ino_at s') (set (vlist s'))" using nv by (simp add: vl)
  have vn: "vn_ok s' im w = vn_ok sfs im w" for w by (simp add: vn_ok_def disk)
  have "vtable s' im"
    unfolding vtable_def
  proof (intro conjI allI impI ballI)
    show "ka.holds (sfs_vnodes s') (vlist s')" "distinct (vlist s')" "inj_on (ino_at s') (set (vlist s'))"
      using v new(2) nv vl inj unfolding volume_def vtable_def by (simp_all add: s'_def)
  next
    fix p assume "p \<in> set (vlist s')"
    then have "p = new \<or> p \<in> set (vlist sfs)" by (auto simp: vl)
    then show "\<exists>sv. sfs_heap s' p = Some sv \<and> vn_ok s' im sv"
    proof (cases "p = new")
      case False
      then have p: "p \<in> set (vlist sfs)" using \<open>p = new \<or> p \<in> set (vlist sfs)\<close> by blast
      then obtain w where w: "sfs_heap sfs p = Some w" "vn_ok sfs im0 w" using v by (auto simp: volume_def vtable_def)
      have "sv_ino w \<noteq> sv_ino sv" using w(1) p sv(2) by (force simp: loaded_def ino_at_def)
      then show ?thesis using w im0 False unfolding vn by (simp add: vn_ok_def s'_def)
    qed (use sv(1) vn in \<open>simp add: s'_def\<close>)
  next
    fix ino i assume a: "im ino = Some i \<and> ino \<notin> loaded s'"
    then have "im0 ino = Some i" using im0 ld by simp
    then show "sdisk s' ! unat ino = inode_bytes i" using a v unfolding disk volume_def vtable_def by (simp add: ld)
  qed
  moreover have "blocks_ok s' im" using bl unfolding blocks_ok_def disk by blast
  ultimately show "volume s' im" using v by (simp add: volume_def disk)
  have "bytes_of s' = bytes_of sfs" by (simp add: bytes_of_def disk fun_eq_iff)
  then show "data_of s' im = data_of sfs im" by (intro ext) (simp add: data_of_def)
  assume r: "root_ok sfs d"
  then have "d \<noteq> new" using nv by (auto simp: root_ok_def)
  then have h: "sfs_heap s' d = sfs_heap sfs d" by (simp add: s'_def)
  have "dents s' w = dents sfs w" for w by (simp add: dents_def disk)
  then show "root_ok s' d \<and> dlist s' d = dlist sfs d" using r h by (auto simp: root_ok_def dlist_def vl dinv_def vinv_def disk)
qed

text \<open>A vnode of the table with one reference more than it is open.\<close>
definition has_ref :: "sfs_fs \<Rightarrow> nat \<Rightarrow> u32 \<Rightarrow> bool" where
  "has_ref sfs p ino \<longleftrightarrow> p \<in> set (vlist sfs) \<and> (\<exists>sv. sfs_heap sfs p = Some sv \<and> sv_ino sv = ino \<and> sv_opencount sv < sv_refcount sv)"

text \<open>The abstract state is the same, in a state where other vnodes are in memory or counts have changed.\<close>
definition same_fs :: "nat \<Rightarrow> sfs_fs \<Rightarrow> (u32 \<Rightarrow> sfs_inode option) \<Rightarrow> sfs_fs \<Rightarrow> bool" where
  "same_fs d sfs im s' \<longleftrightarrow> volume s' im \<and> root_ok s' d \<and> data_of s' im = data_of sfs im \<and> dlist s' d = dlist sfs d"

lemma same_fs_trans: "same_fs d sfs im s1 \<Longrightarrow> same_fs d s1 im s2 \<Longrightarrow> same_fs d sfs im s2"
  by (simp add: same_fs_def)

lemma quiet_same_fs: "quiet d sfs im s' \<Longrightarrow> same_fs d sfs im s'"
  by (simp add: same_fs_def quiet_def)

text \<open>The count of references of any vnode, the root's among them, changes.\<close>
lemma refcount_upd:
  assumes v: "volume sfs im" and r: "root_ok sfs d" and p: "p \<in> set (vlist sfs)" "sfs_heap sfs p = Some sv"
    and n: "n > 0" "sv_opencount sv \<le> n"
  defines "s' \<equiv> put_vnode p (sv\<lparr>sv_refcount := n\<rparr>) sfs"
  shows "same_fs d sfs im s'" "vlist s' = vlist sfs" "loaded s' = loaded sfs"
proof -
  from volume_vnode [OF v p(1)] obtain w where w: "sfs_heap sfs p = Some w" "vn_ok sfs im w" "finv (sdisk sfs) (slive sfs) (sv_i w)"
    "im (sv_ino w) = Some (sv_i w)" by blast
  then have sv: "vn_ok sfs im sv" "finv (sdisk sfs) (slive sfs) (sv_i sv)" "im (sv_ino sv) = Some (sv_i sv)" using p(2) by auto
  have u: "vupd p sfs sv s' (sv\<lparr>sv_refcount := n\<rparr>)" unfolding s'_def
    by (rule vupd_fields [OF sv(1,2)]) (use v sv(1) n in \<open>auto simp: volume_def vn_ok_def\<close>)
  have eq: "im(sv_ino sv \<mapsto> sv_i sv) = im" using sv(3) by (simp add: fun_upd_idem)
  have vol: "volume s' im" using volume_upd [OF v p u] eq by simp
  have dat: "data_of s' im = data_of sfs im" using data_upd(2) [OF v p u] eq by (simp add: bytes_of_def s'_def)
  have dl: "dlist s' q = dlist sfs q" for q using p(2) by (simp add: dlist_def dents_def dslots_def s'_def)
  have "root_ok s' d"
  proof (cases "p = d")
    case True
    have "dents s' (sv\<lparr>sv_refcount := n\<rparr>) = dents sfs sv" by (simp add: dents_def dslots_def s'_def)
    then show ?thesis using r True p(2) by (auto simp: root_ok_def s'_def dinv_def vinv_def)
  next
    case False
    then show ?thesis using root_upd(1) [OF v p u r] by simp
  qed
  then show "same_fs d sfs im s'" using vol dat dl by (simp add: same_fs_def)
  show "vlist s' = vlist sfs" "loaded s' = loaded sfs" using loaded_upd [OF p u] by auto
qed

lemma loadvnode_ok:
  assumes km: "km_kseg0 km" and v: "volume sfs im" and r: "root_ok sfs d" and i: "im ino = Some i" "load_ops i = Some ops"
    and new: "sfs_heap sfs new = None" and refs: "refs_ok sfs"
  shows "\<exists>r s'. sfs_loadvnode km new ino 0 sfs = Some (r, s') \<and> same_fs d sfs im s'
    \<and> (case r of Inl e \<Rightarrow> e = ENOMEM \<and> ino \<notin> loaded sfs \<and> loaded s' = loaded sfs
       | Inr p \<Rightarrow> has_ref s' p ino \<and> loaded s' = insert ino (loaded sfs) \<and> (sv_refcount (the (sfs_heap s' p)) = 1 \<longleftrightarrow> ino \<notin> loaded sfs))"
proof -
  have h: "ka.holds (sfs_vnodes sfs) ([] @ vlist sfs)" and si: "sinv sfs" using v by (simp_all add: volume_def vtable_def)
  have n: "nat (array_getnum (sfs_vnodes sfs)) = length (vlist sfs)" using ka.holds_getnum [OF h] by simp
  have ls: "load_search (nat (array_getnum (sfs_vnodes sfs))) sfs ino 0 = Some (find (\<lambda>p. ino_at sfs p = ino) (vlist sfs))"
    using load_search_ok [OF v h, of ino] n by simp
  have self: "same_fs d sfs im sfs" using v r by (simp add: same_fs_def)
  show ?thesis
  proof (cases "find (\<lambda>p. ino_at sfs p = ino) (vlist sfs)")
    case (Some p)
    then have p: "p \<in> set (vlist sfs)" "ino_at sfs p = ino" by (auto simp: find_Some_iff)
    from volume_vnode [OF v p(1)] obtain sv where sv: "sfs_heap sfs p = Some sv" "vn_ok sfs im sv" by blast
    have b: "sv_ino sv = ino" "sv_refcount sv + 1 < 2 ^ 31" using p refs sv(1) by (auto simp: ino_at_def refs_ok_def)
    let ?s = "put_vnode p (sv\<lparr>sv_refcount := sv_refcount sv + 1\<rparr>) sfs"
    have "same_fs d sfs im ?s" "vlist ?s = vlist sfs" "loaded ?s = loaded sfs"
      by (rule refcount_upd [OF v r p(1) sv(1)]; use sv(2) in \<open>simp add: vn_ok_def\<close>)+
    moreover have "ino \<in> loaded sfs" using p by (auto simp: loaded_def)
    moreover have "sfs_loadvnode km new ino 0 sfs = Some (Inr p, ?s)" using ls Some sv(1) b(2) by (simp add: sfs_loadvnode_def vnode_incref_def)
    ultimately show ?thesis using p(1) b(1) sv(2) by (auto simp: has_ref_def vn_ok_def)
  next
    case None
    then have nl: "ino \<notin> loaded sfs" by (auto simp: find_None_iff loaded_def)
    note iv = volume_inode [OF v i(1)]
    have used: "sfs_bused sfs ino = Some True" by (rule sfs_bused_ok [OF si iv(2)])
    have "unat ino < snblocks sfs" using iv(2) by (simp add: slive_def)
    from sfs_rblock_ok [OF si this, of 0 "replicate 512 0"] obtain dev where
      dev: "lhd_inv dev" "lhd_good dev" "hd_sectors dev = sdisk sfs"
        "sfs_rblock sfs (replicate 512 0) 0 ino = Some (Inr (), patch (replicate 512 0) 0 (sdisk sfs ! unat ino), sfs\<lparr>sfs_device := dev\<rparr>)" by auto
    have wf: "inode_wf i" using iv(4) by (simp add: finv_def)
    have blk: "sdisk sfs ! unat ino = inode_bytes i" using v i(1) nl unfolding volume_def vtable_def by blast
    then have buf: "patch (replicate 512 0) 0 (sdisk sfs ! unat ino) = inode_bytes i" using inode_roundtrip(1) [OF wf] by (simp add: patch_def)
    let ?s1 = "sfs\<lparr>sfs_device := dev\<rparr>"
    have q: "quiet d sfs im ?s1" using sinv_device [OF si dev(1,2)] dev(3) by (intro quiet_same [OF v r]) (simp_all add: slive_def)
    have q1: "same_fs d sfs im ?s1" "loaded ?s1 = loaded sfs" "vlist ?s1 = vlist sfs" "volume ?s1 im" "root_ok ?s1 d"
      using quiet_same_fs [OF q] quiet_loaded [OF q] by (auto simp: same_fs_def)
    let ?sv = "\<lparr>sv_ops = ops, sv_refcount = 1, sv_opencount = 0, sv_i = i, sv_ino = ino, sv_dirty = False\<rparr>"
    have vn: "vn_ok ?s1 im ?sv" using i blk dev(3) by (simp add: vn_ok_def)
    have load: "sfs_loadvnode km new ino 0 sfs = (if \<not> km 544 then Some (Inl ENOMEM, sfs)
      else if lock_create km 15 = Inl () then Some (Inl ENOMEM, ?s1)
      else do { (result, vnodes) \<leftarrow> array_add km (sfs_vnodes sfs) new;
        case result of Inl err \<Rightarrow> Some (Inl err, ?s1\<lparr>sfs_vnodes := vnodes\<rparr>) | Inr _ \<Rightarrow> Some (Inr new, put_vnode new ?sv (?s1\<lparr>sfs_vnodes := vnodes\<rparr>)) })"
      using ls None used dev(4) buf i(2) inode_roundtrip(2) [OF wf]
      by (auto simp: sfs_loadvnode_def load_type_def vnode_init_def vnode_kill_def split: sum.splits intro!: Option.bind_cong)
    from h have h': "ka.holds (sfs_vnodes sfs) (vlist sfs)" by simp
    show ?thesis
    proof (cases "km 544 \<and> lock_create km 15 \<noteq> Inl ()")
      case False
      then show ?thesis using load self q1 nl by auto
    next
      case True
      consider (fail) "array_add km (sfs_vnodes sfs) new = Some (Inl ENOMEM, sfs_vnodes sfs)"
        | (ok) vs where "array_add km (sfs_vnodes sfs) new = Some (Inr (), vs)" "ka.holds vs (vlist sfs @ [new])"
        using ka.holds_add [OF km h', of new] by metis
      then show ?thesis
      proof cases
        case fail
        have "?s1\<lparr>sfs_vnodes := sfs_vnodes sfs\<rparr> = ?s1" by simp
        then show ?thesis using load True fail q1 nl by auto
      next
        case (ok vs)
        have vs: "ka.holds vs (vlist ?s1 @ [new])" using ok(2) q1(3) by simp
        have fresh: "sfs_heap ?s1 new = None" "sv_ino ?sv \<notin> loaded ?s1" using new nl q1(2) by simp_all
        have bl: "blocks_ok ?s1 im" using q1(4) by (simp add: volume_def)
        note vl = volume_add [OF q1(4) fresh(1) vs vn fresh(2) _ bl, simplified]
        let ?s2 = "put_vnode new ?sv (?s1\<lparr>sfs_vnodes := vs\<rparr>)"
        have "same_fs d ?s1 im ?s2" using vl(1,4) vl(5) [OF q1(5)] by (simp add: same_fs_def)
        then have "same_fs d sfs im ?s2" using q1(1) same_fs_trans by blast
        moreover have "has_ref ?s2 new ino" using vl(2) by (simp add: has_ref_def)
        moreover have "sfs_loadvnode km new ino 0 sfs = Some (Inr new, ?s2)" using load True ok(1) by simp
        ultimately show ?thesis using vl(3) q1(2) nl by auto
      qed
    qed
  qed
qed

end
