(* ===== verification/Sfs_Names.thy ===== *)
theory Sfs_Names
  imports Sfs_Volume
begin

text \<open>
  What giving up a reference does to the abstract state of a volume: the vnode is written back
  and leaves the table when the reference was the last one, and the file is erased when no name
  is left.
\<close>

section \<open>Frames of truncation\<close>

text \<open>What the operations on one file leave alone outside the disk and the free map.\<close>
definition kept :: "sfs_fs \<Rightarrow> sfs_fs \<Rightarrow> bool" where
  "kept s s' \<longleftrightarrow> sfs_vnodes s' = sfs_vnodes s \<and> sfs_heap s' = sfs_heap s"

definition vkept :: "sfs_vnode \<Rightarrow> sfs_vnode \<Rightarrow> bool" where
  "vkept v v' \<longleftrightarrow> sv_ops v' = sv_ops v \<and> sv_refcount v' = sv_refcount v \<and> sv_opencount v' = sv_opencount v \<and> sv_ino v' = sv_ino v
     \<and> sfi_type (sv_i v') = sfi_type (sv_i v) \<and> sfi_linkcount (sv_i v') = sfi_linkcount (sv_i v)"

lemma kept_trans: "kept s s1 \<Longrightarrow> kept s1 s2 \<Longrightarrow> kept s s2"
  by (simp add: kept_def)

lemma vkept_trans: "vkept v v1 \<Longrightarrow> vkept v1 v2 \<Longrightarrow> vkept v v2"
  by (simp add: vkept_def)

lemma block_kept:
  "sfs_bfree s b = Some s' \<Longrightarrow> kept s s'"
  "sfs_rblock s buf off b = Some (r, buf', s') \<Longrightarrow> kept s s'"
  "sfs_wblock s buf off b = Some (r', s') \<Longrightarrow> kept s s'"
  by (auto simp: kept_def sfs_bfree_def sfs_rblock_def sfs_wblock_def sfs_rwblock_def bind_eq_Some_conv)

lemma trunc_direct_kept: "sfs_trunc_direct n i bl s v = Some (s', v') \<Longrightarrow> kept s s' \<and> vkept v v'"
proof (induction n arbitrary: i s v)
  case 0
  then show ?case by (simp add: kept_def vkept_def)
next
  case (Suc n)
  from Suc.prems obtain s1 v1 where
    st: "s1 = s \<and> v1 = v \<or> (\<exists>b x. sfs_bfree s b = Some s1 \<and> v1 = v\<lparr>sv_i := (sv_i v)\<lparr>sfi_direct := x\<rparr>, sv_dirty := True\<rparr>)"
    and n: "sfs_trunc_direct n (Suc i) bl s1 v1 = Some (s', v')"
    by (auto simp: bind_eq_Some_conv split: if_splits)
  have "kept s s1 \<and> vkept v v1" using st block_kept(1) by (auto simp: kept_def vkept_def)
  then show ?case using Suc.IH [OF n] kept_trans vkept_trans by blast
qed

lemma trunc_entries_kept: "sfs_trunc_entries n j bl s ws x y = Some (s', ws', x', y') \<Longrightarrow> kept s s'"
proof (induction n arbitrary: j s ws x y)
  case 0
  then show ?case by (simp add: kept_def)
next
  case (Suc n)
  from Suc.prems obtain s1 ws1 x1 y1 where st: "s1 = s \<or> (\<exists>b. sfs_bfree s b = Some s1)"
    and n: "sfs_trunc_entries n (Suc j) bl s1 ws1 x1 y1 = Some (s', ws', x', y')"
    by (auto simp: bind_eq_Some_conv split: if_splits) blast+
  have "kept s s1" using st block_kept(1) by (auto simp: kept_def)
  then show ?case using Suc.IH [OF n] kept_trans by blast
qed

lemma trunc_indirect_kept: "sfs_trunc_indirect bl s v = Some (r, s', v') \<Longrightarrow> kept s s' \<and> vkept v v'"
proof -
  assume t: "sfs_trunc_indirect bl s v = Some (r, s', v')"
  show ?thesis
  proof (cases "bl < 15 + 128 - 1 \<and> sfi_indirect (sv_i v) \<noteq> 0")
    case False
    then show ?thesis using t by (auto simp: sfs_trunc_indirect_def Let_def kept_def vkept_def)
  next
    case True
    then obtain r1 buf s1 where rb: "sfs_rblock s (replicate 512 0) 0 (sfi_indirect (sv_i v)) = Some (r1, buf, s1)"
      using t by (auto simp: sfs_trunc_indirect_def Let_def bind_eq_Some_conv)
    note k1 = block_kept(2) [OF rb]
    show ?thesis
    proof (cases r1)
      case (Inl e)
      then show ?thesis using t True rb k1 by (auto simp: sfs_trunc_indirect_def Let_def vkept_def)
    next
      case (Inr u)
      then obtain s2 ws x y where te: "sfs_trunc_entries 128 0 bl s1 (words32 128 buf) False False = Some (s2, ws, x, y)"
        and t2: "(if \<not> y then do { s3 \<leftarrow> sfs_bfree s2 (sfi_indirect (sv_i v));
            Some (Inr (), s3, v\<lparr>sv_i := (sv_i v)\<lparr>sfi_indirect := 0\<rparr>, sv_dirty := True\<rparr>) }
          else if x then do { (result, s3) \<leftarrow> sfs_wblock s2 (bytes32 ws) 0 (sfi_indirect (sv_i v)); Some (result, s3, v) }
          else Some (Inr (), s2, v)) = Some (r, s', v')"
        using t True rb by (auto simp: sfs_trunc_indirect_def Let_def bind_eq_Some_conv)
      have k2: "kept s s2" using kept_trans [OF k1 trunc_entries_kept [OF te]] .
      have "kept s2 s' \<and> vkept v v'"
        using t2 block_kept(1) [of s2 "sfi_indirect (sv_i v)" s'] block_kept(3) [of s2 "bytes32 ws" 0 "sfi_indirect (sv_i v)" r s']
        by (auto simp: bind_eq_Some_conv kept_def vkept_def split: if_splits)
      then show ?thesis using kept_trans [OF k2] by blast
    qed
  qed
qed

lemma truncate_kept: "sfs_truncate s v len = Some (Inr (), s', v') \<Longrightarrow> kept s s' \<and> vkept v v' \<and> sv_dirty v'"
proof -
  assume t: "sfs_truncate s v len = Some (Inr (), s', v')"
  then obtain s1 v1 bl r2 s2 v2 where a: "sfs_trunc_direct 15 0 bl s v = Some (s1, v1)" "sfs_trunc_indirect bl s1 v1 = Some (r2, s2, v2)"
    and r: "(case r2 of Inl err \<Rightarrow> Some (Inl err, s2, v2) | Inr _ \<Rightarrow> Some (Inr (), s2,
        v2\<lparr>sv_i := (sv_i v2)\<lparr>sfi_size := word_of_int len\<rparr>, sv_dirty := True\<rparr>)) = Some (Inr (), s', v')"
    by (auto simp: sfs_truncate_def Let_def bind_eq_Some_conv)
  from r have "s2 = s' \<and> v' = v2\<lparr>sv_i := (sv_i v2)\<lparr>sfi_size := word_of_int len\<rparr>, sv_dirty := True\<rparr>" by (cases r2) auto
  then show ?thesis using trunc_direct_kept [OF a(1)] trunc_indirect_kept [OF a(2)] by (simp add: kept_def vkept_def)
qed

section \<open>Giving up a reference\<close>

lemma vnode_at:
  assumes "volume sfs im" "p \<in> set (vlist sfs)" "sfs_heap sfs p = Some sv"
  shows "vn_ok sfs im sv" "im (sv_ino sv) = Some (sv_i sv)" "finv (sdisk sfs) (slive sfs) (sv_i sv)" "unat (sv_ino sv) \<in> slive sfs"
    "unat (sv_ino sv) \<notin> fblocks (sdisk sfs) (sv_i sv)"
  by (rule volume_vnode [OF assms(1,2)]; use assms(3) in simp)+

lemma root_not_file:
  assumes "volume sfs im" "root_ok sfs d" "p \<in> set (vlist sfs)" "sfs_heap sfs p = Some sv" "sv_ino sv \<noteq> 1"
  shows "p \<noteq> d"
  using assms by (auto simp: root_ok_def)

lemma file_not_root:
  assumes v: "volume sfs im" and d: "root_ok sfs d" and p: "p \<in> set (vlist sfs)" "sfs_heap sfs p = Some sv" and pd: "p \<noteq> d"
  shows "sv_ino sv \<noteq> 1"
proof -
  have "ino_at sfs p \<noteq> ino_at sfs d" using v p(1) d pd unfolding volume_def vtable_def root_ok_def by (auto dest: inj_onD)
  then show ?thesis using p(2) d by (auto simp: ino_at_def root_ok_def)
qed

text \<open>An inode is written back; its vnode stays in memory.\<close>
lemma sync_vupd:
  assumes v: "volume sfs im" and p: "p \<in> set (vlist sfs)" "sfs_heap sfs p = Some sv"
  obtains dev where "on_vnode p sfs_sync_inode sfs = Some (Inr (), put_vnode p (sv\<lparr>sv_dirty := False\<rparr>) (sfs\<lparr>sfs_device := dev\<rparr>))"
    "vupd p sfs sv (put_vnode p (sv\<lparr>sv_dirty := False\<rparr>) (sfs\<lparr>sfs_device := dev\<rparr>)) (sv\<lparr>sv_dirty := False\<rparr>)"
    "\<forall>c. c \<noteq> unat (sv_ino sv) \<longrightarrow> hd_sectors dev ! c = sdisk sfs ! c" "fimage (hd_sectors dev) (sv_i sv) = fimage (sdisk sfs) (sv_i sv)"
proof -
  note at = vnode_at [OF v p]
  have si: "sinv sfs" using v by (simp add: volume_def)
  show thesis
  proof (cases "sv_dirty sv")
    case False
    then have eq: "put_vnode p (sv\<lparr>sv_dirty := False\<rparr>) (sfs\<lparr>sfs_device := sfs_device sfs\<rparr>) = sfs" "put_vnode p sv sfs = sfs" "sv\<lparr>sv_dirty := False\<rparr> = sv"
      using p(2) by (simp_all add: fun_upd_idem put_vnode_def)
    have "vupd p sfs sv sfs sv" using at si p(2) by (auto simp: vupd_def vn_ok_def fun_upd_idem)
    then show thesis using that [of "sfs_device sfs"] False p(2) eq by (simp add: on_vnode_def sfs_sync_inode_def)
  next
    case True
    have b: "unat (sv_ino sv) < snblocks sfs" using at(4) by (simp add: slive_def)
    have wf: "inode_wf (sv_i sv)" using at(3) by (simp add: finv_def)
    have len: "length (inode_bytes (sv_i sv)) = 512" using inode_roundtrip(1) [OF wf] .
    from sfs_wblock_ok [OF si b, of 0 "inode_bytes (sv_i sv)"] len obtain dev where
      dev: "lhd_inv dev" "lhd_good dev" "hd_sectors dev = (sdisk sfs)[unat (sv_ino sv) := inode_bytes (sv_i sv)]"
        "sfs_wblock sfs (inode_bytes (sv_i sv)) 0 (sv_ino sv) = Some (Inr (), sfs\<lparr>sfs_device := dev\<rparr>)" by auto
    let ?s = "put_vnode p (sv\<lparr>sv_dirty := False\<rparr>) (sfs\<lparr>sfs_device := dev\<rparr>)"
    have len': "unat (sv_ino sv) < length (sdisk sfs)" using b si by (simp add: sinv_def)
    have other: "sdisk ?s ! c = sdisk sfs ! c" if "c \<noteq> unat (sv_ino sv)" for c using that dev(3) by simp
    have live: "slive ?s = slive sfs" by (simp add: slive_def)
    have same: "sdisk ?s ! c = sdisk sfs ! c" if "c \<in> fblocks (sdisk sfs) (sv_i sv)" for c using that at(5) other [of c] by metis
    have "fblocks (sdisk sfs) (sv_i sv) \<subseteq> slive sfs" using at(3) by (simp add: finv_def)
    from finv_frame [OF at(3) same this] have fr: "fblocks (sdisk ?s) (sv_i sv) = fblocks (sdisk sfs) (sv_i sv)" "finv (sdisk ?s) (slive sfs) (sv_i sv)"
      "fimage (sdisk ?s) (sv_i sv) = fimage (sdisk sfs) (sv_i sv)" by blast+
    have "sinv ?s" using sinv_device [OF si dev(1,2)] dev(3) by simp
    then have u: "vupd p sfs sv ?s (sv\<lparr>sv_dirty := False\<rparr>)"
      using at(1) fr(1,2) other live dev(3) len' by (auto simp: vupd_def vn_ok_def)
    have "on_vnode p sfs_sync_inode sfs = Some (Inr (), ?s)" using p(2) True dev(4) by (simp add: on_vnode_def sfs_sync_inode_def)
    then show thesis using that [OF _ u] other fr(3) by simp
  qed
qed

lemma sync_ok:
  assumes v: "volume sfs im" and r: "root_ok sfs d" and p: "p \<in> set (vlist sfs)" "sfs_heap sfs p = Some sv" and pd: "p \<noteq> d"
  shows "\<exists>s'. on_vnode p sfs_sync_inode sfs = Some (Inr (), s') \<and> same_fs d sfs im s' \<and> vlist s' = vlist sfs \<and> loaded s' = loaded sfs
    \<and> sfs_heap s' = (sfs_heap sfs)(p \<mapsto> sv\<lparr>sv_dirty := False\<rparr>) \<and> slive s' = slive sfs"
proof -
  obtain dev where d: "on_vnode p sfs_sync_inode sfs = Some (Inr (), put_vnode p (sv\<lparr>sv_dirty := False\<rparr>) (sfs\<lparr>sfs_device := dev\<rparr>))"
    "vupd p sfs sv (put_vnode p (sv\<lparr>sv_dirty := False\<rparr>) (sfs\<lparr>sfs_device := dev\<rparr>)) (sv\<lparr>sv_dirty := False\<rparr>)"
    "fimage (hd_sectors dev) (sv_i sv) = fimage (sdisk sfs) (sv_i sv)" by (rule sync_vupd [OF v p])
  let ?s = "put_vnode p (sv\<lparr>sv_dirty := False\<rparr>) (sfs\<lparr>sfs_device := dev\<rparr>)"
  have eq: "im(sv_ino sv \<mapsto> sv_i sv) = im" using vnode_at(2) [OF v p] by (simp add: fun_upd_idem)
  have "same_fs d sfs im ?s"
    using volume_upd [OF v p d(2)] data_upd(2) [OF v p d(2)] root_upd [OF v p d(2) r pd] eq d(3) by (simp add: same_fs_def bytes_of_def)
  then show ?thesis using d(1) loaded_upd [OF p d(2)] by (intro exI [of _ ?s]) (simp add: slive_def)
qed

text \<open>An inode that is not in memory is forgotten.\<close>
lemma volume_forget:
  assumes v: "volume sfs im" and l: "ino \<notin> loaded sfs"
  shows "volume sfs (im(ino := None))" "data_of sfs (im(ino := None)) = (data_of sfs im)(ino := None)"
proof -
  have "vn_ok sfs (im(ino := None)) sv = vn_ok sfs im sv" if "sfs_heap sfs p = Some sv" "p \<in> set (vlist sfs)" for p sv
  proof -
    have "ino_at sfs p \<in> loaded sfs" using that(2) by (simp add: loaded_def)
    then have "sv_ino sv \<noteq> ino" using l that(1) by (auto simp: ino_at_def)
    then show ?thesis by (simp add: vn_ok_def)
  qed
  then have "vtable sfs (im(ino := None))" using v unfolding volume_def vtable_def by (auto split: if_splits)
  moreover have "blocks_ok sfs (im(ino := None))" using v unfolding volume_def blocks_ok_def by (auto split: if_splits)
  ultimately show "volume sfs (im(ino := None))" using v by (simp add: volume_def)
  show "data_of sfs (im(ino := None)) = (data_of sfs im)(ino := None)" by (rule ext) (simp add: data_of_def)
qed

text \<open>Blocks that no file owns are freed.\<close>
lemma volume_free:
  assumes v: "volume sfs im" and u: "unmapped F sfs s'" and F: "F \<subseteq> slive sfs - {0}"
    and disj: "\<forall>ino i. im ino = Some i \<longrightarrow> own (sdisk sfs) ino i \<inter> F = {}"
  shows "volume s' im" "data_of s' im = data_of sfs im" "slive s' = slive sfs - F" "loaded s' = loaded sfs" "vlist s' = vlist sfs"
    "root_ok sfs d \<Longrightarrow> 1 \<in> dom im \<Longrightarrow> root_ok s' d \<and> dlist s' d = dlist sfs d"
proof -
  have "sinv sfs" using v by (simp add: volume_def)
  note s' = unmapped_sinv [OF this u F]
  have same: "sfs_heap s' = sfs_heap sfs" "sfs_vnodes s' = sfs_vnodes sfs"
    using u unfolding unmapped_def by (metis sfs_fs.select_convs(4,7) sfs_fs.surjective sfs_fs.update_convs(5,6))+
  show "slive s' = slive sfs - F" by (fact s'(2))
  show vl: "vlist s' = vlist sfs" using same by (simp add: vlist_def)
  have ia: "ino_at s' = ino_at sfs" using same by (simp add: ino_at_def fun_eq_iff)
  show ld: "loaded s' = loaded sfs" using vl ia by (simp add: loaded_def)
  have i: "ino \<noteq> 0" "unat ino \<in> slive s'" "unat ino \<notin> fblocks (sdisk sfs) i" "finv (sdisk sfs) (slive s') i"
    if im: "im ino = Some i" for ino i
  proof -
    note b = volume_inode [OF v im]
    show "ino \<noteq> 0" "unat ino \<notin> fblocks (sdisk sfs) i" using b by simp_all
    show "unat ino \<in> slive s'" using b(2) disj [rule_format, OF im] unfolding s'(2) own_def by blast
    have "fblocks (sdisk sfs) i \<subseteq> slive s'" using b(4) disj [rule_format, OF im] unfolding s'(2) own_def finv_def by blast
    then show "finv (sdisk sfs) (slive s') i" using b(4) unfolding finv_def by blast
  qed
  have "blocks_ok s' im" using v i unfolding volume_def blocks_ok_def s'(3) by simp
  moreover have "vtable s' im" using v unfolding volume_def vtable_def vl ia ld s'(3) same vn_ok_def by simp
  ultimately show "volume s' im" using s'(1) by (simp add: volume_def)
  have "bytes_of s' = bytes_of sfs" by (simp add: bytes_of_def s'(3) fun_eq_iff)
  then show "data_of s' im = data_of sfs im" by (intro ext) (simp add: data_of_def)
  assume r: "root_ok sfs d" and "1 \<in> dom im"
  from root_vnode [OF v r] obtain rv where rv: "d \<in> set (vlist sfs)" "sfs_heap sfs d = Some rv" "sv_ino rv = 1" "dinv sfs rv" "im 1 = Some (sv_i rv)" by blast
  have "dents s' w = dents sfs w" for w by (simp add: dents_def s'(3))
  then show "root_ok s' d \<and> dlist s' d = dlist sfs d"
    using rv i(4) [OF rv(5)] s'(1,3) vl same by (auto simp: root_ok_def dlist_def dinv_def vinv_def)
qed

text \<open>A vnode that has been written back leaves the table.\<close>
lemma volume_unload:
  assumes v: "volume sfs im" and r: "root_ok sfs d" and k: "k < length (vlist sfs)" "vlist sfs ! k = p" and sv: "sfs_heap sfs p = Some sv" "\<not> sv_dirty sv"
    and pd: "p \<noteq> d" and vs: "ka.holds vs (take k (vlist sfs) @ drop (Suc k) (vlist sfs))"
  defines "s' \<equiv> sfs\<lparr>sfs_vnodes := vs, sfs_heap := (sfs_heap sfs)(p := None)\<rparr>"
  shows "same_fs d sfs im s'" "loaded s' = loaded sfs - {sv_ino sv}" "slive s' = slive sfs"
proof -
  have dist: "distinct (vlist sfs)" and inj: "inj_on (ino_at sfs) (set (vlist sfs))" using v by (simp_all add: volume_def vtable_def)
  have sp: "vlist sfs = take k (vlist sfs) @ p # drop (Suc k) (vlist sfs)" using k id_take_nth_drop by metis
  have pv: "p \<in> set (vlist sfs)" using k nth_mem by blast
  have vl: "vlist s' = take k (vlist sfs) @ drop (Suc k) (vlist sfs)" using holds_slist [OF vs] by (simp add: s'_def vlist_def)
  have st: "set (vlist s') = set (vlist sfs) - {p}" "distinct (vlist s')"
  proof -
    have "distinct (take k (vlist sfs) @ p # drop (Suc k) (vlist sfs))" using dist sp by simp
    then have "p \<notin> set (take k (vlist sfs) @ drop (Suc k) (vlist sfs))" "distinct (take k (vlist sfs) @ drop (Suc k) (vlist sfs))" by auto
    moreover have "set (vlist sfs) = insert p (set (take k (vlist sfs) @ drop (Suc k) (vlist sfs)))" by (subst sp) auto
    ultimately show "set (vlist s') = set (vlist sfs) - {p}" "distinct (vlist s')" unfolding vl by auto
  qed
  have ia: "ino_at s' q = ino_at sfs q" if "q \<noteq> p" for q using that by (simp add: s'_def ino_at_def)
  have "ino_at s' ` (set (vlist sfs) - {p}) = ino_at sfs ` (set (vlist sfs) - {p})" by (rule image_cong) (auto simp: ia)
  also have "\<dots> = ino_at sfs ` set (vlist sfs) - {ino_at sfs p}" using inj pv by (auto simp: inj_on_def)
  finally show ld: "loaded s' = loaded sfs - {sv_ino sv}" using sv(1) by (simp add: loaded_def st(1) ino_at_def)
  have disk: "sdisk s' = sdisk sfs" "sinv s' = sinv sfs" by (simp_all add: s'_def sinv_def)
  show live: "slive s' = slive sfs" by (simp add: s'_def slive_def)
  have vn: "vn_ok s' im w = vn_ok sfs im w" for w by (simp add: vn_ok_def disk)
  note at = vnode_at [OF v pv sv(1)]
  have "vtable s' im"
    unfolding vtable_def
  proof (intro conjI allI impI ballI)
    show "ka.holds (sfs_vnodes s') (vlist s')" unfolding vl using vs by (simp add: s'_def)
    show "distinct (vlist s')" by (fact st(2))
    show "inj_on (ino_at s') (set (vlist s'))" using inj unfolding st(1) inj_on_def by (auto simp: ia)
  next
    fix q assume "q \<in> set (vlist s')"
    then show "\<exists>sv. sfs_heap s' q = Some sv \<and> vn_ok s' im sv" using v unfolding vn st(1) volume_def vtable_def by (auto simp: s'_def)
  next
    fix ino i assume a: "im ino = Some i \<and> ino \<notin> loaded s'"
    show "sdisk s' ! unat ino = inode_bytes i"
    proof (cases "ino = sv_ino sv")
      case True
      then show ?thesis using a at(1,2) sv(2) by (simp add: vn_ok_def disk)
    next
      case False
      then show ?thesis using a v unfolding volume_def vtable_def by (simp add: ld disk)
    qed
  qed
  moreover have "blocks_ok s' im" using v unfolding volume_def blocks_ok_def disk live by blast
  ultimately have "volume s' im" using v by (simp add: volume_def disk)
  moreover have "bytes_of s' = bytes_of sfs" by (simp add: bytes_of_def disk fun_eq_iff)
  then have "data_of s' im = data_of sfs im" by (intro ext) (simp add: data_of_def)
  moreover have "dents s' w = dents sfs w" for w by (simp add: dents_def disk)
  moreover have "sfs_heap s' d = sfs_heap sfs d" using pd by (simp add: s'_def)
  ultimately have "root_ok s' d" "dlist s' d = dlist sfs d" "volume s' im" "data_of s' im = data_of sfs im"
    using r pd st(1) live by (auto simp: root_ok_def dlist_def dinv_def vinv_def disk)
  then show "same_fs d sfs im s'" by (simp add: same_fs_def)
qed

text \<open>Truncation to nothing frees all blocks of the file.\<close>
lemma truncate_zero:
  assumes v: "vinv sfs sv"
  obtains s1 v1 where "sfs_truncate sfs sv 0 = Some (Inr (), s1, v1)" "sinv s1" "kept sfs s1" "vkept sv v1" "sv_dirty v1"
    "fblocks (sdisk s1) (sv_i v1) = {}" "inode_wf (sv_i v1)" "slive s1 = slive sfs - fblocks (sdisk sfs) (sv_i sv)"
    "\<And>b. b \<in> slive sfs - fblocks (sdisk sfs) (sv_i sv) \<Longrightarrow> sdisk s1 ! b = sdisk sfs ! b" "sfs_super s1 = sfs_super sfs"
    "\<And>k. k < 143 \<Longrightarrow> fmap (sdisk s1) (sv_i v1) k = 0"
proof -
  let ?i = "sv_i sv" and ?d = "sdisk sfs"
  from sfs_truncate_ok [OF v, of 0] obtain s1 v1 where t: "sfs_truncate sfs sv 0 = Some (Inr (), s1, v1)" "truncated 0 sfs ?i s1 (sv_i v1)" by auto
  have fi: "finv ?d (slive sfs) ?i" using v by (simp add: vinv_def)
  have tr: "sinv s1" "sfs_super s1 = sfs_super sfs" "inode_wf (sv_i v1)"
    "\<And>k. k < 143 \<Longrightarrow> fmap (sdisk s1) (sv_i v1) k = (if dropped 0 k then 0 else fmap ?d ?i k)" "sfi_indirect (sv_i v1) = 0"
    "\<And>c. sfi_indirect ?i = 0 \<or> c \<noteq> unat (sfi_indirect ?i) \<Longrightarrow> sdisk s1 ! c = ?d ! c"
    and used: "sused s1 = sused sfs - (dropset ?d ?i 0 {..<143} \<union> (if sfi_indirect (sv_i v1) = sfi_indirect ?i then {} else {unat (sfi_indirect ?i)}))"
    using t(2) unfolding truncated_def by blast+
  have z: "fmap (sdisk s1) (sv_i v1) k = 0" if "k < 143" for k using tr(4) [OF that] by (simp add: dropped_def)
  then have e: "fblocks (sdisk s1) (sv_i v1) = {}" using tr(5) by (auto simp: fblocks_def)
  have "sused s1 = sused sfs - fblocks ?d ?i"
    using finv_drop(1) [OF fi tr(3,4)] tr(5) unfolding used by (simp add: e dropset_def)
  then have live: "slive s1 = slive sfs - fblocks ?d ?i" unfolding slive_def tr(2) by blast
  have "sdisk s1 ! b = ?d ! b" if "b \<in> slive sfs - fblocks ?d ?i" for b
    using that tr(6) [of b] by (auto simp: fblocks_def)
  with that [OF t(1) tr(1)] truncate_kept [OF t(1)] e tr(2,3) live z show thesis by blast
qed

lemma table_remove:
  assumes v: "volume sfs im" and p: "p \<in> set (vlist sfs)"
  obtains k vs where "k < length (vlist sfs)" "vlist sfs ! k = p" "ka.holds vs (take k (vlist sfs) @ drop (Suc k) (vlist sfs))"
    "scan (nat (array_getnum (sfs_vnodes sfs))) (\<lambda>q. q = p) (array_getguy (sfs_vnodes sfs)) 0 = Some (Some (int k, p))"
    "array_remove (sfs_vnodes sfs) (int k) = Some vs"
proof -
  have h: "ka.holds (sfs_vnodes sfs) (vlist sfs)" and d: "distinct (vlist sfs)" using v by (simp_all add: volume_def vtable_def)
  from p obtain k where k: "k < length (vlist sfs)" "vlist sfs ! k = p" by (auto simp: in_set_conv_nth)
  have "\<forall>j<k. \<not> (vlist sfs ! j = p)" using d k nth_eq_iff_index_eq less_trans by fastforce
  then have "scan (nat (array_getnum (sfs_vnodes sfs))) (\<lambda>q. q = p) (array_getguy (sfs_vnodes sfs)) 0 = Some (Some (int k, p))"
    using ka.holds_scan_some [OF h k(1), of "\<lambda>q. q = p"] k(2) by simp
  then show thesis using ka.holds_remove [OF h k(1)] that k by metis
qed

lemma reclaim_linked:
  assumes v: "volume sfs im" and r: "root_ok sfs d" and p: "p \<in> set (vlist sfs)" "sfs_heap sfs p = Some sv" and pd: "p \<noteq> d"
    and c: "sv_refcount sv = 1" "sv_opencount sv = 0" and l: "sfi_linkcount (sv_i sv) \<noteq> 0"
  shows "\<exists>s'. sfs_reclaim p sfs = Some (Inr (), s') \<and> same_fs d sfs im s' \<and> loaded s' = loaded sfs - {sv_ino sv}"
proof -
  from sync_ok [OF v r p pd] obtain s2 where s2: "on_vnode p sfs_sync_inode sfs = Some (Inr (), s2)" "same_fs d sfs im s2"
    "vlist s2 = vlist sfs" "loaded s2 = loaded sfs" "sfs_heap s2 = (sfs_heap sfs)(p \<mapsto> sv\<lparr>sv_dirty := False\<rparr>)" by blast
  have v2: "volume s2 im" "root_ok s2 d" "p \<in> set (vlist s2)" "sfs_heap s2 p = Some (sv\<lparr>sv_dirty := False\<rparr>)"
    using s2 p(1) by (simp_all add: same_fs_def)
  from table_remove [OF v2(1,3)] obtain k vs where k: "k < length (vlist s2)" "vlist s2 ! k = p"
    "ka.holds vs (take k (vlist s2) @ drop (Suc k) (vlist s2))"
    "scan (nat (array_getnum (sfs_vnodes s2))) (\<lambda>q. q = p) (array_getguy (sfs_vnodes s2)) 0 = Some (Some (int k, p))"
    "array_remove (sfs_vnodes s2) (int k) = Some vs" by blast
  let ?s = "s2\<lparr>sfs_vnodes := vs, sfs_heap := (sfs_heap s2)(p := None)\<rparr>"
  have u: "same_fs d s2 im ?s" "loaded ?s = loaded s2 - {sv_ino sv}"
    using volume_unload [OF v2(1,2) k(1,2) v2(4) _ pd k(3)] by simp_all
  have "sfs_reclaim p sfs = Some (Inr (), ?s)"
    using p(2) c l s2(1) v2(4) k(4,5) by (simp add: sfs_reclaim_def vnode_kill_def)
  then show ?thesis using u same_fs_trans [OF s2(2)] s2(4) by auto
qed

text \<open>Truncation to nothing through the vnode, on the whole volume.\<close>
lemma vop_truncate_zero:
  assumes v: "volume sfs im" and r: "root_ok sfs d" and p: "p \<in> set (vlist sfs)" "sfs_heap sfs p = Some sv" and pd: "p \<noteq> d"
    and ty: "sfi_type (sv_i sv) = 1"
  obtains s1 v1 where "vop_truncate p 0 sfs = Some (Inr (), s1)" "volume s1 (im(sv_ino sv \<mapsto> sv_i v1))" "root_ok s1 d" "dlist s1 d = dlist sfs d"
    "\<forall>ino. ino \<noteq> sv_ino sv \<longrightarrow> data_of s1 (im(sv_ino sv \<mapsto> sv_i v1)) ino = data_of sfs im ino" "loaded s1 = loaded sfs" "vlist s1 = vlist sfs"
    "sfs_heap s1 = (sfs_heap sfs)(p \<mapsto> v1)" "vkept sv v1" "slive s1 = slive sfs - fblocks (sdisk sfs) (sv_i sv)" "fblocks (sdisk s1) (sv_i v1) = {}"
proof -
  note at = vnode_at [OF v p]
  have "sinv sfs" using v by (simp add: volume_def)
  then have "vinv sfs sv" using at(3) by (simp add: vinv_def)
  from truncate_zero [OF this] obtain t v1 where t: "sfs_truncate sfs sv 0 = Some (Inr (), t, v1)" "sinv t" "kept sfs t" "vkept sv v1" "sv_dirty v1"
    "fblocks (sdisk t) (sv_i v1) = {}" "inode_wf (sv_i v1)" "slive t = slive sfs - fblocks (sdisk sfs) (sv_i sv)"
    "\<And>b. b \<in> slive sfs - fblocks (sdisk sfs) (sv_i sv) \<Longrightarrow> sdisk t ! b = sdisk sfs ! b" "sfs_super t = sfs_super sfs"
    "\<And>k. k < 143 \<Longrightarrow> fmap (sdisk t) (sv_i v1) k = 0" by blast
  let ?s = "put_vnode p v1 t"
  have ops: "load_ops (sv_i v1) = Some (sv_ops v1)" using at(1) t(4) load_ops_type [of "sv_i v1" "sv_i sv"] by (simp add: vn_ok_def vkept_def)
  have fi: "finv (sdisk t) (slive t) (sv_i v1)" using t(6,7,11) unfolding finv_def by simp
  have u: "vupd p sfs sv ?s v1"
    using at(1) t(2-6,8,9) ops fi by (simp add: vupd_def vn_ok_def kept_def vkept_def)
  have "sv_ops sv = sfs_fileops" using at(1) ty by (simp add: vn_ok_def load_ops_def)
  then have run: "vop_truncate p 0 sfs = Some (Inr (), ?s)"
    using at(1) p(2) t(1) by (simp add: vop_truncate_def vop_def on_vnode_def vn_ok_def vnode_check_def)
  have L: "loaded ?s = loaded sfs" "vlist ?s = vlist sfs" using loaded_upd [OF p u] by simp_all
  have H: "sfs_heap ?s = (sfs_heap sfs)(p \<mapsto> v1)" "slive ?s = slive sfs - fblocks (sdisk sfs) (sv_i sv)" "fblocks (sdisk ?s) (sv_i v1) = {}"
    using t(3,6,8) by (simp_all add: kept_def)
  show thesis
    by (rule that, fact run, rule volume_upd [OF v p u], (rule root_upd [OF v p u r pd])+, (intro allI impI, erule data_upd(1) [OF v p u])) (fact L H t(4))+
qed

text \<open>The last reference to a file with no name goes away, and the file with it.\<close>
lemma reclaim_unlinked:
  assumes v: "volume sfs im" and r: "root_ok sfs d" and p: "p \<in> set (vlist sfs)" "sfs_heap sfs p = Some sv" and pd: "p \<noteq> d"
    and c: "sv_refcount sv = 1" "sv_opencount sv = 0" and l: "sfi_linkcount (sv_i sv) = 0" and ty: "sfi_type (sv_i sv) = 1"
  defines "n \<equiv> sv_ino sv"
  shows "\<exists>s'. sfs_reclaim p sfs = Some (Inr (), s') \<and> volume s' (im(n := None)) \<and> root_ok s' d \<and> dlist s' d = dlist sfs d
    \<and> data_of s' (im(n := None)) = (data_of sfs im)(n := None) \<and> loaded s' = loaded sfs - {n} \<and> slive s' = slive sfs - own (sdisk sfs) n (sv_i sv)"
proof -
  obtain s1 v1 where s1: "vop_truncate p 0 sfs = Some (Inr (), s1)" "volume s1 (im(n \<mapsto> sv_i v1))" "root_ok s1 d"
    "dlist s1 d = dlist sfs d" "\<forall>ino. ino \<noteq> n \<longrightarrow> data_of s1 (im(n \<mapsto> sv_i v1)) ino = data_of sfs im ino" "loaded s1 = loaded sfs" "vlist s1 = vlist sfs"
    "sfs_heap s1 = (sfs_heap sfs)(p \<mapsto> v1)" "vkept sv v1" "slive s1 = slive sfs - fblocks (sdisk sfs) (sv_i sv)"
    unfolding n_def by (rule vop_truncate_zero [OF v r p pd ty])
  let ?im1 = "im(n \<mapsto> sv_i v1)"
  have p1: "p \<in> set (vlist s1)" "sfs_heap s1 p = Some v1" and n1: "sv_ino v1 = n" "sfi_linkcount (sv_i v1) = 0" "sv_refcount v1 = 1" "sv_opencount v1 = 0"
    using s1(7-9) p c l by (simp_all add: vkept_def n_def)
  from sync_ok [OF s1(2,3) p1 pd] obtain s2 where s2: "on_vnode p sfs_sync_inode s1 = Some (Inr (), s2)" "same_fs d s1 ?im1 s2"
    "vlist s2 = vlist s1" "loaded s2 = loaded s1" "sfs_heap s2 = (sfs_heap s1)(p \<mapsto> v1\<lparr>sv_dirty := False\<rparr>)" "slive s2 = slive s1" by blast
  have v2: "volume s2 ?im1" "root_ok s2 d" "p \<in> set (vlist s2)" "sfs_heap s2 p = Some (v1\<lparr>sv_dirty := False\<rparr>)"
    using s2 p1(1) by (simp_all add: same_fs_def)
  have n2: "n \<noteq> 0" "unat n \<in> slive s2" using volume_inode(1,2) [OF v2(1), of n "sv_i v1"] by simp_all
  from table_remove [OF v2(1,3)] obtain k vs where k: "k < length (vlist s2)" "vlist s2 ! k = p"
    "ka.holds vs (take k (vlist s2) @ drop (Suc k) (vlist s2))"
    "scan (nat (array_getnum (sfs_vnodes s2))) (\<lambda>q. q = p) (array_getguy (sfs_vnodes s2)) 0 = Some (Some (int k, p))"
    "array_remove (sfs_vnodes s2) (int k) = Some vs" by blast
  have bm: "bm_inv (sfs_freemap s2)" using v2(1) by (simp add: volume_def sinv_def)
  have "unat n \<in> sused s2" using n2(2) by (simp add: slive_def)
  from sfs_bfree_unmapped [OF bm this] obtain s3 where s3: "sfs_bfree s2 n = Some s3" "unmapped {unat n} s2 s3" by blast
  let ?f = "\<lambda>s. s\<lparr>sfs_vnodes := vs, sfs_heap := (sfs_heap s2)(p := None)\<rparr>"
  have s3': "s3 = s2\<lparr>sfs_freemap := sfs_freemap s3, sfs_freemapdirty := sfs_freemapdirty s3\<rparr>" using s3(2) unfolding unmapped_def by blast
  have same3: "sfs_vnodes s3 = sfs_vnodes s2" "sfs_heap s3 = sfs_heap s2" by (subst s3', simp)+
  have un: "unmapped {unat n} (?f s2) (?f s3)"
    using s3(2) unfolding unmapped_def by (cases s2, cases s3) simp
  have u: "same_fs d s2 ?im1 (?f s2)" "loaded (?f s2) = loaded s2 - {n}" "slive (?f s2) = slive s2"
    using volume_unload [OF v2(1,2) k(1,2) v2(4) _ pd k(3)] n1(1) by simp_all
  have vf: "volume (?f s2) ?im1" and rf: "root_ok (?f s2) d" using u(1) by (simp_all add: same_fs_def)
  have "n \<notin> loaded (?f s2)" using u(2) by simp
  note fg = volume_forget [OF vf this, unfolded fun_upd_upd]
  have F: "{unat n} \<subseteq> slive (?f s2) - {0}" using n2 u(3) by (simp add: unat_eq_zero)
  have o: "\<forall>ino i. (im(n := None)) ino = Some i \<longrightarrow> own (sdisk (?f s2)) ino i \<inter> {unat n} = {}"
    using other_blocks [OF vf, of n "sv_i v1"] by (auto simp: own_def split: if_splits)
  note fr = volume_free [OF fg(1) un F o]
  have one: "1 \<in> dom (im(n := None))" using file_not_root [OF v r p pd] root_vnode [OF v r] by (metis domIff fun_upd_other n_def option.distinct(1))
  have run: "sfs_reclaim p sfs = Some (Inr (), ?f s3)"
    using p(2) c l s1(1) s2(1) v2(4) n1 s3(1) k(4,5) same3 by (simp add: sfs_reclaim_def vnode_kill_def)
  have data: "data_of (?f s3) (im(n := None)) = (data_of sfs im)(n := None)"
  proof -
    have "(data_of s1 ?im1)(n := None) = (data_of sfs im)(n := None)" using s1(5) by auto
    then show ?thesis unfolding fr(2) fg(2) using u(1) s2(2) by (simp add: same_fs_def)
  qed
  have "slive (?f s3) = slive sfs - own (sdisk sfs) n (sv_i sv)" using fr(3) u(3) s2(6) s1(10) by (auto simp: own_def)
  then show ?thesis
    using run fr(1) data fr(6) [OF rf one] fr(4) u s2(2,4) s1(4,6) by (intro exI [of _ "?f s3"] conjI) (simp_all only: same_fs_def)
qed

end
