(* ===== verification/Sfs_Nameops.thy ===== *)
theory Sfs_Nameops
  imports Sfs_Names
begin

text \<open>
  The operations on the names of a volume: looking up, creating, linking, removing and renaming
  files, as functions on the names in the root directory, the bytes of the files and the vnodes
  in memory.
\<close>

section \<open>References\<close>

text \<open>The number of references to the vnode at \<open>p\<close>.\<close>
definition refs :: "sfs_fs \<Rightarrow> nat \<Rightarrow> int" where
  "refs sfs p = sv_refcount (the (sfs_heap sfs p))"

text \<open>The state after a reference to the file \<open>ino\<close> was given up, the last one if \<open>lst\<close>.\<close>
definition released :: "nat \<Rightarrow> sfs_fs \<Rightarrow> (u32 \<Rightarrow> sfs_inode option) \<Rightarrow> u32 \<Rightarrow> bool \<Rightarrow> sfs_fs \<Rightarrow> (u32 \<Rightarrow> sfs_inode option) \<Rightarrow> bool" where
  "released d sfs im ino lst s' im' \<longleftrightarrow> volume s' im' \<and> root_ok s' d \<and> dlist s' d = dlist sfs d
     \<and> loaded s' = (if lst then loaded sfs - {ino} else loaded sfs)
     \<and> (let gone = lst \<and> sfi_linkcount (the (im ino)) = 0 in
         im' = (if gone then im(ino := None) else im)
         \<and> data_of s' im' = (if gone then (data_of sfs im)(ino := None) else data_of sfs im))"

lemma decref_ok:
  assumes v: "volume sfs im" and r: "root_ok sfs d" and h: "has_ref sfs p ino" and i: "im ino = Some i" "sfi_type i = 1"
  shows "\<exists>s' im'. vop_decref p sfs = Some s' \<and> released d sfs im ino (refs sfs p = 1) s' im'"
proof -
  from h obtain sv where sv: "p \<in> set (vlist sfs)" "sfs_heap sfs p = Some sv" "sv_ino sv = ino" "sv_opencount sv < sv_refcount sv"
    by (auto simp: has_ref_def)
  note at = vnode_at [OF v sv(1,2)]
  have ii: "sv_i sv = i" using at(2) sv(3) i by simp
  have cnt: "0 < sv_refcount sv" "0 \<le> sv_opencount sv" using at(1) by (simp_all add: vn_ok_def)
  from r obtain rv where "sfs_heap sfs d = Some rv" "sfi_type (sv_i rv) = 2" by (auto simp: root_ok_def dinv_def)
  then have pd: "p \<noteq> d" using sv(2) ii i(2) by auto
  show ?thesis
  proof (cases "sv_refcount sv = 1")
    case False
    let ?s = "put_vnode p (sv\<lparr>sv_refcount := sv_refcount sv - 1\<rparr>) sfs"
    have "same_fs d sfs im ?s" "vlist ?s = vlist sfs" "loaded ?s = loaded sfs"
      by (rule refcount_upd [OF v r sv(1,2)]; use False cnt sv(4) in simp)+
    moreover have "vop_decref p sfs = Some ?s" using sv(2) False cnt by (simp add: vop_decref_def vnode_decref_def)
    ultimately show ?thesis using False sv(2) by (simp add: released_def same_fs_def refs_def)
  next
    case True
    have dec: "vop_decref p sfs = map_option snd (sfs_reclaim p sfs)"
      using sv(2,4) True cnt by (simp add: vop_decref_def vnode_decref_def vnode_check_def map_option_case split: option.splits)
    have oc: "sv_opencount sv = 0" using True cnt sv(4) by simp
    show ?thesis
    proof (cases "sfi_linkcount i = 0")
      case l: True
      from reclaim_unlinked [OF v r sv(1,2) pd True oc] l ii i(2) sv(3) obtain s' where
        "sfs_reclaim p sfs = Some (Inr (), s')" "volume s' (im(ino := None))" "root_ok s' d" "dlist s' d = dlist sfs d"
        "data_of s' (im(ino := None)) = (data_of sfs im)(ino := None)" "loaded s' = loaded sfs - {ino}" by blast
      then show ?thesis using dec True l sv(2) i(1) by (intro exI [of _ s'] exI [of _ "im(ino := None)"]) (simp add: released_def refs_def)
    next
      case l: False
      from reclaim_linked [OF v r sv(1,2) pd True oc] l ii sv(3) obtain s' where
        "sfs_reclaim p sfs = Some (Inr (), s')" "same_fs d sfs im s'" "loaded s' = loaded sfs - {ino}" by blast
      then show ?thesis using dec True l sv(2) i(1) by (intro exI [of _ s'] exI [of _ im]) (simp add: released_def refs_def same_fs_def)
    qed
  qed
qed

text \<open>What a change of the directory leaves of a reference.\<close>
lemma rootstep_ref:
  assumes "rootstep d sfs im s' im'" "has_ref sfs p ino" "p \<noteq> d"
  shows "has_ref s' p ino" "refs s' p = refs sfs p" "sfs_heap s' p = sfs_heap sfs p"
  using assms by (auto simp: rootstep_def has_ref_def refs_def vlist_def)

lemma ref_not_root: "root_ok sfs d \<Longrightarrow> has_ref sfs p ino \<Longrightarrow> ino \<noteq> 1 \<Longrightarrow> p \<noteq> d"
  by (auto simp: root_ok_def has_ref_def)

lemma ref_vnode:
  assumes "volume sfs im" "has_ref sfs p ino" "im ino = Some i"
  obtains sv where "p \<in> set (vlist sfs)" "sfs_heap sfs p = Some sv" "sv_ino sv = ino" "sv_i sv = i" "sv_opencount sv < sv_refcount sv"
  using assms vnode_at(2) [OF assms(1), of p] by (auto simp: has_ref_def)

text \<open>The link count of a file changes.\<close>
lemma linkcount_ok:
  fixes f :: "u16 \<Rightarrow> u16"
  assumes v: "volume sfs im" and r: "root_ok sfs d" and h: "has_ref sfs p ino" and i: "im ino = Some i" "ino \<noteq> 1"
  defines "i' \<equiv> i\<lparr>sfi_linkcount := f (sfi_linkcount i)\<rparr>"
  shows "\<exists>s'. set_linkcount f p sfs = Some s' \<and> volume s' (im(ino \<mapsto> i')) \<and> root_ok s' d \<and> dlist s' d = dlist sfs d
    \<and> data_of s' (im(ino \<mapsto> i')) = data_of sfs im \<and> loaded s' = loaded sfs \<and> has_ref s' p ino \<and> refs s' p = refs sfs p"
proof -
  from ref_vnode [OF v h i(1)] obtain sv where sv: "p \<in> set (vlist sfs)" "sfs_heap sfs p = Some sv" "sv_ino sv = ino" "sv_i sv = i"
    "sv_opencount sv < sv_refcount sv" by blast
  note at = vnode_at [OF v sv(1,2)]
  let ?w = "sv\<lparr>sv_i := i', sv_dirty := True\<rparr>" and ?s = "put_vnode p (sv\<lparr>sv_i := i', sv_dirty := True\<rparr>) sfs"
  have si: "sinv sfs" using v by (simp add: volume_def)
  have f: "vupd p sfs sv ?s ?w" "fimage (sdisk sfs) i' = fimage (sdisk sfs) i"
    using vupd_fields(1) [OF at(1,3) si, where sv' = ?w and p = p] vupd_fields(2) [OF at(1,3) si, where sv' = ?w] sv(4,5) at(1) by (simp_all add: i'_def vn_ok_def)
  have b: "bytes_of ?s i' = bytes_of sfs i" using f(2) by (simp add: bytes_of_def i'_def)
  have pd: "p \<noteq> d" by (rule ref_not_root [OF r h i(2)])
  have "set_linkcount f p sfs = Some ?s" using sv(2,4) by (simp add: set_linkcount_def i'_def)
  moreover have "volume ?s (im(ino \<mapsto> i'))" "data_of ?s (im(ino \<mapsto> i')) = data_of sfs im"
    using volume_upd [OF v sv(1,2) f(1)] data_upd(2) [OF v sv(1,2) f(1)] b sv(3,4) by simp_all
  moreover have "loaded ?s = loaded sfs" using loaded_upd [OF sv(1,2) f(1)] by simp
  moreover have "has_ref ?s p ino" "refs ?s p = refs sfs p" using sv by (simp_all add: has_ref_def refs_def)
  ultimately show ?thesis using root_upd [OF v sv(1,2) f(1) r pd] by blast
qed

section \<open>Link counts\<close>

abbreviation links :: "(u8 list \<Rightarrow> u32 option) \<Rightarrow> u32 \<Rightarrow> u8 list set" where
  "links names ino \<equiv> {n. names n = Some ino}"

lemma links_bound:
  assumes "root_ok sfs d"
  shows "finite (links (names_of sfs d) ino)" "card (links (names_of sfs d) ino) \<le> 1144"
proof -
  let ?es = "dlist sfs d"
  let ?xs = "map (\<lambda>e. (ename e, sfd_ino e)) (filter (\<lambda>e. sfd_ino e \<noteq> 0) ?es)"
  have sub: "links (names_of sfs d) ino \<subseteq> fst ` set ?xs"
    unfolding names_of_def dmap_def using map_of_SomeD by force
  then show "finite (links (names_of sfs d) ino)" by (rule finite_subset) simp
  have "card (links (names_of sfs d) ino) \<le> card (fst ` set ?xs)" by (rule card_mono [OF _ sub]) simp
  also have "\<dots> \<le> length ?xs" by (rule le_trans [OF card_image_le card_length]) simp
  also have "\<dots> \<le> length ?es" by simp
  also have "\<dots> \<le> 1144" using assms dslots_bound(2) by (auto simp: root_ok_def dlist_def)
  finally show "card (links (names_of sfs d) ino) \<le> 1144" .
qed

lemma links_root [simp]: "links_ok names (im(1 \<mapsto> x)) L = links_ok names im L"
  by (auto simp: links_ok_def)

lemma links_upd:
  assumes l: "links_ok names im L" and i: "ino \<noteq> 1" "sfi_type i = 1" "unat (sfi_linkcount i) = card (links names' ino)" "sfi_linkcount i = 0 \<Longrightarrow> ino \<in> L"
    and o: "\<And>k. k \<noteq> ino \<Longrightarrow> links names' k = links names k"
  shows "links_ok names' (im(ino \<mapsto> i)) L"
proof -
  have a: "k \<noteq> 1 \<and> (im(ino \<mapsto> i)) k \<noteq> None" if "names' n = Some k" for n k
  proof (cases "k = ino")
    case False
    then have "names n = Some k" using o [of k] that by blast
    then show ?thesis using l False by (simp add: links_ok_def)
  qed (use i(1) in simp)
  have b: "sfi_type j = 1 \<and> unat (sfi_linkcount j) = card (links names' k) \<and> (sfi_linkcount j = 0 \<longrightarrow> k \<in> L)"
    if "(im(ino \<mapsto> i)) k = Some j" "k \<noteq> 1" for k j
  proof (cases "k = ino")
    case False
    then show ?thesis using l that unfolding o [OF False] by (simp add: links_ok_def)
  qed (use i that in simp)
  show ?thesis unfolding links_ok_def using a b by blast
qed

lemma links_add:
  assumes l: "links_ok names im L" and n: "names n = None" and i: "im ino = Some i" "ino \<noteq> 1"
    and c: "finite (links names ino)" "card (links names ino) \<le> 1144"
  shows "links_ok (names(n \<mapsto> ino)) (im(ino \<mapsto> i\<lparr>sfi_linkcount := sfi_linkcount i + 1\<rparr>)) L"
proof -
  have s: "links (names(n \<mapsto> ino)) ino = insert n (links names ino)" "k \<noteq> ino \<Longrightarrow> links (names(n \<mapsto> ino)) k = links names k" for k using n by auto
  have li: "sfi_type i = 1" "unat (sfi_linkcount i) = card (links names ino)" using l i by (auto simp: links_ok_def)
  have "card (links (names(n \<mapsto> ino)) ino) = card (links names ino) + 1" using c(1) n unfolding s(1) by simp
  moreover have w: "unat (sfi_linkcount i + 1) = unat (sfi_linkcount i) + 1" using c(2) li(2) by (simp add: unat_word_ariths)
  ultimately have "unat (sfi_linkcount i + 1) = card (links (names(n \<mapsto> ino)) ino)" using li(2) by simp
  moreover have "sfi_linkcount i + 1 \<noteq> 0" using w by (metis add_is_0 unat_0 zero_neq_one)
  ultimately show ?thesis by (intro links_upd [OF l i(2)]) (use li(1) s(2) in simp_all)
qed

lemma links_pos:
  assumes l: "links_ok names im L" and n: "names n = Some ino" and i: "im ino = Some i" and c: "finite (links names ino)"
  shows "sfi_linkcount i \<noteq> 0"
proof -
  have "ino \<noteq> 1" using l n by (auto simp: links_ok_def)
  then have "unat (sfi_linkcount i) = card (links names ino)" using l i by (auto simp: links_ok_def)
  moreover have "card (links names ino) > 0" using c n by (auto simp: card_gt_0_iff)
  ultimately show ?thesis by (metis less_irrefl unat_0)
qed

lemma links_del:
  assumes l: "links_ok names im L" and n: "names n = Some ino" and i: "im ino = Some i" and c: "finite (links names ino)" "ino \<in> L"
  shows "links_ok (names(n := None)) (im(ino \<mapsto> i\<lparr>sfi_linkcount := sfi_linkcount i - 1\<rparr>)) L"
proof -
  have s: "links (names(n := None)) ino = links names ino - {n}" "k \<noteq> ino \<Longrightarrow> links (names(n := None)) k = links names k" for k using n by auto
  have i1: "ino \<noteq> 1" and li: "sfi_type i = 1" "unat (sfi_linkcount i) = card (links names ino)" using l i n by (auto simp: links_ok_def)
  have "card (links (names(n := None)) ino) = card (links names ino) - 1" using c(1) n unfolding s(1) by simp
  then have "unat (sfi_linkcount i - 1) = card (links (names(n := None)) ino)" using li(2) links_pos [OF l n i c(1)] by (simp add: unat_minus_one)
  then show ?thesis by (intro links_upd [OF l i1]) (use li(1) c(2) s(2) in simp_all)
qed

lemma links_new:
  assumes l: "links_ok names im L" and n: "im ino = None" "ino \<noteq> 1" and i: "sfi_type i = 1" "sfi_linkcount i = 0" and L: "insert ino L \<subseteq> L'"
  shows "links_ok names (im(ino \<mapsto> i)) L'"
proof -
  have "names x \<noteq> Some ino" for x using l n(1) unfolding links_ok_def by metis
  then have e: "links names ino = {}" by simp
  have "links_ok names im L'" using l L unfolding links_ok_def by blast
  then show ?thesis by (rule links_upd) (use n(2) i L e in simp_all)
qed

lemma links_released:
  assumes l: "links_ok (names_of sfs d) im (loaded sfs)" and r: "root_ok sfs d" and i: "im ino = Some i" "ino \<noteq> 1" and re: "released d sfs im ino lst s' im'"
  shows "links_ok (names_of sfs d) im' (loaded s')"
proof (cases "lst \<and> sfi_linkcount i = 0")
  case True
  have "unat (sfi_linkcount i) = card (links (names_of sfs d) ino)" using l i by (auto simp: links_ok_def)
  then have "links (names_of sfs d) ino = {}" using True links_bound(1) [OF r] by simp
  then show ?thesis using True l i re unfolding links_ok_def by (auto simp: released_def split: if_splits)
next
  case False
  then show ?thesis using l i re unfolding links_ok_def by (auto simp: released_def)
qed

lemma links_inode:
  assumes "links_ok names im L" "names n = Some ino"
  obtains i where "im ino = Some i" "sfi_type i = 1" "ino \<noteq> 1"
  using assms unfolding links_ok_def by blast

section \<open>Looking up\<close>

text \<open>The name is not there, or there is no memory for the vnode of its file.\<close>
definition lookup_failed :: "sfs_fs \<Rightarrow> nat \<Rightarrow> u8 list \<Rightarrow> errno \<Rightarrow> bool" where
  "lookup_failed sfs d name e \<longleftrightarrow>
     (case names_of sfs d name of None \<Rightarrow> e = ENOENT | Some ino \<Rightarrow> e = ENOMEM \<and> ino \<notin> loaded sfs)"

lemma lookonce_ok:
  assumes km: "km_kseg0 km" and inv: "fs_inv d sfs im" and new: "sfs_heap sfs new = None" and ro: "refs_ok sfs"
  shows "\<exists>r s1. sfs_lookonce km new d name sfs = Some (r, s1) \<and> same_fs d sfs im s1
    \<and> (case r of
         Inl e \<Rightarrow> loaded s1 = loaded sfs \<and> lookup_failed sfs d name e
       | Inr (p, slot) \<Rightarrow> \<exists>ino. names_of sfs d name = Some ino \<and> slot_at s1 d name slot \<and> has_ref s1 p ino
           \<and> loaded s1 = insert ino (loaded sfs) \<and> (refs s1 p = 1 \<longleftrightarrow> ino \<notin> loaded sfs))"
proof -
  have v: "volume sfs im" and r: "root_ok sfs d" and l: "links_ok (names_of sfs d) im (loaded sfs)" using inv by (simp_all add: fs_inv_def)
  from find_in_ok [OF v r, of name] obtain r1 s1 where f: "find_in d name sfs = Some (r1, s1)" "quiet d sfs im s1"
    and r1: "case names_of sfs d name of None \<Rightarrow> r1 = Inl ENOENT | Some ino \<Rightarrow> \<exists>slot. r1 = Inr (ino, slot) \<and> slot_at s1 d name slot" by blast
  note q = quiet_same_fs [OF f(2)] quiet_loaded [OF f(2)]
  have look: "sfs_lookonce km new d name sfs = (case r1 of Inl err \<Rightarrow> Some (Inl err, s1) | Inr (ino, slot) \<Rightarrow> do {
       (result, sfs) \<leftarrow> sfs_loadvnode km new ino SFS_TYPE_INVAL s1;
       case result of Inl err \<Rightarrow> Some (Inl err, sfs) | Inr p \<Rightarrow> do {
         sv \<leftarrow> sfs_heap sfs p;
         kassert (sfi_linkcount (sv_i sv) \<noteq> 0);
         Some (Inr (p, slot), sfs) } })"
    unfolding sfs_lookonce_def find_in_def [symmetric] f(1) by simp
  show ?thesis
  proof (cases "names_of sfs d name")
    case None
    then show ?thesis using r1 look q by (simp add: lookup_failed_def)
  next
    case (Some ino)
    then obtain slot where sl: "r1 = Inr (ino, slot)" "slot_at s1 d name slot" using r1 by auto
    from links_inode [OF l Some] obtain i where i: "im ino = Some i" "sfi_type i = 1" by blast
    have ops: "load_ops i = Some sfs_fileops" using i(2) by (simp add: load_ops_def)
    have s1: "volume s1 im" "root_ok s1 d" "sfs_heap s1 new = None" "refs_ok s1"
      using f(2) new ro by (simp_all add: quiet_def refs_ok_def vlist_def)
    from loadvnode_ok [OF km s1(1,2) i(1) ops s1(3,4)] obtain r2 s2 where ld: "sfs_loadvnode km new ino 0 s1 = Some (r2, s2)" "same_fs d s1 im s2"
      and r2: "case r2 of Inl e \<Rightarrow> e = ENOMEM \<and> ino \<notin> loaded s1 \<and> loaded s2 = loaded s1
       | Inr p \<Rightarrow> has_ref s2 p ino \<and> loaded s2 = insert ino (loaded s1) \<and> (sv_refcount (the (sfs_heap s2 p)) = 1 \<longleftrightarrow> ino \<notin> loaded s1)" by blast
    have sf: "same_fs d sfs im s2" by (rule same_fs_trans [OF q(1) ld(2)])
    show ?thesis
    proof (cases r2)
      case (Inl e)
      then show ?thesis using look sl ld(1) r2 sf q(2) Some by (simp add: lookup_failed_def)
    next
      case (Inr p)
      have h: "has_ref s2 p ino" using r2 Inr by simp
      have "volume s2 im" using sf by (simp add: same_fs_def)
      from ref_vnode [OF this h i(1)] obtain sv where sv: "sfs_heap s2 p = Some sv" "sv_i sv = i" by blast
      have "sfi_linkcount i \<noteq> 0" by (rule links_pos [OF l Some i(1) links_bound(1) [OF r]])
      then have "sfs_lookonce km new d name sfs = Some (Inr (p, slot), s2)" using look sl(1) ld(1) Inr sv by simp
      moreover have "slot_at s2 d name slot" using sl(2) ld(2) by (simp add: slot_at_def same_fs_def)
      ultimately show ?thesis using sf Some h r2 Inr q(2) by (auto simp: refs_def)
    qed
  qed
qed

section \<open>Steps of the operations\<close>

text \<open>The operation holds a reference to the file \<open>ino\<close>, whose vnode is at \<open>p\<close>.\<close>
definition held :: "nat \<Rightarrow> sfs_fs \<Rightarrow> (u32 \<Rightarrow> sfs_inode option) \<Rightarrow> nat \<Rightarrow> u32 \<Rightarrow> bool" where
  "held d sfs im p ino \<longleftrightarrow> fs_inv d sfs im \<and> has_ref sfs p ino \<and> ino \<noteq> 1"

definition still :: "sfs_fs \<Rightarrow> (u32 \<Rightarrow> sfs_inode option) \<Rightarrow> nat \<Rightarrow> sfs_fs \<Rightarrow> (u32 \<Rightarrow> sfs_inode option) \<Rightarrow> bool" where
  "still sfs im p s' im' \<longleftrightarrow> data_of s' im' = data_of sfs im \<and> loaded s' = loaded sfs \<and> refs s' p = refs sfs p"

lemma held_inode:
  assumes "held d sfs im p ino"
  obtains i where "volume sfs im" "root_ok sfs d" "links_ok (names_of sfs d) im (loaded sfs)" "has_ref sfs p ino" "ino \<noteq> 1" "ino \<in> loaded sfs"
    "im ino = Some i" "sfi_type i = 1" "ino \<noteq> 0" "p \<noteq> d" "unat (sfi_linkcount i) = card (links (names_of sfs d) ino)"
proof -
  have h: "volume sfs im" "root_ok sfs d" "links_ok (names_of sfs d) im (loaded sfs)" "has_ref sfs p ino" "ino \<noteq> 1"
    using assms by (simp_all add: held_def fs_inv_def)
  from h(4) obtain sv where sv: "p \<in> set (vlist sfs)" "sfs_heap sfs p = Some sv" "sv_ino sv = ino" by (auto simp: has_ref_def)
  have im: "im ino = Some (sv_i sv)" using vnode_at(2) [OF h(1) sv(1,2)] sv(3) by simp
  have "ino \<in> loaded sfs" using sv by (force simp: loaded_def ino_at_def)
  moreover have "sfi_type (sv_i sv) = 1" "unat (sfi_linkcount (sv_i sv)) = card (links (names_of sfs d) ino)"
    using h(3,5) im by (auto simp: links_ok_def)
  ultimately show thesis using that h im volume_inode(1) [OF h(1) im] ref_not_root [OF h(2,4,5)] by blast
qed

lemma link_step:
  assumes h: "held d sfs im p ino" and n: "0 \<notin> set name"
  shows "\<exists>r s1. on_vnode d (\<lambda>sfs dv. sfs_dir_link sfs dv name ino) sfs = Some (r, s1)
    \<and> (case r of
         Inl e \<Rightarrow> (\<exists>im1. held d s1 im1 p ino \<and> still sfs im p s1 im1) \<and> dlist s1 d = dlist sfs d
           \<and> (e = EEXIST \<longleftrightarrow> names_of sfs d name \<noteq> None) \<and> e \<in> {EEXIST, ENAMETOOLONG, EINVAL, ENOSPC}
       | Inr slot \<Rightarrow> names_of sfs d name = None \<and> (\<exists>s2 im2. set_linkcount (\<lambda>n. n + 1) p s1 = Some s2 \<and> held d s2 im2 p ino
           \<and> still sfs im p s2 im2 \<and> names_of s2 d = (names_of sfs d)(name \<mapsto> ino) \<and> slot_at s2 d name slot \<and> slots_kept (dlist sfs d) (dlist s2 d)))"
proof -
  obtain i where i: "volume sfs im" "root_ok sfs d" "links_ok (names_of sfs d) im (loaded sfs)" "has_ref sfs p ino" "ino \<noteq> 1" "ino \<in> loaded sfs"
    "im ino = Some i" "sfi_type i = 1" "ino \<noteq> 0" "p \<noteq> d" by (rule held_inode [OF h])
  from link_in_ok [OF i(1,2) n i(9)] obtain r s1 im1 where l: "on_vnode d (\<lambda>sfs dv. sfs_dir_link sfs dv name ino) sfs = Some (r, s1)" "rootstep d sfs im s1 im1"
    and r: "case r of
         Inr slot \<Rightarrow> names_of sfs d name = None \<and> names_of s1 d = (names_of sfs d)(name \<mapsto> ino) \<and> slot_at s1 d name slot
           \<and> slots_kept (dlist sfs d) (dlist s1 d)
       | Inl e \<Rightarrow> dlist s1 d = dlist sfs d \<and> (e = EEXIST \<longleftrightarrow> names_of sfs d name \<noteq> None) \<and> e \<in> {EEXIST, ENAMETOOLONG, EINVAL, ENOSPC}"
    by (elim exE conjE) (rule that)
  note rf = rootstep_ref [OF l(2) i(4,10)]
  have s1: "volume s1 im1" "root_ok s1 d" "data_of s1 im1 = data_of sfs im" "loaded s1 = loaded sfs" and "\<exists>x. im1 = im(1 \<mapsto> x)"
    using l(2) by (simp_all add: rootstep_def)
  then obtain x where x: "im1 = im(1 \<mapsto> x)" by blast
  have im1: "im1 ino = Some i" using x i(5,7) by simp
  show ?thesis
  proof (cases r)
    case (Inl e)
    then have "dlist s1 d = dlist sfs d" using r by simp
    then have "held d s1 im1 p ino" using s1 i(3,5) rf(1) x by (simp add: held_def fs_inv_def names_of_def)
    moreover have "still sfs im p s1 im1" using s1 rf(2) by (simp add: still_def)
    ultimately show ?thesis using l(1) r Inl by auto
  next
    case (Inr slot)
    from linkcount_ok [OF s1(1,2) rf(1) im1 i(5), of "\<lambda>n. n + 1"] obtain s2 where
      s2: "set_linkcount (\<lambda>n. n + 1) p s1 = Some s2" "volume s2 (im1(ino \<mapsto> i\<lparr>sfi_linkcount := sfi_linkcount i + 1\<rparr>))" "root_ok s2 d" "dlist s2 d = dlist s1 d"
        "data_of s2 (im1(ino \<mapsto> i\<lparr>sfi_linkcount := sfi_linkcount i + 1\<rparr>)) = data_of s1 im1" "loaded s2 = loaded s1" "has_ref s2 p ino" "refs s2 p = refs s1 p"
      by blast
    let ?im2 = "im1(ino \<mapsto> i\<lparr>sfi_linkcount := sfi_linkcount i + 1\<rparr>)"
    have na: "names_of sfs d name = None" "names_of s2 d = (names_of sfs d)(name \<mapsto> ino)" "slot_at s2 d name slot" "slots_kept (dlist sfs d) (dlist s2 d)"
      using r Inr s2(4) by (simp_all add: names_of_def slot_at_def)
    have "links_ok (names_of sfs d) im1 (loaded sfs)" using i(3) x by simp
    from links_add [OF this na(1) im1 i(5) links_bound [OF i(2)]] have "links_ok (names_of s2 d) ?im2 (loaded s2)"
      using na(2) s2(6) s1(4) by simp
    then have "held d s2 ?im2 p ino" using s2(2,3,7) i(5) by (simp add: held_def fs_inv_def)
    moreover have "still sfs im p s2 ?im2" using s2(5,6,8) s1(3,4) rf(2) by (simp add: still_def)
    ultimately show ?thesis using l(1) Inr s2(1) na by auto
  qed
qed

lemma unlink_step:
  assumes h: "held d sfs im p ino" and n: "names_of sfs d name = Some ino" "slot_at sfs d name slot"
  shows "\<exists>s1 s2 im2. on_vnode d (\<lambda>sfs dv. sfs_dir_unlink sfs dv slot) sfs = Some (Inr (), s1) \<and> drop_linkcount p s1 = Some s2
    \<and> held d s2 im2 p ino \<and> still sfs im p s2 im2 \<and> names_of s2 d = (names_of sfs d)(name := None)"
proof -
  obtain i where i: "volume sfs im" "root_ok sfs d" "links_ok (names_of sfs d) im (loaded sfs)" "has_ref sfs p ino" "ino \<noteq> 1" "ino \<in> loaded sfs"
    "im ino = Some i" "sfi_type i = 1" "ino \<noteq> 0" "p \<noteq> d" by (rule held_inode [OF h])
  from unlink_in_ok [OF i(1,2) n(2)] obtain s1 im1 where l: "on_vnode d (\<lambda>sfs dv. sfs_dir_unlink sfs dv slot) sfs = Some (Inr (), s1)"
    "rootstep d sfs im s1 im1" "names_of s1 d = (names_of sfs d)(name := None)" by blast
  note rf = rootstep_ref [OF l(2) i(4,10)]
  have s1: "volume s1 im1" "root_ok s1 d" "data_of s1 im1 = data_of sfs im" "loaded s1 = loaded sfs" and "\<exists>x. im1 = im(1 \<mapsto> x)"
    using l(2) by (simp_all add: rootstep_def)
  then obtain x where x: "im1 = im(1 \<mapsto> x)" by blast
  have im1: "im1 ino = Some i" using x i(5,7) by simp
  let ?i = "i\<lparr>sfi_linkcount := sfi_linkcount i - 1\<rparr>"
  from linkcount_ok [OF s1(1,2) rf(1) im1 i(5), of "\<lambda>n. n - 1"] obtain s2 where
    s2: "set_linkcount (\<lambda>n. n - 1) p s1 = Some s2" "volume s2 (im1(ino \<mapsto> ?i))" "root_ok s2 d" "dlist s2 d = dlist s1 d"
      "data_of s2 (im1(ino \<mapsto> ?i)) = data_of s1 im1" "loaded s2 = loaded s1" "has_ref s2 p ino" "refs s2 p = refs s1 p" by blast
  have lk: "links_ok (names_of sfs d) im1 (loaded sfs)" using i(3) x by simp
  have "names_of s2 d = (names_of sfs d)(name := None)" using l(3) s2(4) by (simp add: names_of_def)
  moreover have "links_ok ((names_of sfs d)(name := None)) (im1(ino \<mapsto> ?i)) (loaded sfs)"
    by (rule links_del [OF lk n(1) im1 links_bound(1) [OF i(2)] i(6)])
  ultimately have "held d s2 (im1(ino \<mapsto> ?i)) p ino" using s2(2,3,6,7) s1(4) i(5) by (simp add: held_def fs_inv_def)
  moreover have "still sfs im p s2 (im1(ino \<mapsto> ?i))" using s2(5,6,8) s1(3,4) rf(2) by (simp add: still_def)
  moreover have "drop_linkcount p s1 = Some s2"
  proof -
    from ref_vnode [OF s1(1) rf(1) im1] obtain sv where "sfs_heap s1 p = Some sv" "sv_i sv = i" by blast
    moreover have "0 < sfi_linkcount i" using links_pos [OF lk n(1) im1 links_bound(1) [OF i(2)]] by (simp add: word_gt_0)
    ultimately show ?thesis using s2(1) by (simp add: drop_linkcount_def)
  qed
  ultimately show ?thesis using l(1) \<open>names_of s2 d = (names_of sfs d)(name := None)\<close> by blast
qed

lemma decref_step:
  assumes h: "held d sfs im p ino"
  shows "\<exists>s' im'. vop_decref p sfs = Some s' \<and> fs_inv d s' im' \<and> names_of s' d = names_of sfs d
    \<and> loaded s' = (if refs sfs p = 1 then loaded sfs - {ino} else loaded sfs)
    \<and> data_of s' im' = (if refs sfs p = 1 \<and> links (names_of sfs d) ino = {} then (data_of sfs im)(ino := None) else data_of sfs im)"
proof -
  obtain i where i: "volume sfs im" "root_ok sfs d" "links_ok (names_of sfs d) im (loaded sfs)" "has_ref sfs p ino" "ino \<noteq> 1" "ino \<in> loaded sfs"
    "im ino = Some i" "sfi_type i = 1" "ino \<noteq> 0" "p \<noteq> d" "unat (sfi_linkcount i) = card (links (names_of sfs d) ino)" by (rule held_inode [OF h])
  from decref_ok [OF i(1,2,4,7,8)] obtain s' im' where s': "vop_decref p sfs = Some s'" "released d sfs im ino (refs sfs p = 1) s' im'" by blast
  have z: "sfi_linkcount i = 0 \<longleftrightarrow> links (names_of sfs d) ino = {}"
    using i(11) links_bound(1) [OF i(2), of ino] by (metis card_0_eq unat_eq_zero)
  have "data_of s' im' = (if refs sfs p = 1 \<and> sfi_linkcount i = 0 then (data_of sfs im)(ino := None) else data_of sfs im)"
    "names_of s' d = names_of sfs d" "loaded s' = (if refs sfs p = 1 then loaded sfs - {ino} else loaded sfs)" "volume s' im'" "root_ok s' d"
    using s'(2) unfolding released_def names_of_def Let_def i(7) option.sel by (elim conjE, simp only:)+
  then show ?thesis using s'(1) links_released [OF i(3,2,7,5) s'(2)] unfolding z fs_inv_def by (intro exI conjI) (assumption | simp only:)+
qed

section \<open>The operations\<close>

lemma links_mono: "links_ok names im L \<Longrightarrow> L \<subseteq> L' \<Longrightarrow> links_ok names im L'"
  unfolding links_ok_def by blast

lemma same_fs_inv: "fs_inv d sfs im \<Longrightarrow> same_fs d sfs im s' \<Longrightarrow> loaded sfs \<subseteq> loaded s' \<Longrightarrow> fs_inv d s' im \<and> names_of s' d = names_of sfs d"
  using links_mono by (auto simp: fs_inv_def same_fs_def names_of_def)

text \<open>A name that is looked up gives a reference to its file.\<close>
lemma lookonce_held:
  assumes inv: "fs_inv d sfs im" and sf: "same_fs d sfs im s1" and n: "names_of sfs d name = Some ino" and h: "has_ref s1 p ino"
    and l: "loaded s1 = insert ino (loaded sfs)"
  shows "held d s1 im p ino" "names_of s1 d = names_of sfs d" "data_of s1 im = data_of sfs im"
proof -
  have "links_ok (names_of sfs d) im (loaded sfs)" using inv by (simp add: fs_inv_def)
  from links_inode [OF this n] have "ino \<noteq> 1" by blast
  then show "held d s1 im p ino" "names_of s1 d = names_of sfs d" "data_of s1 im = data_of sfs im"
    using same_fs_inv [OF inv sf] l h sf by (auto simp: held_def same_fs_def)
qed

text \<open>The reference of a lookup is given up while the file has a name.\<close>
lemma decref_named:
  assumes h: "held d sfs im p ino" and n: "names_of sfs d n = Some ino" and L: "loaded sfs = insert ino L" "refs sfs p = 1 \<longleftrightarrow> ino \<notin> L"
  shows "\<exists>s' im'. vop_decref p sfs = Some s' \<and> fs_inv d s' im' \<and> names_of s' d = names_of sfs d \<and> loaded s' = L \<and> data_of s' im' = data_of sfs im"
proof -
  have "(links (names_of sfs d) ino = {}) = False" using n by blast
  from decref_step [OF h, unfolded this simp_thms if_False] obtain s' im' where "vop_decref p sfs = Some s'" "fs_inv d s' im'" "names_of s' d = names_of sfs d"
    "loaded s' = (if refs sfs p = 1 then loaded sfs - {ino} else loaded sfs)" "data_of s' im' = data_of sfs im" by blast
  then show ?thesis using L by (intro exI [of _ s'] exI [of _ im']) auto
qed

section \<open>Creating\<close>

lemma zero_inode:
  "sfi_type (inode_of (replicate 512 0)) = 0" "sfi_linkcount (inode_of (replicate 512 0)) = 0" "inode_wf (inode_of (replicate 512 0))"
  "sfi_indirect (inode_of (replicate 512 0)) = 0" "k < 15 \<Longrightarrow> sfi_direct (inode_of (replicate 512 0)) ! k = 0" "sfi_size (inode_of (replicate 512 0)) = 0"
proof -
  let ?z = "\<lparr>sfi_size = 0, sfi_type = 0, sfi_linkcount = 0, sfi_direct = replicate 15 0, sfi_indirect = 0, sfi_waste = replicate 110 0\<rparr>"
  have z: "bytes32 (replicate n 0) = replicate (4 * n) 0" for n
    by (induction n) (simp_all add: bytes32_def be32_def eval_nat_numeral)
  have "inode_bytes ?z = replicate 512 0"
    unfolding inode_bytes_def by (simp add: z be32_def be16_def flip: replicate_add replicate_Suc)
  then have "inode_of (replicate 512 0) = ?z" using inode_roundtrip(2) [of ?z] by (simp add: inode_wf_def)
  then show "sfi_type (inode_of (replicate 512 0)) = 0" "sfi_linkcount (inode_of (replicate 512 0)) = 0" "inode_wf (inode_of (replicate 512 0))"
    "sfi_indirect (inode_of (replicate 512 0)) = 0" "k < 15 \<Longrightarrow> sfi_direct (inode_of (replicate 512 0)) ! k = 0" "sfi_size (inode_of (replicate 512 0)) = 0"
    by (simp_all add: inode_wf_def)
qed

text \<open>A new file: no bytes, no blocks and no name.\<close>
definition new_inode :: sfs_inode where
  "new_inode = (inode_of (replicate 512 0))\<lparr>sfi_type := 1\<rparr>"

lemma new_inode_empty: "fmap d new_inode k = 0 \<or> \<not> k < 143" "fblocks d new_inode = {}" "finv d live new_inode" "bytes_of sfs new_inode = []"
proof -
  have z: "fmap d new_inode k = 0" if "k < 143" for k d using that zero_inode(4,5) by (simp add: fmap_def new_inode_def)
  then show "fmap d new_inode k = 0 \<or> \<not> k < 143" by blast
  show "fblocks d new_inode = {}" using z zero_inode(4) by (auto simp: fblocks_def new_inode_def)
  then show "finv d live new_inode" using z zero_inode(3) by (simp add: finv_def inode_wf_def new_inode_def)
  show "bytes_of sfs new_inode = []" using zero_inode(6) by (simp add: bytes_of_def new_inode_def)
qed

text \<open>Blocks are allocated, and no block in use changes.\<close>
lemma volume_grow:
  assumes v: "volume sfs im" and r: "root_ok sfs d" and s': "sinv s'" "slive sfs \<subseteq> slive s'" "\<forall>b\<in>slive sfs. sdisk s' ! b = sdisk sfs ! b"
    "sfs_vnodes s' = sfs_vnodes sfs" "sfs_heap s' = sfs_heap sfs"
  shows "quiet d sfs im s'"
proof -
  have rv: "\<exists>rv. d \<in> set (vlist sfs) \<and> sfs_heap sfs d = Some rv \<and> sv_ino rv = 1 \<and> dinv sfs rv \<and> vn_ok sfs im rv \<and> im 1 = Some (sv_i rv)
      \<and> unat (sv_ino rv) \<in> slive sfs"
    by (rule root_vnode [OF v r]) blast
  then obtain rv where rv: "d \<in> set (vlist sfs)" "sfs_heap sfs d = Some rv" "sv_ino rv = 1" "dinv sfs rv" "vn_ok sfs im rv" "im 1 = Some (sv_i rv)"
    "unat (sv_ino rv) \<in> slive sfs" by blast
  have fi: "finv (sdisk sfs) (slive sfs) (sv_i rv)" using rv(4) by (simp add: dinv_def vinv_def)
  then have sub: "fblocks (sdisk sfs) (sv_i rv) \<subseteq> slive sfs" by (simp add: finv_def)
  have fr: "fblocks (sdisk s') (sv_i rv) = fblocks (sdisk sfs) (sv_i rv)" "finv (sdisk s') (slive s') (sv_i rv)" "fimg s' rv = fimg sfs rv"
    by (rule finv_frame [OF fi]; use sub s'(2,3) in blast)+
  have h: "sfs_heap s' = (sfs_heap sfs)(d \<mapsto> rv)" using s'(5) rv(2) by (simp add: fun_upd_idem)
  have u: "vupd d sfs rv s' rv"
    using rv(5,7) s' fr(1,2) h unfolding vupd_def vn_ok_def by auto
  have eq: "im(sv_ino rv \<mapsto> sv_i rv) = im" using rv(3,6) by (simp add: fun_upd_idem)
  have de: "dents s' rv = dents sfs rv" using fr(3) by (simp add: dents_def)
  have "dinv s' rv" using rv(4) de s'(1) fr(2) by (simp add: dinv_def vinv_def)
  then have "root_ok s' d" using rv(1-3) s'(4,5) by (auto simp: root_ok_def vlist_def)
  then show ?thesis
    using volume_upd [OF v rv(1,2) u] data_upd(2) [OF v rv(1,2) u] eq rv(2,3) s'(4,5) de by (simp add: quiet_def dlist_def)
qed

text \<open>A block is allocated for an inode: no file has it, and it is zeroed.\<close>
definition fresh_block :: "sfs_fs \<Rightarrow> (u32 \<Rightarrow> sfs_inode option) \<Rightarrow> u32 \<Rightarrow> bool" where
  "fresh_block sfs im b \<longleftrightarrow> b \<noteq> 0 \<and> unat b \<in> slive sfs \<and> sdisk sfs ! unat b = replicate 512 0
     \<and> (\<forall>ino i. im ino = Some i \<longrightarrow> unat b \<notin> own (sdisk sfs) ino i)"

lemma balloc_fresh:
  assumes v: "volume sfs im" and r: "root_ok sfs d"
  shows "sfs_balloc sfs = Some (Inl ENOSPC, sfs) \<or> (\<exists>b s. sfs_balloc sfs = Some (Inr b, s) \<and> quiet d sfs im s \<and> fresh_block s im b)"
proof -
  have si: "sinv sfs" using v by (simp add: volume_def)
  consider "sfs_balloc sfs = Some (Inl ENOSPC, sfs)" | (ok) b s dev fm where "sfs_balloc sfs = Some (Inr b, s)"
    "s = sfs\<lparr>sfs_freemap := fm, sfs_freemapdirty := True, sfs_device := dev\<rparr>" "unat b \<notin> sused sfs" "unat b < snblocks sfs" "b \<noteq> 0"
    "bm_used fm = insert (unat b) (sused sfs)" "hd_sectors dev = (sdisk sfs)[unat b := replicate 512 0]" "sinv s"
    using sfs_balloc_ok [OF si] by blast
  then show ?thesis
  proof cases
    case (ok b s dev fm)
    have live: "slive s = insert (unat b) (slive sfs)" "unat b \<notin> slive sfs" using ok(2-4,6) by (auto simp: slive_def)
    have disk: "sdisk s ! c = sdisk sfs ! c" if "c \<noteq> unat b" for c using that ok(2,7) by simp
    have "\<forall>c\<in>slive sfs. sdisk s ! c = sdisk sfs ! c" using live(2) disk by metis
    then have q: "quiet d sfs im s" by (intro volume_grow [OF v r ok(8)]) (use live(1) ok(2) in auto)
    have "unat b \<notin> own (sdisk s) ino i" if i: "im ino = Some i" for ino i
    proof -
      note b = volume_inode [OF v i]
      have sub: "fblocks (sdisk sfs) i \<subseteq> slive sfs" using b(4) by (simp add: finv_def)
      have same: "sdisk s ! c = sdisk sfs ! c" if "c \<in> fblocks (sdisk sfs) i" for c using that sub live(2) disk by (metis subsetD)
      have "fblocks (sdisk s) i = fblocks (sdisk sfs) i" by (rule finv_frame(1) [OF b(4) same sub])
      then show ?thesis using sub live(2) b(2) by (auto simp: own_def)
    qed
    moreover have "sdisk s ! unat b = replicate 512 0" using ok(2,4,7) si by (simp add: sinv_def)
    ultimately have "fresh_block s im b" using ok(5) live(1) by (simp add: fresh_block_def)
    then show ?thesis using ok(1) q by blast
  qed blast
qed

lemma blocks_new:
  assumes b: "blocks_ok sfs im" and f: "fresh_block sfs im ino"
  shows "blocks_ok sfs (im(ino \<mapsto> new_inode))"
proof -
  have o: "own (sdisk sfs) ino new_inode = {unat ino}" by (simp add: own_def new_inode_empty)
  show ?thesis using b f new_inode_empty(2,3) unfolding blocks_ok_def fresh_block_def
    by (auto simp: o split: if_splits)
qed

text \<open>The vnode of a new file is made.\<close>
lemma load_new:
  assumes km: "km_kseg0 km" and v: "volume sfs im" and r: "root_ok sfs d" and new: "sfs_heap sfs new = None" and f: "fresh_block sfs im ino"
  shows "\<exists>r s1. sfs_loadvnode km new ino 1 sfs = Some (r, s1)
    \<and> (case r of Inl e \<Rightarrow> e = ENOMEM \<and> same_fs d sfs im s1 \<and> loaded s1 = loaded sfs
       | Inr p \<Rightarrow> same_fs d sfs (im(ino \<mapsto> new_inode)) s1 \<and> loaded s1 = insert ino (loaded sfs) \<and> has_ref s1 p ino \<and> refs s1 p = 1)"
proof -
  have h: "ka.holds (sfs_vnodes sfs) ([] @ vlist sfs)" and si: "sinv sfs" using v by (simp_all add: volume_def vtable_def)
  have nl: "ino \<notin> loaded sfs"
  proof
    assume "ino \<in> loaded sfs"
    then obtain p where p: "p \<in> set (vlist sfs)" "ino_at sfs p = ino" by (auto simp: loaded_def)
    from volume_vnode [OF v p(1)] obtain sv where "sfs_heap sfs p = Some sv" "im (sv_ino sv) = Some (sv_i sv)" by blast
    then show False using p(2) f by (auto simp: ino_at_def fresh_block_def own_def)
  qed
  then have "find (\<lambda>p. ino_at sfs p = ino) (vlist sfs) = None" by (auto simp: find_None_iff loaded_def)
  then have ls: "load_search (nat (array_getnum (sfs_vnodes sfs))) sfs ino 0 = Some None"
    using load_search_ok [OF v h, of ino] ka.holds_getnum [OF h] by simp
  have live: "unat ino \<in> slive sfs" "sdisk sfs ! unat ino = replicate 512 0" using f by (simp_all add: fresh_block_def)
  then have "unat ino < snblocks sfs" by (simp add: slive_def)
  from sfs_rblock_ok [OF si this, of 0 "replicate 512 0"] live(2) obtain dev where
    dev: "lhd_inv dev" "lhd_good dev" "hd_sectors dev = sdisk sfs"
      "sfs_rblock sfs (replicate 512 0) 0 ino = Some (Inr (), replicate 512 0, sfs\<lparr>sfs_device := dev\<rparr>)" by (auto simp: patch_def)
  let ?s1 = "sfs\<lparr>sfs_device := dev\<rparr>"
  let ?sv = "\<lparr>sv_ops = sfs_fileops, sv_refcount = 1, sv_opencount = 0, sv_i = new_inode, sv_ino = ino, sv_dirty = True\<rparr>"
  have q: "quiet d sfs im ?s1" using sinv_device [OF si dev(1,2)] dev(3) by (intro quiet_same [OF v r]) (simp_all add: slive_def)
  have ty: "load_type 1 (inode_of (replicate 512 0)) = Some (new_inode, True)" "load_ops new_inode = Some sfs_fileops"
    using zero_inode(1) by (simp_all add: load_type_def load_ops_def new_inode_def)
  have load: "sfs_loadvnode km new ino 1 sfs = (if \<not> km 544 then Some (Inl ENOMEM, sfs)
      else if lock_create km 15 = Inl () then Some (Inl ENOMEM, ?s1)
      else do { (result, vnodes) \<leftarrow> array_add km (sfs_vnodes sfs) new;
        case result of Inl err \<Rightarrow> Some (Inl err, ?s1\<lparr>sfs_vnodes := vnodes\<rparr>) | Inr _ \<Rightarrow> Some (Inr new, put_vnode new ?sv (?s1\<lparr>sfs_vnodes := vnodes\<rparr>)) })"
    using ls sfs_bused_ok [OF si live(1)] dev(4) ty
    by (auto simp: sfs_loadvnode_def vnode_init_def vnode_kill_def split: sum.splits intro!: Option.bind_cong)
  have self: "same_fs d sfs im sfs" using v r by (simp add: same_fs_def)
  have q1: "same_fs d sfs im ?s1" "loaded ?s1 = loaded sfs" "vlist ?s1 = vlist sfs" "volume ?s1 im" "root_ok ?s1 d"
    using quiet_same_fs [OF q] quiet_loaded [OF q] by (auto simp: same_fs_def)
  let ?im = "im(ino \<mapsto> new_inode)"
  have bl: "blocks_ok ?s1 ?im"
    by (rule blocks_new) (use q1(4) f dev(3) in \<open>simp_all add: volume_def fresh_block_def slive_def\<close>)
  have vn: "vn_ok ?s1 ?im ?sv" using ty(2) by (simp add: vn_ok_def)
  consider (none) "\<not> km 544 \<or> lock_create km 15 = Inl ()"
    | (fail) "km 544" "lock_create km 15 \<noteq> Inl ()" "array_add km (sfs_vnodes sfs) new = Some (Inl ENOMEM, sfs_vnodes sfs)"
    | (ok) vs where "km 544" "lock_create km 15 \<noteq> Inl ()" "array_add km (sfs_vnodes sfs) new = Some (Inr (), vs)" "ka.holds vs (vlist sfs @ [new])"
    using ka.holds_add [OF km h, of new] unfolding append_Nil by metis
  then show ?thesis
  proof cases
    case none
    then show ?thesis using load self q1 by auto
  next
    case fail
    have "?s1\<lparr>sfs_vnodes := sfs_vnodes sfs\<rparr> = ?s1" by simp
    then show ?thesis using load fail q1 by auto
  next
    case (ok vs)
    have pre: "sfs_heap ?s1 new = None" "ka.holds vs (vlist ?s1 @ [new])" "sv_ino ?sv \<notin> loaded ?s1" "\<forall>k. k \<noteq> sv_ino ?sv \<longrightarrow> im k = ?im k"
      using new ok(4) q1(2,3) nl by simp_all
    note vl = volume_add [OF q1(4) pre(1,2) vn pre(3,4) bl]
    let ?s2 = "put_vnode new ?sv (?s1\<lparr>sfs_vnodes := vs\<rparr>)"
    have "bytes_of ?s1 = bytes_of sfs" by (simp add: bytes_of_def dev(3) fun_eq_iff)
    then have "data_of ?s1 ?im = data_of sfs ?im" by (intro ext) (simp add: data_of_def)
    then have "same_fs d sfs ?im ?s2" using vl(1,4) vl(5) [OF q1(5)] q1(1) by (simp add: same_fs_def)
    moreover have "has_ref ?s2 new ino" "refs ?s2 new = 1" using vl(2) by (simp_all add: has_ref_def refs_def)
    moreover have "sfs_loadvnode km new ino 1 sfs = Some (Inr new, ?s2)" using load ok(1-3) by simp
    ultimately show ?thesis using vl(3) q1(2) by auto
  qed
qed

lemma makeobj_ok:
  assumes km: "km_kseg0 km" and inv: "fs_inv d sfs im" and new: "sfs_heap sfs new = None"
  shows "\<exists>r s1. sfs_makeobj km new 1 sfs = Some (r, s1)
    \<and> (case r of Inl e \<Rightarrow> e \<in> {ENOSPC, ENOMEM} \<and> same_fs d sfs im s1 \<and> loaded s1 = loaded sfs
       | Inr p \<Rightarrow> \<exists>ino im1. im ino = None \<and> ino \<notin> loaded sfs \<and> held d s1 im1 p ino \<and> refs s1 p = 1 \<and> loaded s1 = insert ino (loaded sfs)
           \<and> names_of s1 d = names_of sfs d \<and> data_of s1 im1 = (data_of sfs im)(ino \<mapsto> []))"
proof -
  have v: "volume sfs im" and r: "root_ok sfs d" and l: "links_ok (names_of sfs d) im (loaded sfs)" using inv by (simp_all add: fs_inv_def)
  consider (full) "sfs_balloc sfs = Some (Inl ENOSPC, sfs)"
    | (ok) b s where "sfs_balloc sfs = Some (Inr b, s)" "quiet d sfs im s" "fresh_block s im b" using balloc_fresh [OF v r] by blast
  then show ?thesis
  proof cases
    case full
    then show ?thesis using v r by (simp add: sfs_makeobj_def same_fs_def)
  next
    case (ok b s)
    note q = quiet_same_fs [OF ok(2)] quiet_loaded [OF ok(2)]
    have s: "volume s im" "root_ok s d" "sfs_heap s new = None" using ok(2) new by (simp_all add: quiet_def)
    from load_new [OF km s ok(3)] obtain r s1 where ld: "sfs_loadvnode km new b 1 s = Some (r, s1)"
      and r1: "case r of Inl e \<Rightarrow> e = ENOMEM \<and> same_fs d s im s1 \<and> loaded s1 = loaded s
       | Inr p \<Rightarrow> same_fs d s (im(b \<mapsto> new_inode)) s1 \<and> loaded s1 = insert b (loaded s) \<and> has_ref s1 p b \<and> refs s1 p = 1" by blast
    have run: "sfs_makeobj km new 1 sfs = Some (r, s1)" using ok(1) ld by (simp add: sfs_makeobj_def)
    have none: "im b = None" using ok(3) by (cases "im b") (auto simp: fresh_block_def own_def)
    from root_vnode [OF v r] have "im 1 \<noteq> None" by blast
    then have b1: "b \<noteq> 1" using none by auto
    have nl: "b \<notin> loaded sfs" using none v unfolding volume_def vtable_def loaded_def by (force simp: ino_at_def vn_ok_def)
    show ?thesis
    proof (cases r)
      case (Inl e)
      then show ?thesis using run r1 q same_fs_trans [OF q(1)] by auto
    next
      case (Inr p)
      then have p: "same_fs d s (im(b \<mapsto> new_inode)) s1" "loaded s1 = insert b (loaded s)" "has_ref s1 p b" "refs s1 p = 1" using r1 by auto
      have nm: "names_of s1 d = names_of sfs d" using p(1) q(2) by (simp add: same_fs_def names_of_def)
      have "links_ok (names_of sfs d) (im(b \<mapsto> new_inode)) (loaded s1)"
        by (rule links_new [OF l none b1]) (use p(2) q(2) zero_inode(2) in \<open>simp_all add: new_inode_def\<close>)
      then have "held d s1 (im(b \<mapsto> new_inode)) p b" using p(1,3) nm b1 by (simp add: held_def fs_inv_def same_fs_def)
      moreover have "data_of s (im(b \<mapsto> new_inode)) = (data_of s im)(b \<mapsto> [])"
        by (rule ext) (use b1 new_inode_empty(4) in \<open>simp add: data_of_def\<close>)
      then have "data_of s1 (im(b \<mapsto> new_inode)) = (data_of sfs im)(b \<mapsto> [])" using p(1) ok(2) by (simp add: same_fs_def quiet_def)
      ultimately show ?thesis using run Inr none nl p(2,4) q(2) nm by auto
    qed
  qed
qed

lemma creat_unfold:
  "find_in d name sfs = Some (r, s1) \<Longrightarrow> sfs_creat km new d name excl sfs = (case r of
     Inr (ino, _) \<Rightarrow> if excl then Some (Inl EEXIST, s1) else sfs_loadvnode km new ino SFS_TYPE_INVAL s1
   | Inl err \<Rightarrow> if err \<noteq> ENOENT then Some (Inl err, s1)
       else do {
         (result, sfs) \<leftarrow> sfs_makeobj km new SFS_TYPE_FILE s1;
         case result of Inl err \<Rightarrow> Some (Inl err, sfs) | Inr newguy \<Rightarrow> do {
           sv \<leftarrow> sfs_heap sfs newguy;
           (result, sfs) \<leftarrow> on_vnode d (\<lambda>sfs dv. sfs_dir_link sfs dv name (sv_ino sv)) sfs;
           case result of
             Inl err \<Rightarrow> do { sfs \<leftarrow> vop_decref newguy sfs; Some (Inl err, sfs) }
           | Inr _ \<Rightarrow> do { sfs \<leftarrow> set_linkcount (\<lambda>n. n + 1) newguy sfs; Some (Inr newguy, sfs) } } })"
  unfolding sfs_creat_def find_in_def [symmetric] by simp

text \<open>The vnode of a new file gets its name.\<close>
lemma creat_link:
  assumes h: "held d s1 im1 p ino" and n: "0 \<notin> set name" "names_of s1 d name = None" and one: "refs s1 p = 1" "\<forall>n. names_of s1 d n \<noteq> Some ino"
  shows "\<exists>r s' im'. do {
           sv \<leftarrow> sfs_heap s1 p;
           (result, sfs) \<leftarrow> on_vnode d (\<lambda>sfs dv. sfs_dir_link sfs dv name (sv_ino sv)) s1;
           case result of
             Inl err \<Rightarrow> do { sfs \<leftarrow> vop_decref p sfs; Some (Inl err, sfs) }
           | Inr _ \<Rightarrow> do { sfs \<leftarrow> set_linkcount (\<lambda>n. n + 1) p sfs; Some (Inr p, sfs) } } = Some (r, s') \<and> fs_inv d s' im'
    \<and> (case r of
         Inl e \<Rightarrow> e \<in> {ENAMETOOLONG, EINVAL, ENOSPC} \<and> names_of s' d = names_of s1 d \<and> data_of s' im' = (data_of s1 im1)(ino := None) \<and> loaded s' = loaded s1 - {ino}
       | Inr q \<Rightarrow> q = p \<and> has_ref s' p ino \<and> names_of s' d = (names_of s1 d)(name \<mapsto> ino) \<and> data_of s' im' = data_of s1 im1 \<and> loaded s' = loaded s1)"
proof -
  from h obtain sv where sv: "sfs_heap s1 p = Some sv" "sv_ino sv = ino" by (auto simp: held_def has_ref_def)
  from link_step [OF h n(1)] obtain r s2 where l: "on_vnode d (\<lambda>sfs dv. sfs_dir_link sfs dv name ino) s1 = Some (r, s2)"
    and r: "case r of
         Inl e \<Rightarrow> (\<exists>im2. held d s2 im2 p ino \<and> still s1 im1 p s2 im2) \<and> dlist s2 d = dlist s1 d
           \<and> (e = EEXIST \<longleftrightarrow> names_of s1 d name \<noteq> None) \<and> e \<in> {EEXIST, ENAMETOOLONG, EINVAL, ENOSPC}
       | Inr slot \<Rightarrow> names_of s1 d name = None \<and> (\<exists>s3 im3. set_linkcount (\<lambda>n. n + 1) p s2 = Some s3 \<and> held d s3 im3 p ino
           \<and> still s1 im1 p s3 im3 \<and> names_of s3 d = (names_of s1 d)(name \<mapsto> ino) \<and> slot_at s3 d name slot \<and> slots_kept (dlist s1 d) (dlist s3 d))"
    by (elim exE conjE) (rule that)
  show ?thesis
  proof (cases r)
    case (Inl e)
    then obtain im2 where f: "held d s2 im2 p ino" "still s1 im1 p s2 im2" "dlist s2 d = dlist s1 d" "e \<in> {ENAMETOOLONG, EINVAL, ENOSPC}"
      using r n(2) by auto
    have nm: "names_of s2 d = names_of s1 d" using f(3) by (simp add: names_of_def)
    have "(links (names_of s2 d) ino = {}) = True" "(refs s2 p = 1) = True" using one f(2) nm by (simp_all add: still_def)
    from decref_step [OF f(1), unfolded this simp_thms if_True] obtain s' im' where "vop_decref p s2 = Some s'" "fs_inv d s' im'"
      "names_of s' d = names_of s2 d" "loaded s' = loaded s2 - {ino}" "data_of s' im' = (data_of s2 im2)(ino := None)" by blast
    then show ?thesis using sv l Inl f(2,4) nm by (intro exI [of _ "Inl e"] exI [of _ s'] exI [of _ im']) (simp add: still_def)
  next
    case (Inr slot)
    then obtain s3 im3 where "set_linkcount (\<lambda>n. n + 1) p s2 = Some s3" "held d s3 im3 p ino" "still s1 im1 p s3 im3"
      "names_of s3 d = (names_of s1 d)(name \<mapsto> ino)" using r by auto
    then show ?thesis using sv l Inr by (intro exI [of _ "Inr p"] exI [of _ s3] exI [of _ im3]) (simp add: still_def held_def)
  qed
qed

lemma creat_new:
  assumes km: "km_kseg0 km" and inv: "fs_inv d sfs im" and new: "sfs_heap sfs new = None" and f: "find_in d name sfs = Some (Inl ENOENT, s1)" "quiet d sfs im s1"
    and n: "0 \<notin> set name" "names_of sfs d name = None"
  shows "\<exists>r s' im'. sfs_creat km new d name excl sfs = Some (r, s') \<and> fs_inv d s' im'
    \<and> (case r of
         Inl e \<Rightarrow> e \<in> {ENOMEM, ENAMETOOLONG, EINVAL, ENOSPC} \<and> names_of s' d = names_of sfs d \<and> data_of s' im' = data_of sfs im \<and> loaded s' = loaded sfs
       | Inr p \<Rightarrow> \<exists>ino. data_of sfs im ino = None \<and> ino \<notin> loaded sfs \<and> has_ref s' p ino \<and> loaded s' = insert ino (loaded sfs)
           \<and> names_of s' d = (names_of sfs d)(name \<mapsto> ino) \<and> data_of s' im' = (data_of sfs im)(ino \<mapsto> []))"
proof -
  note q = quiet_same_fs [OF f(2)] quiet_loaded [OF f(2)]
  have i1: "fs_inv d s1 im" "names_of s1 d = names_of sfs d" "loaded s1 = loaded sfs" "data_of s1 im = data_of sfs im"
    using same_fs_inv [OF inv q(1)] q by (simp_all add: same_fs_def)
  have n1: "sfs_heap s1 new = None" using f(2) new by (simp add: quiet_def)
  from makeobj_ok [OF km i1(1) n1] obtain r s2 where m: "sfs_makeobj km new 1 s1 = Some (r, s2)"
    and r: "case r of Inl e \<Rightarrow> e \<in> {ENOSPC, ENOMEM} \<and> same_fs d s1 im s2 \<and> loaded s2 = loaded s1
       | Inr p \<Rightarrow> \<exists>ino im1. im ino = None \<and> ino \<notin> loaded s1 \<and> held d s2 im1 p ino \<and> refs s2 p = 1 \<and> loaded s2 = insert ino (loaded s1)
           \<and> names_of s2 d = names_of s1 d \<and> data_of s2 im1 = (data_of s1 im)(ino \<mapsto> [])" by (elim exE conjE) (rule that)
  show ?thesis
  proof (cases r)
    case (Inl e)
    then show ?thesis using creat_unfold [OF f(1)] m r i1 same_fs_inv [OF i1(1), of s2] by (auto simp: same_fs_def)
  next
    case (Inr p)
    then obtain ino im1 where p: "im ino = None" "ino \<notin> loaded sfs" "held d s2 im1 p ino" "refs s2 p = 1" "loaded s2 = insert ino (loaded sfs)"
      "names_of s2 d = names_of sfs d" "data_of s2 im1 = (data_of sfs im)(ino \<mapsto> [])" using r i1 by auto
    have dn: "data_of sfs im ino = None" using p(1) by (simp add: data_of_def)
    have nn: "names_of s2 d name = None" using p(6) n(2) by simp
    have nl: "\<forall>n. names_of s2 d n \<noteq> Some ino" using inv p(1) unfolding p(6) fs_inv_def links_ok_def by metis
    from creat_link [OF p(3) n(1) nn p(4) nl] obtain r' s' im' where c: "do {
           sv \<leftarrow> sfs_heap s2 p;
           (result, sfs) \<leftarrow> on_vnode d (\<lambda>sfs dv. sfs_dir_link sfs dv name (sv_ino sv)) s2;
           case result of
             Inl err \<Rightarrow> do { sfs \<leftarrow> vop_decref p sfs; Some (Inl err, sfs) }
           | Inr _ \<Rightarrow> do { sfs \<leftarrow> set_linkcount (\<lambda>n. n + 1) p sfs; Some (Inr p, sfs) } } = Some (r', s')" "fs_inv d s' im'"
      and r': "case r' of
         Inl e \<Rightarrow> e \<in> {ENAMETOOLONG, EINVAL, ENOSPC} \<and> names_of s' d = names_of s2 d \<and> data_of s' im' = (data_of s2 im1)(ino := None) \<and> loaded s' = loaded s2 - {ino}
       | Inr q \<Rightarrow> q = p \<and> has_ref s' p ino \<and> names_of s' d = (names_of s2 d)(name \<mapsto> ino) \<and> data_of s' im' = data_of s2 im1 \<and> loaded s' = loaded s2"
      by (elim exE conjE) (rule that)
    have run: "sfs_creat km new d name excl sfs = Some (r', s')" using creat_unfold [OF f(1)] m Inr c(1) by simp
    have dd: "((data_of sfs im)(ino \<mapsto> []))(ino := None) = data_of sfs im" using dn by auto
    show ?thesis
    proof (cases r')
      case e: (Inl e)
      then show ?thesis using run c(2) r' p(2,5-7) dd by (intro exI [of _ r'] exI [of _ s'] exI [of _ im']) simp
    next
      case o: (Inr x)
      then show ?thesis using run c(2) r' p(2,5-7) dn by (intro exI [of _ r'] exI [of _ s'] exI [of _ im']) auto
    qed
  qed
qed

section \<open>An example volume\<close>

text \<open>
  The volume of the earlier examples with a root directory of one entry, which gives the empty
  file in inode 4 the name 8. The vnodes of both are in memory, at 100 and 101.
\<close>
definition ent_ex :: sfs_dir where
  "ent_ex = \<lparr>sfd_ino = 4, sfd_name = 8 # replicate 59 0\<rparr>"

definition root_ex :: sfs_vnode where
  "root_ex = \<lparr>sv_ops = sfs_dirops, sv_refcount = 1, sv_opencount = 0,
     sv_i = \<lparr>sfi_size = 64, sfi_type = 2, sfi_linkcount = 1, sfi_direct = 2 # replicate 14 0, sfi_indirect = 0, sfi_waste = replicate 110 0\<rparr>,
     sv_ino = 1, sv_dirty = True\<rparr>"

definition file_ex :: sfs_vnode where
  "file_ex = \<lparr>sv_ops = sfs_fileops, sv_refcount = 1, sv_opencount = 0,
     sv_i = \<lparr>sfi_size = 0, sfi_type = 1, sfi_linkcount = 1, sfi_direct = replicate 15 0, sfi_indirect = 0, sfi_waste = replicate 110 0\<rparr>,
     sv_ino = 4, sv_dirty = True\<rparr>"

definition fs_ex :: sfs_fs where
  "fs_ex = sfs_ex\<lparr>sfs_device := (sfs_device sfs_ex)\<lparr>hd_sectors := (sdisk sfs_ex)[2 := dir_bytes ent_ex @ replicate 448 0]\<rparr>,
     sfs_vnodes := \<lparr>a_num = 2, a_max = 2, a_v = Some [Val 100, Val 101]\<rparr>, sfs_heap := [100 \<mapsto> root_ex, 101 \<mapsto> file_ex]\<rparr>"

definition im_ex :: "u32 \<Rightarrow> sfs_inode option" where
  "im_ex = [1 \<mapsto> sv_i root_ex, 4 \<mapsto> sv_i file_ex]"

definition km_ex :: kmalloc_oracle where
  "km_ex b \<longleftrightarrow> b < 0x20000000"

lemma km_ex_ok: "km_kseg0 km_ex"
  by (simp add: km_kseg0_def km_ex_def)

lemma ent_ex_bytes: "length (dir_bytes ent_ex) = 64" "dir_of (dir_bytes ent_ex) = ent_ex"
  by (simp_all add: dir_roundtrip dir_wf_def ent_ex_def)

lemma fs_ex_sinv: "sinv fs_ex"
proof -
  have "lhd_inv (sfs_device fs_ex)" "lhd_good (sfs_device fs_ex)"
    using lhd_ex_ok ent_ex_bytes(1)
    by (auto simp: fs_ex_def sfs_ex_def lhd_inv_def lhd_good_def lhd_ex_def dest!: set_update_subset_insert [THEN subsetD])
  moreover have "sinv sfs_ex" using ex_vinv by (simp add: vinv_def)
  ultimately show ?thesis by (simp add: sinv_def fs_ex_def)
qed

lemma fs_ex_live: "slive fs_ex = {0, 1, 2, 4}"
  unfolding slive_def using ex_used by (auto simp: fs_ex_def sfs_ex_def)

lemma root_ex_map: "fmap dd (sv_i root_ex) k = (if k = 0 then 2 else 0)" "fblocks dd (sv_i root_ex) = {2}"
proof -
  show m: "fmap dd (sv_i root_ex) k = (if k = 0 then 2 else 0)" for k
    by (auto simp: root_ex_def fmap_def nth_Cons' nth_replicate)
  have "0 \<in> fmap dd (sv_i root_ex) ` {..<143}" "2 \<in> fmap dd (sv_i root_ex) ` {..<143}"
    using m [of 1] m [of 0] by (metis imageI lessThan_iff one_less_numeral_iff semiring_norm(77) zero_neq_one, metis imageI lessThan_iff zero_less_numeral)
  then have "fmap dd (sv_i root_ex) ` {..<143} = {0, 2}" using m by auto
  moreover have "sfi_indirect (sv_i root_ex) = 0" by (simp add: root_ex_def)
  ultimately show "fblocks dd (sv_i root_ex) = {2}" by (simp add: fblocks_def)
qed

lemma file_ex_map: "k < 143 \<Longrightarrow> fmap dd (sv_i file_ex) k = 0" "fblocks dd (sv_i file_ex) = {}"
proof -
  show m: "fmap dd (sv_i file_ex) k = 0" if "k < 143" for k using that by (simp add: fmap_def file_ex_def)
  show "fblocks dd (sv_i file_ex) = {}" using m by (auto simp: fblocks_def file_ex_def)
qed

lemma fs_ex_finv: "finv (sdisk fs_ex) (slive fs_ex) (sv_i root_ex)" "finv (sdisk fs_ex) (slive fs_ex) (sv_i file_ex)"
  unfolding finv_def fs_ex_live root_ex_map file_ex_map(2) using file_ex_map(1)
  by (auto simp: inode_wf_def root_ex_def file_ex_def)

lemma fs_ex_dents: "dents fs_ex root_ex = [ent_ex]" "dmap [ent_ex] = [[8] \<mapsto> 4]"
proof -
  have v: "vinv fs_ex root_ex" using fs_ex_sinv fs_ex_finv by (simp add: vinv_def)
  have "take 64 (drop (512 * 0 + 0) (fimg fs_ex root_ex)) = take 64 (drop 0 (fblk (sdisk fs_ex) (sv_i root_ex) 0))"
    by (rule fimg_slice [OF v]) simp_all
  moreover have "fblk (sdisk fs_ex) (sv_i root_ex) 0 = dir_bytes ent_ex @ replicate 448 0"
    by (simp add: fblk_def root_ex_map) (simp add: fs_ex_def sfs_ex_def)
  ultimately have "take 64 (fimg fs_ex root_ex) = dir_bytes ent_ex" using ent_ex_bytes(1) by simp
  moreover have "dslots root_ex = 1" by (simp add: dslots_def root_ex_def)
  ultimately show "dents fs_ex root_ex = [ent_ex]" using ent_ex_bytes(2) by (simp add: dents_def)
  have "ename ent_ex = [8]" by code_simp
  then show "dmap [ent_ex] = [[8] \<mapsto> 4]" by (simp add: dmap_def ent_ex_def)
qed

lemma fs_ex_table: "vlist fs_ex = [100, 101]" "loaded fs_ex = {1, 4}" "names_of fs_ex 100 = [[8] \<mapsto> 4]" "sfs_heap fs_ex 102 = None" "refs_ok fs_ex"
proof -
  show vl: "vlist fs_ex = [100, 101]" by (simp add: vlist_def fs_ex_def arr_list_def vblock_def)
  show "loaded fs_ex = {1, 4}" by (simp add: loaded_def vl ino_at_def) (simp add: fs_ex_def root_ex_def file_ex_def)
  have "dlist fs_ex 100 = [ent_ex]" unfolding dlist_def using fs_ex_dents(1) by (simp add: fs_ex_def)
  then show "names_of fs_ex 100 = [[8] \<mapsto> 4]" by (simp add: names_of_def fs_ex_dents(2))
  show "sfs_heap fs_ex 102 = None" by (simp add: fs_ex_def)
  show "refs_ok fs_ex" by (simp add: refs_ok_def vl) (simp add: fs_ex_def root_ex_def file_ex_def)
qed

lemma fs_ex_inv: "fs_inv 100 fs_ex im_ex"
proof -
  have vn: "vn_ok fs_ex im_ex root_ex" "vn_ok fs_ex im_ex file_ex" by (simp_all add: vn_ok_def load_ops_def im_ex_def root_ex_def file_ex_def)
  have im: "im_ex ino = Some i \<longleftrightarrow> ino = 1 \<and> i = sv_i root_ex \<or> ino = 4 \<and> i = sv_i file_ex" for ino i by (auto simp: im_ex_def)
  have bl: "blocks_ok fs_ex im_ex"
    unfolding blocks_ok_def im own_def using fs_ex_finv by (auto simp: fs_ex_live root_ex_map(2) file_ex_map(2))
  have "ka.holds (sfs_vnodes fs_ex) [100, 101]" by (simp add: ka.holds_def fs_ex_def arr_inv_def arr_list_def vblock_def)
  moreover have "inj_on (ino_at fs_ex) {100, 101}" by (simp add: ino_at_def fs_ex_def root_ex_def file_ex_def)
  moreover have "sfs_heap fs_ex 100 = Some root_ex" "sfs_heap fs_ex 101 = Some file_ex" by (simp_all add: fs_ex_def)
  ultimately have "vtable fs_ex im_ex" using vn unfolding vtable_def fs_ex_table(1,2) im by auto
  then have v: "volume fs_ex im_ex" using fs_ex_sinv bl by (simp add: volume_def)
  have "dinv fs_ex root_ex"
    using fs_ex_sinv fs_ex_finv(1) fs_ex_dents(1) by (simp add: dinv_def vinv_def names_unique_def) (simp add: root_ex_def)
  then have "root_ok fs_ex 100" by (simp add: root_ok_def fs_ex_table(1)) (simp add: fs_ex_def root_ex_def)
  moreover have "links (names_of fs_ex 100) 4 = {[8]}" by (auto simp: fs_ex_table(3))
  then have "links_ok (names_of fs_ex 100) im_ex (loaded fs_ex)"
    unfolding links_ok_def im fs_ex_table(2) by (auto simp: fs_ex_table(3) im_ex_def file_ex_def split: if_splits)
  ultimately show ?thesis using v by (simp add: fs_inv_def)
qed

lemma held_ex: "held 100 fs_ex im_ex 101 4"
  using fs_ex_inv by (simp add: held_def has_ref_def fs_ex_table(1)) (simp add: fs_ex_def file_ex_def)

section \<open>Properties\<close>

text \<open>
  C2. Creating a file, on any volume that satisfies the invariant, adds the name with a new
  empty file and leaves all other names and files as they are. When the name exists, \<open>EEXIST\<close>
  is returned in exclusive mode; otherwise the result is its file, and no name and no file
  changes. Every failure leaves names, files and the table of vnodes as they were.
\<close>
theorem sfs_creat_correct:
  assumes km: "km_kseg0 km" and inv: "fs_inv d sfs im" and new: "sfs_heap sfs new = None" and ro: "refs_ok sfs" and n: "0 \<notin> set name"
  shows "\<exists>r s' im'. sfs_creat km new d name excl sfs = Some (r, s') \<and> fs_inv d s' im'
    \<and> (case r of
         Inl e \<Rightarrow> names_of s' d = names_of sfs d \<and> data_of s' im' = data_of sfs im \<and> loaded s' = loaded sfs
           \<and> (e = EEXIST \<longleftrightarrow> excl \<and> names_of sfs d name \<noteq> None) \<and> e \<in> {EEXIST, ENOMEM, ENAMETOOLONG, EINVAL, ENOSPC}
       | Inr p \<Rightarrow> \<exists>ino. has_ref s' p ino \<and> loaded s' = insert ino (loaded sfs) \<and> names_of s' d = (names_of sfs d)(name \<mapsto> ino)
           \<and> (case names_of sfs d name of
                Some old \<Rightarrow> old = ino \<and> \<not> excl \<and> data_of s' im' = data_of sfs im
              | None \<Rightarrow> data_of sfs im ino = None \<and> ino \<notin> loaded sfs \<and> data_of s' im' = (data_of sfs im)(ino \<mapsto> [])))"
proof -
  have v: "volume sfs im" and r: "root_ok sfs d" and l: "links_ok (names_of sfs d) im (loaded sfs)" using inv by (simp_all add: fs_inv_def)
  from find_in_ok [OF v r, of name] obtain r1 s1 where f: "find_in d name sfs = Some (r1, s1)" "quiet d sfs im s1"
    and r1: "case names_of sfs d name of None \<Rightarrow> r1 = Inl ENOENT | Some ino \<Rightarrow> \<exists>slot. r1 = Inr (ino, slot) \<and> slot_at s1 d name slot" by blast
  note q = quiet_same_fs [OF f(2)] quiet_loaded [OF f(2)]
  show ?thesis
  proof (cases "names_of sfs d name")
    case None
    then have "find_in d name sfs = Some (Inl ENOENT, s1)" using f(1) r1 by simp
    from creat_new [OF km inv new this f(2) n None, of excl] None show ?thesis
      by (elim exE conjE, rename_tac r s' im', case_tac r) auto
  next
    case (Some ino)
    then obtain slot where sl: "r1 = Inr (ino, slot)" using r1 by auto
    from links_inode [OF l Some] obtain i where i: "im ino = Some i" "sfi_type i = 1" by blast
    have ops: "load_ops i = Some sfs_fileops" using i(2) by (simp add: load_ops_def)
    have s1: "volume s1 im" "root_ok s1 d" "sfs_heap s1 new = None" "refs_ok s1"
      using f(2) new ro by (simp_all add: quiet_def refs_ok_def vlist_def)
    from loadvnode_ok [OF km s1(1,2) i(1) ops s1(3,4)] obtain r2 s2 where ld: "sfs_loadvnode km new ino 0 s1 = Some (r2, s2)" "same_fs d s1 im s2"
      and r2: "case r2 of Inl e \<Rightarrow> e = ENOMEM \<and> ino \<notin> loaded s1 \<and> loaded s2 = loaded s1
       | Inr p \<Rightarrow> has_ref s2 p ino \<and> loaded s2 = insert ino (loaded s1) \<and> (sv_refcount (the (sfs_heap s2 p)) = 1 \<longleftrightarrow> ino \<notin> loaded s1)" by blast
    have sf: "same_fs d sfs im s2" by (rule same_fs_trans [OF q(1) ld(2)])
    have up: "(names_of sfs d)(name \<mapsto> ino) = names_of sfs d" using Some by (simp add: fun_upd_idem)
    show ?thesis
    proof (cases excl)
      case True
      then show ?thesis using creat_unfold [OF f(1)] sl same_fs_inv [OF inv q(1)] q Some by (auto simp: same_fs_def)
    next
      case False
      have run: "sfs_creat km new d name excl sfs = Some (r2, s2)" using creat_unfold [OF f(1)] sl ld(1) False by simp
      have "loaded sfs \<subseteq> loaded s2" using r2 q(2) by (cases r2) auto
      note keep = same_fs_inv [OF inv sf this]
      show ?thesis using run r2 keep sf q(2) Some up False
        by (intro exI [of _ r2] exI [of _ s2] exI [of _ im]) (cases r2, auto simp: same_fs_def)
    qed
  qed
qed

theorem sfs_creat_correct_witness:
  "\<exists>s'. sfs_creat km_ex 102 100 [8] True fs_ex = Some (Inl EEXIST, s') \<and> names_of s' 100 = [[8] \<mapsto> 4]"
proof -
  have "(0 :: u8) \<notin> set [8]" by simp
  from sfs_creat_correct [OF km_ex_ok fs_ex_inv fs_ex_table(4,5) this, of True] show ?thesis
    by (elim exE conjE, rename_tac r s' im', case_tac r) (auto simp: fs_ex_table(3))
qed

text \<open>
  C10. A new link to a file adds the name and counts it; no other name and no file changes. It
  fails with \<open>EEXIST\<close> exactly when the name is in use.
\<close>
theorem sfs_link_correct:
  assumes "fs_inv d sfs im" "has_ref sfs file ino" "ino \<noteq> 1" "0 \<notin> set name"
  shows "\<exists>r s' im'. sfs_link d name file sfs = Some (r, s') \<and> fs_inv d s' im' \<and> data_of s' im' = data_of sfs im \<and> loaded s' = loaded sfs
    \<and> (case r of
         Inr _ \<Rightarrow> names_of sfs d name = None \<and> names_of s' d = (names_of sfs d)(name \<mapsto> ino)
       | Inl e \<Rightarrow> names_of s' d = names_of sfs d \<and> (e = EEXIST \<longleftrightarrow> names_of sfs d name \<noteq> None) \<and> e \<in> {EEXIST, ENAMETOOLONG, EINVAL, ENOSPC})"
proof -
  have h: "held d sfs im file ino" using assms by (simp add: held_def)
  from h obtain f where f: "sfs_heap sfs file = Some f" "sv_ino f = ino" by (auto simp: held_def has_ref_def)
  from link_step [OF h assms(4)] obtain r s1 where l: "on_vnode d (\<lambda>sfs dv. sfs_dir_link sfs dv name ino) sfs = Some (r, s1)"
    and r: "case r of
         Inl e \<Rightarrow> (\<exists>im1. held d s1 im1 file ino \<and> still sfs im file s1 im1) \<and> dlist s1 d = dlist sfs d
           \<and> (e = EEXIST \<longleftrightarrow> names_of sfs d name \<noteq> None) \<and> e \<in> {EEXIST, ENAMETOOLONG, EINVAL, ENOSPC}
       | Inr slot \<Rightarrow> names_of sfs d name = None \<and> (\<exists>s2 im2. set_linkcount (\<lambda>n. n + 1) file s1 = Some s2 \<and> held d s2 im2 file ino
           \<and> still sfs im file s2 im2 \<and> names_of s2 d = (names_of sfs d)(name \<mapsto> ino) \<and> slot_at s2 d name slot \<and> slots_kept (dlist sfs d) (dlist s2 d))"
    by (elim exE conjE) (rule that)
  have run: "sfs_link d name file sfs = (case r of Inl err \<Rightarrow> Some (Inl err, s1)
      | Inr _ \<Rightarrow> map_option (\<lambda>s. (Inr (), s)) (set_linkcount (\<lambda>n. n + 1) file s1))"
    using f l by (cases r) (auto simp: sfs_link_def map_option_case split: option.splits)
  show ?thesis
  proof (cases r)
    case (Inl e)
    then show ?thesis using run r by (auto simp: held_def still_def names_of_def)
  next
    case (Inr slot)
    then show ?thesis using run r by (auto simp: held_def still_def)
  qed
qed

theorem sfs_link_correct_witness:
  "(\<exists>s'. sfs_link 100 [8] 101 fs_ex = Some (Inl EEXIST, s')) \<and> (\<exists>r s' im'. sfs_link 100 [9] 101 fs_ex = Some (r, s') \<and> fs_inv 100 s' im' \<and> r \<noteq> Inl EEXIST)"
proof -
  have h: "has_ref fs_ex 101 4" "(4 :: u32) \<noteq> 1" "(0 :: u8) \<notin> set [8]" "(0 :: u8) \<notin> set [9]" using held_ex by (simp_all add: held_def)
  from sfs_link_correct [OF fs_ex_inv h(1-3)] have "\<exists>s'. sfs_link 100 [8] 101 fs_ex = Some (Inl EEXIST, s')"
    by (elim exE conjE, rename_tac r s' im', case_tac r) (auto simp: fs_ex_table(3))
  moreover from sfs_link_correct [OF fs_ex_inv h(1,2,4)] have "\<exists>r s' im'. sfs_link 100 [9] 101 fs_ex = Some (r, s') \<and> fs_inv 100 s' im' \<and> r \<noteq> Inl EEXIST"
    by (elim exE conjE, rename_tac r s' im', case_tac r) (fastforce simp: fs_ex_table(3))+
  ultimately show ?thesis by blast
qed





end
