(* ===== verification/Sfs_Fs.thy ===== *)
theory Sfs_Fs
  imports Sfs_Nameops
begin

text \<open>
  The file system level of SFS, \<^verbatim>\<open>kern/fs/sfs/sfs_fs.c\<close>: reading and writing the free block map,
  synchronisation, unmounting and mounting. The warning about a device smaller than the volume
  is a message and is left out. \<^verbatim>\<open>vfs_mount\<close> is a parameter of \<^verbatim>\<open>sfs_mount\<close>.
\<close>

section \<open>Model\<close>

text \<open>The sectors of the map, from sector \<open>j\<close> on; the map starts at block 2.\<close>
primrec mapio_loop :: "nat \<Rightarrow> u32 \<Rightarrow> uio_rw \<Rightarrow> sfs_fs \<Rightarrow> ((errno + unit) \<times> sfs_fs) option" where
  "mapio_loop 0 j rw sfs = Some (Inr (), sfs)"
| "mapio_loop (Suc n) j rw sfs = do {
     let bitdata = bitmap_getdata (sfs_freemap sfs);
     (result, sfs) \<leftarrow>
       (if rw = UIO_READ
        then do {
          (result, bitdata, sfs) \<leftarrow> sfs_rblock sfs bitdata (unat (j * 512)) (2 + j);
          Some (result, sfs\<lparr>sfs_freemap := (sfs_freemap sfs)\<lparr>bm_v := bitdata\<rparr>\<rparr>)
        }
        else sfs_wblock sfs bitdata (unat (j * 512)) (2 + j));
     case result of Inl err \<Rightarrow> Some (Inl err, sfs) | Inr _ \<Rightarrow> mapio_loop n (j + 1) rw sfs
   }"

definition sfs_mapio :: "uio_rw \<Rightarrow> sfs_fs \<Rightarrow> ((errno + unit) \<times> sfs_fs) option" where
  "sfs_mapio rw sfs = mapio_loop (unat (SFS_BITBLOCKS (sp_nblocks (sfs_super sfs)))) 0 rw sfs"

text \<open>The results of \<^verbatim>\<open>VOP_FSYNC\<close> are ignored.\<close>
primrec sync_loop :: "nat \<Rightarrow> int \<Rightarrow> sfs_fs \<Rightarrow> sfs_fs option" where
  "sync_loop 0 i sfs = Some sfs"
| "sync_loop (Suc n) i sfs = do {
     p \<leftarrow> array_getguy (sfs_vnodes sfs) i;
     (_, sfs) \<leftarrow> vop V_fsync p (sfs_fsync p) sfs;
     sync_loop n (i + 1) sfs
   }"

definition sfs_sync :: "sfs_fs \<Rightarrow> ((errno + unit) \<times> sfs_fs) option" where
  "sfs_sync sfs = do {
     sfs \<leftarrow> sync_loop (nat (array_getnum (sfs_vnodes sfs))) 0 sfs;
     (result, sfs) \<leftarrow>
       (if sfs_freemapdirty sfs
        then do {
          (result, sfs) \<leftarrow> sfs_mapio UIO_WRITE sfs;
          Some (result, case result of Inl _ \<Rightarrow> sfs | Inr _ \<Rightarrow> sfs\<lparr>sfs_freemapdirty := False\<rparr>)
        }
        else Some (Inr (), sfs));
     case result of Inl err \<Rightarrow> Some (Inl err, sfs) | Inr _ \<Rightarrow>
       if sfs_superdirty sfs
       then do {
         (result, sfs) \<leftarrow> sfs_wblock sfs (super_bytes (sfs_super sfs)) 0 0;
         Some (result, case result of Inl _ \<Rightarrow> sfs | Inr _ \<Rightarrow> sfs\<lparr>sfs_superdirty := False\<rparr>)
       }
       else Some (Inr (), sfs)
   }"

definition sfs_getvolname :: "sfs_fs \<Rightarrow> u8 list" where
  "sfs_getvolname sfs = sp_volname (sfs_super sfs)"

text \<open>On success the file system object is gone and the device is left.\<close>
definition sfs_unmount :: "sfs_fs \<Rightarrow> (errno + lhd) option" where
  "sfs_unmount sfs =
     (if array_getnum (sfs_vnodes sfs) > 0 then Some (Inl EBUSY)
      else do {
        kassert (\<not> sfs_superdirty sfs);
        kassert (\<not> sfs_freemapdirty sfs);
        Some (Inr (sfs_device sfs))
      })"

text \<open>
  \<^verbatim>\<open>sizeof(struct sfs_fs)\<close> is 552. The fields of the new object are set before they are used;
  until then they have the value 0 here. A failure frees everything; the device stays as it is.
\<close>
definition sfs_domount :: "kmalloc_oracle \<Rightarrow> lhd \<Rightarrow> ((errno + sfs_fs) \<times> lhd) option" where
  "sfs_domount km dev =
     (if d_blocksize dev \<noteq> 512 then Some (Inl ENXIO, dev)
      else if \<not> km 552 then Some (Inl ENOMEM, dev)
      else case array_create km of Inl _ \<Rightarrow> Some (Inl ENOMEM, dev) | Inr vnodes \<Rightarrow> do {
        let sfs = \<lparr>sfs_super = super_of (replicate 512 0), sfs_superdirty = False, sfs_device = dev, sfs_vnodes = vnodes,
          sfs_freemap = \<lparr>bm_nbits = 0, bm_v = []\<rparr>, sfs_freemapdirty = False, sfs_heap = (\<lambda>_. None)\<rparr>;
        (result, buf, sfs) \<leftarrow> sfs_rblock sfs (replicate 512 0) 0 0;
        case result of Inl err \<Rightarrow> Some (Inl err, sfs_device sfs) | Inr _ \<Rightarrow> do {
          let super = super_of buf;
          if sp_magic super \<noteq> 0xabadf001 then Some (Inl EINVAL, sfs_device sfs)
          else do {
            let super = super\<lparr>sp_volname := (sp_volname super)[31 := 0]\<rparr>;
            freemap \<leftarrow> bitmap_create km (SFS_BITMAPSIZE (sp_nblocks super));
            case freemap of Inl _ \<Rightarrow> Some (Inl ENOMEM, sfs_device sfs) | Inr freemap \<Rightarrow> do {
              (result, sfs) \<leftarrow> sfs_mapio UIO_READ (sfs\<lparr>sfs_super := super, sfs_freemap := freemap\<rparr>);
              case result of
                Inl err \<Rightarrow> Some (Inl err, sfs_device sfs)
              | Inr _ \<Rightarrow> Some (Inr (sfs\<lparr>sfs_superdirty := False, sfs_freemapdirty := False\<rparr>), sfs_device sfs)
            }
          }
        }
      })"

definition sfs_mount :: "('dev \<Rightarrow> (kmalloc_oracle \<Rightarrow> lhd \<Rightarrow> ((errno + sfs_fs) \<times> lhd) option) \<Rightarrow> 'r) \<Rightarrow> 'dev \<Rightarrow> 'r" where
  "sfs_mount vfs_mount device = vfs_mount device sfs_domount"

section \<open>Synchronisation\<close>

text \<open>The bytes of all files, the root directory among them.\<close>
definition same_bytes :: "(u32 \<Rightarrow> sfs_inode option) \<Rightarrow> sfs_fs \<Rightarrow> sfs_fs \<Rightarrow> bool" where
  "same_bytes im s s' \<longleftrightarrow> (\<forall>ino i. im ino = Some i \<longrightarrow> bytes_of s' i = bytes_of s i \<and> own (sdisk s') ino i = own (sdisk s) ino i)"

lemma same_bytes_trans: "same_bytes im s s1 \<Longrightarrow> same_bytes im s1 s2 \<Longrightarrow> same_bytes im s s2"
  by (simp add: same_bytes_def)

text \<open>Blocks outside all files are written, or the device does something without effect.\<close>
lemma volume_disk:
  assumes v: "volume sfs im" and s': "sinv s'" "slive s' = slive sfs" "sfs_vnodes s' = sfs_vnodes sfs" "sfs_heap s' = sfs_heap sfs"
    and same: "\<forall>ino i b. im ino = Some i \<longrightarrow> b \<in> own (sdisk sfs) ino i \<longrightarrow> sdisk s' ! b = sdisk sfs ! b"
  shows "volume s' im" "same_bytes im sfs s'"
proof -
  have fr: "fblocks (sdisk s') i = fblocks (sdisk sfs) i" "finv (sdisk s') (slive sfs) i" "fimage (sdisk s') i = fimage (sdisk sfs) i"
    "sdisk s' ! unat ino = sdisk sfs ! unat ino" if im: "im ino = Some i" for ino i
  proof -
    note b = volume_inode [OF v im]
    have s: "sdisk s' ! c = sdisk sfs ! c" if "c \<in> fblocks (sdisk sfs) i" for c using same im that by (simp add: own_def)
    have sub: "fblocks (sdisk sfs) i \<subseteq> slive sfs" using b(4) by (simp add: finv_def)
    show "fblocks (sdisk s') i = fblocks (sdisk sfs) i" "finv (sdisk s') (slive sfs) i" "fimage (sdisk s') i = fimage (sdisk sfs) i"
      by (rule finv_frame [OF b(4) s sub]; assumption)+
    show "sdisk s' ! unat ino = sdisk sfs ! unat ino" using same im by (simp add: own_def)
  qed
  have bl: "blocks_ok s' im" using v fr unfolding volume_def blocks_ok_def own_def s'(2) by metis
  have eq: "vlist s' = vlist sfs" "ino_at s' = ino_at sfs" "loaded s' = loaded sfs"
    using s'(3,4) by (simp_all add: vlist_def ino_at_def loaded_def fun_eq_iff)
  have vn: "vn_ok s' im w" if "vn_ok sfs im w" for w using that fr(4) by (simp add: vn_ok_def)
  have "vtable s' im" using v fr(4) vn unfolding volume_def vtable_def eq s'(3,4) by metis
  then show "volume s' im" using bl s'(1) by (simp add: volume_def)
  show "same_bytes im sfs s'" using fr by (simp add: same_bytes_def bytes_of_def own_def)
qed

text \<open>The state in which the first \<open>k\<close> vnodes of the table have been written back.\<close>
definition synced :: "sfs_fs \<Rightarrow> (u32 \<Rightarrow> sfs_inode option) \<Rightarrow> nat \<Rightarrow> sfs_fs \<Rightarrow> bool" where
  "synced sfs im k s \<longleftrightarrow> volume s im \<and> same_bytes im sfs s \<and> sfs_vnodes s = sfs_vnodes sfs \<and> sfs_super s = sfs_super sfs
     \<and> sfs_freemap s = sfs_freemap sfs \<and> sfs_superdirty s = sfs_superdirty sfs \<and> sfs_freemapdirty s = sfs_freemapdirty sfs
     \<and> (\<forall>b. b \<notin> unat ` dom im \<longrightarrow> sdisk s ! b = sdisk sfs ! b) \<and> (\<forall>j<k. \<not> sv_dirty (the (sfs_heap s (vlist sfs ! j))))"

lemma fsync_step:
  assumes sy: "synced sfs im k s" and k: "k < length (vlist sfs)"
  shows "\<exists>s'. vop V_fsync (vlist sfs ! k) (sfs_fsync (vlist sfs ! k)) s = Some (Inr (), s') \<and> synced sfs im (Suc k) s'"
proof -
  let ?p = "vlist sfs ! k"
  have v: "volume s im" using sy by (simp add: synced_def)
  have vl: "vlist s = vlist sfs" using sy by (simp add: synced_def vlist_def)
  have p: "?p \<in> set (vlist s)" using k vl by simp
  from volume_vnode [OF v p] obtain sv where sv: "sfs_heap s ?p = Some sv" by blast
  note at = vnode_at [OF v p sv]
  obtain dev where d: "on_vnode ?p sfs_sync_inode s = Some (Inr (), put_vnode ?p (sv\<lparr>sv_dirty := False\<rparr>) (s\<lparr>sfs_device := dev\<rparr>))"
    "vupd ?p s sv (put_vnode ?p (sv\<lparr>sv_dirty := False\<rparr>) (s\<lparr>sfs_device := dev\<rparr>)) (sv\<lparr>sv_dirty := False\<rparr>)"
    "\<forall>c. c \<noteq> unat (sv_ino sv) \<longrightarrow> hd_sectors dev ! c = sdisk s ! c" "fimage (hd_sectors dev) (sv_i sv) = fimage (sdisk s) (sv_i sv)"
    by (rule sync_vupd [OF v p sv])
  let ?s = "put_vnode ?p (sv\<lparr>sv_dirty := False\<rparr>) (s\<lparr>sfs_device := dev\<rparr>)"
  have "im(sv_ino sv \<mapsto> sv_i sv) = im" using at(2) by (simp add: fun_upd_idem)
  then have vol: "volume ?s im" using volume_upd [OF v p sv d(2)] by simp
  have fb: "fblocks (hd_sectors dev) (sv_i sv) = fblocks (sdisk s) (sv_i sv)"
  proof (rule finv_frame(1) [OF at(3), where live' = "slive s"])
    show "hd_sectors dev ! b = sdisk s ! b" if "b \<in> fblocks (sdisk s) (sv_i sv)" for b using that at(5) d(3) by metis
  qed (use at(3) in \<open>simp add: finv_def\<close>)
  have "bytes_of ?s i = bytes_of s i \<and> own (sdisk ?s) ino i = own (sdisk s) ino i" if "im ino = Some i" for ino i
    using vupd_other(1,3) [OF v at(2) d(2) that] d(4) fb at(2) that by (cases "ino = sv_ino sv") (simp_all add: bytes_of_def own_def)
  then have sb: "same_bytes im s ?s" by (simp add: same_bytes_def)
  have run: "vop V_fsync ?p (sfs_fsync ?p) s = Some (Inr (), ?s)"
    using sv d(1) at(1) by (cases "sv_ops sv") (simp_all add: vop_def sfs_fsync_def vnode_check_def vn_ok_def)
  have disk: "sdisk ?s ! b = sdisk sfs ! b" if b: "b \<notin> unat ` dom im" for b
  proof -
    have "b \<noteq> unat (sv_ino sv)" using b at(2) by auto
    then have "hd_sectors dev ! b = sdisk s ! b" using d(3) by blast
    moreover have "sdisk s ! b = sdisk sfs ! b" using sy b by (simp add: synced_def)
    ultimately show ?thesis by simp
  qed
  have "\<not> sv_dirty (the (sfs_heap ?s (vlist sfs ! j)))" if "j < Suc k" for j
    using that sy by (cases "vlist sfs ! j = ?p") (auto simp: synced_def less_Suc_eq)
  moreover have "same_bytes im sfs ?s" using sy sb same_bytes_trans unfolding synced_def by blast
  ultimately have "synced sfs im (Suc k) ?s" using sy vol disk unfolding synced_def by (simp add: put_vnode_def)
  then show ?thesis using run by blast
qed

lemma sync_loop_ok:
  "synced sfs im k s \<Longrightarrow> k + n = length (vlist sfs) \<Longrightarrow> \<exists>s'. sync_loop n (int k) s = Some s' \<and> synced sfs im (length (vlist sfs)) s'"
proof (induction n arbitrary: k s)
  case (Suc n)
  then have k: "k < length (vlist sfs)" by simp
  from fsync_step [OF Suc.prems(1) k] obtain s' where s': "vop V_fsync (vlist sfs ! k) (sfs_fsync (vlist sfs ! k)) s = Some (Inr (), s')"
    "synced sfs im (Suc k) s'" by blast
  have "vlist s = vlist sfs" "volume s im" using Suc.prems(1) by (simp_all add: synced_def vlist_def)
  then have "array_getguy (sfs_vnodes s) (int k) = Some (vlist sfs ! k)" using ka.holds_getguy [of "sfs_vnodes s" "vlist sfs" k] k by (simp add: volume_def vtable_def)
  then show ?case using Suc.IH [OF s'(2)] Suc.prems(2) s'(1) by (simp add: add.commute)
qed simp

section \<open>The free block map\<close>

text \<open>The number of blocks of the map.\<close>
definition nmap :: "sfs_fs \<Rightarrow> nat" where
  "nmap sfs = unat (SFS_BITBLOCKS (sp_nblocks (sfs_super sfs)))"

lemma map_block:
  assumes "k < 2 ^ 22"
  shows "unat (of_nat k * 512 :: u32) = 512 * k" "unat (2 + of_nat k :: u32) = 2 + k"
proof -
  have "unat (of_nat k :: u32) = k" using assms by (simp add: unat_of_nat_u32)
  then show "unat (of_nat k * 512 :: u32) = 512 * k" "unat (2 + of_nat k :: u32) = 2 + k" using assms by (simp_all add: unat_word_ariths)
qed

lemma mapio_write_ok:
  assumes "sinv s" "k + n = m" "2 + m \<le> snblocks s" "length (bm_v (sfs_freemap s)) = 512 * m"
  shows "\<exists>dev. mapio_loop n (of_nat k) UIO_WRITE s = Some (Inr (), s\<lparr>sfs_device := dev\<rparr>) \<and> lhd_inv dev \<and> lhd_good dev
    \<and> length (hd_sectors dev) = length (sdisk s)
    \<and> (\<forall>c. hd_sectors dev ! c = (if 2 + k \<le> c \<and> c < 2 + m then take 512 (drop (512 * (c - 2)) (bm_v (sfs_freemap s))) else sdisk s ! c))"
  using assms
proof (induction n arbitrary: k s)
  case 0
  then show ?case by (intro exI [of _ "sfs_device s"]) (auto simp: sinv_def)
next
  case (Suc n)
  let ?v = "bm_v (sfs_freemap s)"
  have k: "k < m" "k < 2 ^ 22" using Suc.prems(2,3) snblocks_small [OF Suc.prems(1)] by simp_all
  note nk = map_block [OF k(2)]
  have b: "unat (2 + of_nat k :: u32) < snblocks s" "512 * k + 512 \<le> length ?v" using nk(2) k(1) Suc.prems(3,4) by simp_all
  from sfs_wblock_ok [OF Suc.prems(1) b] obtain dev where
    w: "lhd_inv dev" "lhd_good dev" "hd_sectors dev = (sdisk s)[2 + k := take 512 (drop (512 * k) ?v)]"
      "sfs_wblock s ?v (512 * k) (2 + of_nat k) = Some (Inr (), s\<lparr>sfs_device := dev\<rparr>)" unfolding nk(2) by blast
  let ?s = "s\<lparr>sfs_device := dev\<rparr>"
  have "sinv ?s" using sinv_device [OF Suc.prems(1) w(1,2)] w(3) by simp
  from Suc.IH [OF this, of "Suc k"] Suc.prems obtain dev' where d: "mapio_loop n (of_nat (Suc k)) UIO_WRITE ?s = Some (Inr (), s\<lparr>sfs_device := dev'\<rparr>)"
    "lhd_inv dev'" "lhd_good dev'" "length (hd_sectors dev') = length (sdisk s)"
    "\<forall>c. hd_sectors dev' ! c = (if 2 + Suc k \<le> c \<and> c < 2 + m then take 512 (drop (512 * (c - 2)) ?v) else hd_sectors dev ! c)"
    by (auto simp: w(3))
  have len: "2 + k < length (sdisk s)" using Suc.prems(1,3) k(1) by (simp add: sinv_def)
  have "hd_sectors dev' ! c = (if 2 + k \<le> c \<and> c < 2 + m then take 512 (drop (512 * (c - 2)) ?v) else sdisk s ! c)" for c
    using d(5) w(3) len k(1) by (cases "c = 2 + k") (auto simp: not_less_eq_eq)
  moreover have "mapio_loop (Suc n) (of_nat k) UIO_WRITE s = Some (Inr (), s\<lparr>sfs_device := dev'\<rparr>)"
    using w(4) d(1) nk(1) by (simp add: bitmap_getdata_def add.commute)
  ultimately show ?case using d(2-4) by (intro exI [of _ dev']) blast
qed

lemma device_inj: "t\<lparr>sfs_device := a\<rparr> = t\<lparr>sfs_device := b\<rparr> \<longleftrightarrow> a = b"
  by (cases t) simp

text \<open>Reading depends on the device only.\<close>
lemma rblock_device:
  "sfs_device s = sfs_device t \<Longrightarrow> sfs_rblock t buf off b = Some (r, buf', t\<lparr>sfs_device := dev\<rparr>) \<Longrightarrow>
    sfs_rblock s buf off b = Some (r, buf', s\<lparr>sfs_device := dev\<rparr>)"
  by (cases "retry_io 10 lhd_io (sfs_device t) (SFSUIO buf off b UIO_READ)")
    (auto simp: sfs_rblock_def sfs_rwblock_def device_inj)

lemma mapio_read_ok:
  assumes "sinv t" "sfs_device s = sfs_device t" "k + n = m" "2 + m \<le> snblocks t" "length (bm_v (sfs_freemap s)) = 512 * m"
  shows "\<exists>dev. mapio_loop n (of_nat k) UIO_READ s = Some (Inr (), s\<lparr>sfs_device := dev,
        sfs_freemap := (sfs_freemap s)\<lparr>bm_v := take (512 * k) (bm_v (sfs_freemap s)) @ concat (map (\<lambda>c. sdisk t ! (2 + c)) [k..<m])\<rparr>\<rparr>)
    \<and> lhd_inv dev \<and> lhd_good dev \<and> hd_sectors dev = sdisk t"
  using assms
proof (induction n arbitrary: k s t)
  case 0
  then show ?case by (intro exI [of _ "sfs_device t"]) (simp add: sinv_def)
next
  case (Suc n)
  let ?v = "bm_v (sfs_freemap s)" and ?x = "sdisk t ! (2 + k)"
  have k: "k < m" "k < 2 ^ 22" using Suc.prems(3,4) snblocks_small [OF Suc.prems(1)] by simp_all
  note nk = map_block [OF k(2)]
  have b: "unat (2 + of_nat k :: u32) < snblocks t" "512 * k + 512 \<le> length ?v" using nk(2) k(1) Suc.prems(4,5) by simp_all
  have len: "length ?x = 512" using sdisk_length [OF Suc.prems(1), of "2 + k"] b(1) nk(2) by simp
  from sfs_rblock_ok [OF Suc.prems(1) b] obtain dev where
    w: "lhd_inv dev" "lhd_good dev" "hd_sectors dev = sdisk t"
      "sfs_rblock t ?v (512 * k) (2 + of_nat k) = Some (Inr (), patch ?v (512 * k) ?x, t\<lparr>sfs_device := dev\<rparr>)" unfolding nk(2) by blast
  let ?v' = "patch ?v (512 * k) ?x"
  let ?s = "s\<lparr>sfs_device := dev, sfs_freemap := (sfs_freemap s)\<lparr>bm_v := ?v'\<rparr>\<rparr>" and ?t = "t\<lparr>sfs_device := dev\<rparr>"
  have "sinv ?t" "length ?v' = 512 * m" using sinv_device [OF Suc.prems(1) w(1,2)] w(3) b(2) len Suc.prems(5) by simp_all
  from Suc.IH [OF this(1), of ?s "Suc k"] this(2) Suc.prems(3,4) w(3) obtain dev' where
    d: "mapio_loop n (of_nat (Suc k)) UIO_READ ?s = Some (Inr (), ?s\<lparr>sfs_device := dev',
        sfs_freemap := (sfs_freemap ?s)\<lparr>bm_v := take (512 * Suc k) ?v' @ concat (map (\<lambda>c. sdisk t ! (2 + c)) [Suc k..<m])\<rparr>\<rparr>)"
      "lhd_inv dev'" "lhd_good dev'" "hd_sectors dev' = sdisk t" by auto
  have "take (512 * Suc k) ?v' = take (512 * k) ?v @ ?x" using len b(2) by (simp add: patch_def)
  moreover have "[k..<m] = k # [Suc k..<m]" using k(1) by (simp add: upt_conv_Cons)
  ultimately have "take (512 * Suc k) ?v' @ concat (map (\<lambda>c. sdisk t ! (2 + c)) [Suc k..<m])
      = take (512 * k) ?v @ concat (map (\<lambda>c. sdisk t ! (2 + c)) [k..<m])" by simp
  moreover have "mapio_loop (Suc n) (of_nat k) UIO_READ s = mapio_loop n (of_nat (Suc k)) UIO_READ ?s"
    using rblock_device [OF Suc.prems(2) w(4)] nk(1) by (simp add: bitmap_getdata_def add.commute)
  ultimately show ?case using d by (intro exI [of _ dev']) simp
qed

lemma concat_slices: "length v = 512 * m \<Longrightarrow> concat (map (\<lambda>c. take 512 (drop (512 * c) v)) [0..<m]) = v"
proof (induction m arbitrary: v)
  case (Suc m)
  have "concat (map (\<lambda>c. take 512 (drop (512 * c) v)) [0..<m]) = concat (map (\<lambda>c. take 512 (drop (512 * c) (take (512 * m) v))) [0..<m])"
    by (intro arg_cong [where f = concat] map_cong) (auto simp: drop_take min_def)
  also have "\<dots> = take (512 * m) v" using Suc.prems by (intro Suc.IH) simp
  finally have "concat (map (\<lambda>c. take 512 (drop (512 * c) v)) [0..<Suc m]) = take (512 * m) v @ take 512 (drop (512 * m) v)" by simp
  also have "take 512 (drop (512 * m) v) = drop (512 * m) v" using Suc.prems by simp
  finally show ?case by simp
qed simp

section \<open>The blocks of the volume itself\<close>

text \<open>The superblock, block 0, and the map belong to no file; what is not marked dirty is on the disk.\<close>
definition layout :: "sfs_fs \<Rightarrow> (u32 \<Rightarrow> sfs_inode option) \<Rightarrow> bool" where
  "layout sfs im \<longleftrightarrow> super_wf (sfs_super sfs) \<and> sp_magic (sfs_super sfs) = 0xabadf001 \<and> sp_volname (sfs_super sfs) ! 31 = 0
     \<and> bm_nbits (sfs_freemap sfs) = SFS_BITMAPSIZE (sp_nblocks (sfs_super sfs)) \<and> 2 + nmap sfs \<le> snblocks sfs
     \<and> (\<forall>ino i. im ino = Some i \<longrightarrow> own (sdisk sfs) ino i \<inter> insert 0 {2..<2 + nmap sfs} = {})
     \<and> (\<not> sfs_superdirty sfs \<longrightarrow> sdisk sfs ! 0 = super_bytes (sfs_super sfs))
     \<and> (\<not> sfs_freemapdirty sfs \<longrightarrow> (\<forall>c<nmap sfs. sdisk sfs ! (2 + c) = take 512 (drop (512 * c) (bm_v (sfs_freemap sfs)))))"

lemma bitmap_size: "unat (SFS_BITMAPSIZE n) = 4096 * unat (SFS_BITBLOCKS n)"
proof -
  define y where "y = (n + 4096 - 1) div 4096"
  have "unat y = unat (n + 4096 - 1) div 4096" by (simp add: y_def unat_div)
  moreover have "unat (n + 4096 - 1) < 2 ^ 32" using unsigned_less [of "n + 4096 - 1"] by simp
  ultimately have y: "unat y < 2 ^ 20" by simp
  then have m: "unat (y * 4096) = 4096 * unat y" by (simp add: unat_word_ariths)
  have "unat (y * 4096 div 4096) = unat y" by (simp add: unat_div m)
  then show ?thesis using m by (simp add: SFS_BITMAPSIZE_def SFS_BITBLOCKS_def y_def)
qed

lemma layout_map:
  assumes "sinv sfs" "layout sfs im"
  shows "length (bm_v (sfs_freemap sfs)) = 512 * nmap sfs"
proof -
  have "length (bm_v (sfs_freemap sfs)) = (unat (bm_nbits (sfs_freemap sfs)) + 7) div 8" using assms(1) by (simp add: sinv_def bm_inv_def)
  moreover have "unat (bm_nbits (sfs_freemap sfs)) = 4096 * nmap sfs" using assms(2) bitmap_size by (simp add: layout_def nmap_def)
  ultimately show ?thesis by simp
qed

text \<open>What the last steps of synchronisation keep.\<close>
definition stays :: "(u32 \<Rightarrow> sfs_inode option) \<Rightarrow> sfs_fs \<Rightarrow> sfs_fs \<Rightarrow> bool" where
  "stays im s s' \<longleftrightarrow> volume s' im \<and> layout s' im \<and> same_bytes im s s' \<and> sfs_vnodes s' = sfs_vnodes s \<and> sfs_heap s' = sfs_heap s
     \<and> sfs_super s' = sfs_super s \<and> sfs_freemap s' = sfs_freemap s"

lemma stays_trans: "stays im s s1 \<Longrightarrow> stays im s1 s2 \<Longrightarrow> stays im s s2"
  using same_bytes_trans by (auto simp: stays_def)

text \<open>Reserved blocks are written and a flag is cleared.\<close>
lemma stays_write:
  assumes v: "volume s im" and l: "layout s im" and dev: "lhd_inv dev" "lhd_good dev" "length (hd_sectors dev) = length (sdisk s)"
    and same: "\<forall>c. c \<notin> insert 0 {2..<2 + nmap s} \<longrightarrow> hd_sectors dev ! c = sdisk s ! c"
    and s': "s' = s\<lparr>sfs_device := dev, sfs_superdirty := sd, sfs_freemapdirty := fd\<rparr>"
    and sd: "\<not> sd \<Longrightarrow> hd_sectors dev ! 0 = super_bytes (sfs_super s)"
    and fd: "\<not> fd \<Longrightarrow> \<forall>c<nmap s. hd_sectors dev ! (2 + c) = take 512 (drop (512 * c) (bm_v (sfs_freemap s)))"
  shows "stays im s s'"
proof -
  have si: "sinv s" using v by (simp add: volume_def)
  have si': "sinv s'" using sinv_device [OF si dev] by (simp add: s' sinv_def)
  have "sdisk s' ! b = sdisk s ! b" if "im ino = Some i" "b \<in> own (sdisk s) ino i" for ino i b
  proof -
    have "own (sdisk s) ino i \<inter> insert 0 {2..<2 + nmap s} = {}" using l that(1) by (simp add: layout_def)
    then have "b \<notin> insert 0 {2..<2 + nmap s}" using that(2) by blast
    then have "hd_sectors dev ! b = sdisk s ! b" using same by blast
    then show ?thesis by (simp add: s')
  qed
  then have "\<forall>ino i b. im ino = Some i \<longrightarrow> b \<in> own (sdisk s) ino i \<longrightarrow> sdisk s' ! b = sdisk s ! b" by blast
  moreover have "slive s' = slive s" "sfs_vnodes s' = sfs_vnodes s" "sfs_heap s' = sfs_heap s" by (simp_all add: s' slive_def)
  ultimately have vd: "volume s' im" "same_bytes im s s'" using volume_disk [OF v si'] by blast+
  have "own (sdisk s') ino i = own (sdisk s) ino i" if "im ino = Some i" for ino i using vd(2) that by (simp add: same_bytes_def)
  moreover have "nmap s' = nmap s" by (simp add: nmap_def s')
  ultimately have "layout s' im" using l sd fd unfolding layout_def by (auto simp: s')
  then show ?thesis using vd by (simp add: stays_def s')
qed

lemma sync_map:
  assumes v: "volume s im" and l: "layout s im"
  obtains s' where "(if sfs_freemapdirty s then do {
      (result, sfs) \<leftarrow> sfs_mapio UIO_WRITE s;
      Some (result, case result of Inl _ \<Rightarrow> sfs | Inr _ \<Rightarrow> sfs\<lparr>sfs_freemapdirty := False\<rparr>) } else Some (Inr (), s)) = Some (Inr (), s')"
    "stays im s s'" "\<not> sfs_freemapdirty s'"
proof (cases "sfs_freemapdirty s")
  case True
  have si: "sinv s" using v by (simp add: volume_def)
  have b: "2 + nmap s \<le> snblocks s" using l by (simp add: layout_def)
  from mapio_write_ok [OF si _ b layout_map [OF si l], of 0 "nmap s"] obtain dev where
    d: "sfs_mapio UIO_WRITE s = Some (Inr (), s\<lparr>sfs_device := dev\<rparr>)" "lhd_inv dev" "lhd_good dev" "length (hd_sectors dev) = length (sdisk s)"
      "\<forall>c. hd_sectors dev ! c = (if 2 \<le> c \<and> c < 2 + nmap s then take 512 (drop (512 * (c - 2)) (bm_v (sfs_freemap s))) else sdisk s ! c)"
    by (auto simp: sfs_mapio_def nmap_def)
  let ?s = "s\<lparr>sfs_device := dev, sfs_freemapdirty := False\<rparr>"
  have "stays im s ?s"
    by (rule stays_write [OF v l d(2-4), where sd = "sfs_superdirty s" and fd = False]) (use d(5) l in \<open>auto simp: layout_def\<close>)
  then show thesis using that True d(1) by simp
next
  case False
  have "same_bytes im s s" by (simp add: same_bytes_def)
  then show thesis using that [of s] False v l by (simp add: stays_def)
qed

lemma sync_super:
  assumes v: "volume s im" and l: "layout s im" and f: "\<not> sfs_freemapdirty s"
  obtains s' where "(if sfs_superdirty s then do {
      (result, sfs) \<leftarrow> sfs_wblock s (super_bytes (sfs_super s)) 0 0;
      Some (result, case result of Inl _ \<Rightarrow> sfs | Inr _ \<Rightarrow> sfs\<lparr>sfs_superdirty := False\<rparr>) } else Some (Inr (), s)) = Some (Inr (), s')"
    "stays im s s'" "\<not> sfs_freemapdirty s'" "\<not> sfs_superdirty s'"
proof (cases "sfs_superdirty s")
  case True
  have si: "sinv s" using v by (simp add: volume_def)
  have b: "unat (0 :: u32) < snblocks s" using l by (simp add: layout_def)
  have len: "length (super_bytes (sfs_super s)) = 512" using l super_roundtrip(1) by (simp add: layout_def)
  from sfs_wblock_ok [OF si b, of 0 "super_bytes (sfs_super s)"] len obtain dev where
    d: "lhd_inv dev" "lhd_good dev" "hd_sectors dev = (sdisk s)[0 := super_bytes (sfs_super s)]"
      "sfs_wblock s (super_bytes (sfs_super s)) 0 0 = Some (Inr (), s\<lparr>sfs_device := dev\<rparr>)" by auto
  have n: "0 < length (sdisk s)" using si b unfolding sinv_def by linarith
  let ?s = "s\<lparr>sfs_device := dev, sfs_superdirty := False\<rparr>"
  have "stays im s ?s"
    by (rule stays_write [OF v l d(1,2), where sd = False and fd = False]) (use d(3) n l f in \<open>auto simp: layout_def\<close>)
  then show thesis using that True d(4) f by simp
next
  case False
  have "same_bytes im s s" by (simp add: same_bytes_def)
  then show thesis using that [of s] False v l f by (simp add: stays_def)
qed

lemma synced_layout:
  assumes l: "layout sfs im" and s: "synced sfs im k s"
  shows "layout s im"
proof -
  have o: "own (sdisk s) ino i = own (sdisk sfs) ino i" if "im ino = Some i" for ino i using s that by (simp add: synced_def same_bytes_def)
  have r: "own (sdisk sfs) ino i \<inter> insert 0 {2..<2 + nmap sfs} = {}" if "im ino = Some i" for ino i using l that unfolding layout_def by blast
  have "b \<notin> unat ` dom im" if b: "b \<in> insert 0 {2..<2 + nmap sfs}" for b
  proof
    assume "b \<in> unat ` dom im"
    then obtain ino i where "im ino = Some i" "b = unat ino" by blast
    then show False using r [of ino i] b unfolding own_def by blast
  qed
  then have disk: "sdisk s ! b = sdisk sfs ! b" if "b \<in> insert 0 {2..<2 + nmap sfs}" for b using s that unfolding synced_def by blast
  have eq: "sfs_super s = sfs_super sfs" "sfs_freemap s = sfs_freemap sfs" "sfs_superdirty s = sfs_superdirty sfs" "sfs_freemapdirty s = sfs_freemapdirty sfs"
    using s by (simp_all add: synced_def)
  have "nmap s = nmap sfs" by (simp add: nmap_def eq)
  then show ?thesis using l o disk unfolding layout_def eq by auto
qed

text \<open>Everything is on the disk.\<close>
definition clean :: "sfs_fs \<Rightarrow> (u32 \<Rightarrow> sfs_inode option) \<Rightarrow> bool" where
  "clean s im \<longleftrightarrow> \<not> sfs_superdirty s \<and> \<not> sfs_freemapdirty s \<and> (\<forall>ino i. im ino = Some i \<longrightarrow> sdisk s ! unat ino = inode_bytes i)"

lemma vnodes_clean:
  assumes v: "volume s im" and c: "\<forall>p\<in>set (vlist s). \<not> sv_dirty (the (sfs_heap s p))" and i: "im ino = Some i"
  shows "sdisk s ! unat ino = inode_bytes i"
proof (cases "ino \<in> loaded s")
  case True
  then obtain p where p: "p \<in> set (vlist s)" "ino_at s p = ino" by (auto simp: loaded_def)
  from volume_vnode [OF v p(1)] obtain sv where "sfs_heap s p = Some sv" "vn_ok s im sv" by blast
  then show ?thesis using c p i by (auto simp: vn_ok_def ino_at_def)
next
  case False
  then show ?thesis using v i by (auto simp: volume_def vtable_def)
qed

lemma sfs_sync_ok:
  assumes v: "volume sfs im" and l: "layout sfs im"
  shows "\<exists>s'. sfs_sync sfs = Some (Inr (), s') \<and> volume s' im \<and> layout s' im \<and> clean s' im \<and> same_bytes im sfs s'
    \<and> sfs_super s' = sfs_super sfs \<and> sfs_freemap s' = sfs_freemap sfs \<and> sfs_vnodes s' = sfs_vnodes sfs"
proof -
  have h: "ka.holds (sfs_vnodes sfs) (vlist sfs)" using v by (simp add: volume_def vtable_def)
  have "synced sfs im 0 sfs" using v by (simp add: synced_def same_bytes_def)
  from sync_loop_ok [OF this, of "length (vlist sfs)"] obtain s1 where
    s1: "sync_loop (nat (array_getnum (sfs_vnodes sfs))) 0 sfs = Some s1" "synced sfs im (length (vlist sfs)) s1" using ka.holds_getnum [OF h] by auto
  have v1: "volume s1 im" and l1: "layout s1 im" using s1(2) synced_layout [OF l] by (simp_all add: synced_def)
  from sync_map [OF v1 l1] obtain s2 where s2: "(if sfs_freemapdirty s1 then do {
      (result, sfs) \<leftarrow> sfs_mapio UIO_WRITE s1;
      Some (result, case result of Inl _ \<Rightarrow> sfs | Inr _ \<Rightarrow> sfs\<lparr>sfs_freemapdirty := False\<rparr>) } else Some (Inr (), s1)) = Some (Inr (), s2)"
    "stays im s1 s2" "\<not> sfs_freemapdirty s2" by blast
  then have v2: "volume s2 im" and l2: "layout s2 im" by (simp_all add: stays_def)
  from sync_super [OF v2 l2 s2(3)] obtain s3 where s3: "(if sfs_superdirty s2 then do {
      (result, sfs) \<leftarrow> sfs_wblock s2 (super_bytes (sfs_super s2)) 0 0;
      Some (result, case result of Inl _ \<Rightarrow> sfs | Inr _ \<Rightarrow> sfs\<lparr>sfs_superdirty := False\<rparr>) } else Some (Inr (), s2)) = Some (Inr (), s3)"
    "stays im s2 s3" "\<not> sfs_freemapdirty s3" "\<not> sfs_superdirty s3" by blast
  have run: "sfs_sync sfs = Some (Inr (), s3)" using s1(1) s2(1) s3(1) unfolding sfs_sync_def by simp
  have st: "stays im s1 s3" by (rule stays_trans [OF s2(2) s3(2)])
  then have v3: "volume s3 im" and eq: "sfs_heap s3 = sfs_heap s1" "vlist s3 = vlist sfs" using s1(2) by (simp_all add: stays_def synced_def vlist_def)
  have "\<forall>p\<in>set (vlist s3). \<not> sv_dirty (the (sfs_heap s3 p))" using s1(2) unfolding eq synced_def by (auto simp: in_set_conv_nth)
  then have "clean s3 im" using vnodes_clean [OF v3] s3(3,4) by (simp add: clean_def)
  moreover have "same_bytes im sfs s3" using s1(2) st same_bytes_trans by (auto simp: synced_def stays_def)
  ultimately show ?thesis using run st s1(2) by (auto simp: stays_def synced_def)
qed

section \<open>Mounting\<close>

lemma bitmap_create_blocks:
  assumes "km 8" "km (of_nat (512 * m))" "unat nbits = 4096 * m"
  shows "bitmap_create km nbits = Some (Inr \<lparr>bm_nbits = nbits, bm_v = replicate (512 * m) 0\<rparr>)"
proof -
  have "unat nbits < 2 ^ 32" using unsigned_less [of nbits] by simp
  then have "m < 1048576" using assms(3) by simp
  then have "unat nbits + 7 < 2 ^ 32" using assms(3) by simp
  then have "unat (nbits + 8 - 1) = unat nbits + 7" using assms(3) by (simp add: unat_word_ariths add_diff_eq [symmetric])
  then have w: "unat (DIVROUNDUP nbits 8) = 512 * m" using assms(3) by (simp add: DIVROUNDUP_def unat_div)
  then have eq: "DIVROUNDUP nbits 8 = of_nat (512 * m)" by (metis of_nat_unat ucast_id)
  have "\<not> nbits div 8 < DIVROUNDUP nbits 8" using w assms(3) by (simp add: word_less_nat_alt unat_div)
  then show ?thesis using assms(1,2) w eq by (simp add: bitmap_create_def Let_def)
qed

lemma sfs_domount_ok:
  assumes si: "sinv t" and l: "layout t im" and c: "clean t im" and km: "\<forall>b\<in>{552, 12, 8, of_nat (512 * nmap t)}. km b"
  shows "\<exists>dev. sfs_domount km (sfs_device t) = Some (Inr (t\<lparr>sfs_vnodes := \<lparr>a_num = 0, a_max = 0, a_v = None\<rparr>, sfs_heap := (\<lambda>_. None), sfs_device := dev\<rparr>), dev)
    \<and> lhd_inv dev \<and> lhd_good dev \<and> hd_sectors dev = sdisk t"
proof -
  let ?vs = "\<lparr>a_num = 0, a_max = 0, a_v = None\<rparr> :: nat karray"
  have lay: "super_wf (sfs_super t)" "sp_magic (sfs_super t) = 0xabadf001" "sp_volname (sfs_super t) ! 31 = 0" "2 + nmap t \<le> snblocks t"
    "bm_nbits (sfs_freemap t) = SFS_BITMAPSIZE (sp_nblocks (sfs_super t))" "sdisk t ! 0 = super_bytes (sfs_super t)"
    "\<And>k. k < nmap t \<Longrightarrow> sdisk t ! (2 + k) = take 512 (drop (512 * k) (bm_v (sfs_freemap t)))"
    using l c by (simp_all add: layout_def clean_def)
  have dirty: "\<not> sfs_superdirty t" "\<not> sfs_freemapdirty t" using c by (simp_all add: clean_def)
  have bs: "d_blocksize (sfs_device t) = 512" using si by (simp add: sinv_def lhd_inv_def)
  have b: "unat (0 :: u32) < snblocks t" using lay(4) by simp
  have len: "length (super_bytes (sfs_super t)) = 512" "super_of (super_bytes (sfs_super t)) = sfs_super t" using super_roundtrip lay(1) by simp_all
  from sfs_rblock_ok [OF si b, of 0 "replicate 512 0"] len(1) lay(6) obtain dev where
    r: "lhd_inv dev" "lhd_good dev" "hd_sectors dev = sdisk t"
      "sfs_rblock t (replicate 512 0) 0 0 = Some (Inr (), super_bytes (sfs_super t), t\<lparr>sfs_device := dev\<rparr>)" by (auto simp: patch_def)
  let ?s0 = "\<lparr>sfs_super = super_of (replicate 512 0), sfs_superdirty = False, sfs_device = sfs_device t, sfs_vnodes = ?vs,
      sfs_freemap = \<lparr>bm_nbits = 0, bm_v = []\<rparr>, sfs_freemapdirty = False, sfs_heap = (\<lambda>_. None)\<rparr>"
  have r0: "sfs_rblock ?s0 (replicate 512 0) 0 0 = Some (Inr (), super_bytes (sfs_super t), ?s0\<lparr>sfs_device := dev\<rparr>)"
    by (rule rblock_device [OF _ r(4)]) simp
  have vn: "(sp_volname (sfs_super t))[31 := 0] = sp_volname (sfs_super t)" using lay(1,3) by (metis list_update_id)
  have cr: "bitmap_create km (SFS_BITMAPSIZE (sp_nblocks (sfs_super t))) = Some (Inr \<lparr>bm_nbits = bm_nbits (sfs_freemap t), bm_v = replicate (512 * nmap t) 0\<rparr>)"
    using bitmap_create_blocks [of km "nmap t"] km bitmap_size lay(5) by (simp add: nmap_def)
  let ?s1 = "?s0\<lparr>sfs_device := dev, sfs_super := sfs_super t, sfs_freemap := \<lparr>bm_nbits = bm_nbits (sfs_freemap t), bm_v = replicate (512 * nmap t) 0\<rparr>\<rparr>"
  let ?t = "t\<lparr>sfs_device := dev\<rparr>"
  have si': "sinv ?t" using sinv_device [OF si r(1,2)] r(3) by simp
  have "concat (map (\<lambda>k. sdisk t ! (2 + k)) [0..<nmap t]) = concat (map (\<lambda>k. take 512 (drop (512 * k) (bm_v (sfs_freemap t)))) [0..<nmap t])"
    by (intro arg_cong [where f = concat] map_cong) (use lay(7) in auto)
  also have "\<dots> = bm_v (sfs_freemap t)" by (rule concat_slices [OF layout_map [OF si l]])
  finally have v: "concat (map (\<lambda>k. sdisk t ! (2 + k)) [0..<nmap t]) = bm_v (sfs_freemap t)" .
  from mapio_read_ok [OF si', of ?s1 0 "nmap t" "nmap t"] lay(4) v r(3) obtain dev' where
    m: "sfs_mapio UIO_READ ?s1 = Some (Inr (), ?s1\<lparr>sfs_device := dev', sfs_freemap := sfs_freemap t\<rparr>)" "lhd_inv dev'" "lhd_good dev'" "hd_sectors dev' = sdisk t"
    by (auto simp: sfs_mapio_def nmap_def)
  have "sfs_domount km (sfs_device t) = Some (Inr (?s1\<lparr>sfs_device := dev', sfs_freemap := sfs_freemap t\<rparr>), dev')"
    using bs km r0 len(2) lay(2) vn cr m(1) by (simp add: sfs_domount_def array_create_def)
  moreover have "?s1\<lparr>sfs_device := dev', sfs_freemap := sfs_freemap t\<rparr> = t\<lparr>sfs_vnodes := ?vs, sfs_heap := (\<lambda>_. None), sfs_device := dev'\<rparr>"
    using dirty by (cases t) simp
  ultimately show ?thesis using m(2-4) by auto
qed

section \<open>An example volume\<close>

text \<open>A volume of six blocks, of which 0, 1 and 2 are in use, with an empty root directory in memory; nothing has been written yet.\<close>
definition rootdir_ex :: sfs_vnode where
  "rootdir_ex = \<lparr>sv_ops = sfs_dirops, sv_refcount = 1, sv_opencount = 0,
     sv_i = \<lparr>sfi_size = 0, sfi_type = 2, sfi_linkcount = 1, sfi_direct = replicate 15 0, sfi_indirect = 0, sfi_waste = replicate 110 0\<rparr>,
     sv_ino = 1, sv_dirty = True\<rparr>"

definition vol_ex :: sfs_fs where
  "vol_ex = sfs_ex\<lparr>sfs_vnodes := \<lparr>a_num = 1, a_max = 1, a_v = Some [Val 100]\<rparr>, sfs_heap := [100 \<mapsto> rootdir_ex], sfs_superdirty := True,
     sfs_freemap := \<lparr>bm_nbits = 4096, bm_v = 0xc7 # replicate 511 0xff\<rparr>, sfs_freemapdirty := True\<rparr>"

lemma vol_ex_used: "sused vol_ex = {0, 1, 2} \<union> {6..<4096}"
proof -
  have "bm_bit (0xc7 # replicate 511 0xff) i \<longleftrightarrow> i \<in> {0, 1, 2} \<union> {6..<4096}" if "i < 4096" for i
  proof (cases "i < 8")
    case True
    then have "i \<in> {0, 1, 2, 3, 4, 5, 6, 7}" by auto
    then show ?thesis by (auto simp: bm_bit_def)
  next
    case False
    have "bit (0xff :: u8) j" if "j < 8" for j using that by (auto simp: less_Suc_eq eval_nat_numeral)
    then show ?thesis using False that by (simp add: bm_bit_def nth_Cons')
  qed
  then show ?thesis by (auto simp: vol_ex_def bm_used_def)
qed

lemma vol_ex_ok: "volume vol_ex [1 \<mapsto> sv_i rootdir_ex]" "layout vol_ex [1 \<mapsto> sv_i rootdir_ex]" "nmap vol_ex = 1"
proof -
  let ?im = "[1 \<mapsto> sv_i rootdir_ex] :: u32 \<Rightarrow> sfs_inode option"
  have "sinv sfs_ex" using ex_vinv by (simp add: vinv_def)
  then have si: "sinv vol_ex" unfolding sinv_def vol_ex_used by (simp add: vol_ex_def sfs_ex_def bm_inv_def) auto
  have live: "slive vol_ex = {0, 1, 2}" unfolding slive_def vol_ex_used by (auto simp: vol_ex_def sfs_ex_def)
  have vl: "vlist vol_ex = [100]" by (simp add: vlist_def vol_ex_def arr_list_def vblock_def)
  have m: "fmap dd (sv_i rootdir_ex) k = 0" if "k < 143" for k dd using that by (simp add: fmap_def rootdir_ex_def)
  then have fb: "fblocks dd (sv_i rootdir_ex) = {}" for dd by (auto simp: fblocks_def rootdir_ex_def)
  have fi: "finv (sdisk vol_ex) (slive vol_ex) (sv_i rootdir_ex)" using m fb by (simp add: finv_def inode_wf_def) (simp add: rootdir_ex_def)
  have bl: "blocks_ok vol_ex ?im" using fi fb live by (auto simp: blocks_ok_def split: if_splits)
  have vn: "vn_ok vol_ex ?im rootdir_ex" by (simp add: vn_ok_def load_ops_def rootdir_ex_def)
  have ho: "ka.holds (sfs_vnodes vol_ex) [100]" by (simp add: ka.holds_def vol_ex_def arr_inv_def arr_list_def vblock_def)
  have "vtable vol_ex ?im"
    using ho vn by (auto simp: vtable_def vl loaded_def ino_at_def split: if_splits) (auto simp: vol_ex_def rootdir_ex_def)
  then show "volume vol_ex ?im" using si bl by (simp add: volume_def)
  show n: "nmap vol_ex = 1" by (simp add: nmap_def SFS_BITBLOCKS_def SFS_BITMAPSIZE_def vol_ex_def sfs_ex_def)
  show "layout vol_ex ?im" unfolding layout_def n own_def
    by (simp add: fb) (simp add: vol_ex_def sfs_ex_def super_wf_def SFS_BITMAPSIZE_def)
qed

section \<open>Properties\<close>

text \<open>
  C6. Synchronising a volume on a disk without errors succeeds and puts everything on the disk:
  mounting the device again gives a volume with the same superblock, the same free blocks and
  exactly the same files, the root directory among them, and no vnode in memory. It can be
  unmounted at once.
\<close>
theorem sfs_sync_remount:
  assumes v: "volume sfs im" and l: "layout sfs im" and km: "\<forall>b\<in>{552, 12, 8, of_nat (512 * nmap sfs)}. km b"
  shows "\<exists>s1 s2 dev. sfs_sync sfs = Some (Inr (), s1) \<and> volume s1 im \<and> sfs_domount km (sfs_device s1) = Some (Inr s2, dev)
    \<and> volume s2 im \<and> loaded s2 = {} \<and> (\<forall>ino i. im ino = Some i \<longrightarrow> bytes_of s1 i = bytes_of sfs i \<and> bytes_of s2 i = bytes_of sfs i)
    \<and> sfs_super s2 = sfs_super sfs \<and> sfs_freemap s2 = sfs_freemap sfs \<and> sfs_unmount s2 = Some (Inr dev)"
proof -
  from sfs_sync_ok [OF v l] obtain s1 where s1: "sfs_sync sfs = Some (Inr (), s1)" "volume s1 im" "layout s1 im" "clean s1 im" "same_bytes im sfs s1"
    "sfs_super s1 = sfs_super sfs" "sfs_freemap s1 = sfs_freemap sfs" by blast
  have si: "sinv s1" using s1(2) by (simp add: volume_def)
  have "nmap s1 = nmap sfs" by (simp add: nmap_def s1(6))
  from sfs_domount_ok [OF si s1(3,4), of km] this km obtain dev where
    d: "sfs_domount km (sfs_device s1) = Some (Inr (s1\<lparr>sfs_vnodes := \<lparr>a_num = 0, a_max = 0, a_v = None\<rparr>, sfs_heap := (\<lambda>_. None), sfs_device := dev\<rparr>), dev)"
      "lhd_inv dev" "lhd_good dev" "hd_sectors dev = sdisk s1" by auto
  let ?s2 = "s1\<lparr>sfs_vnodes := \<lparr>a_num = 0, a_max = 0, a_v = None\<rparr>, sfs_heap := (\<lambda>_. None), sfs_device := dev\<rparr>"
  have disk: "sdisk ?s2 = sdisk s1" "slive ?s2 = slive s1" using d(4) by (simp_all add: slive_def)
  have vl: "vlist ?s2 = []" by (simp add: vlist_def arr_list_def vblock_def)
  have "sinv ?s2" using sinv_device [OF si d(2,3)] d(4) by (simp add: sinv_def)
  moreover have "blocks_ok ?s2 im" using s1(2) unfolding volume_def blocks_ok_def disk by blast
  moreover have "ka.holds (sfs_vnodes ?s2) []" by (simp add: ka.holds_def arr_inv_def arr_list_def vblock_def)
  then have "vtable ?s2 im" using s1(4) unfolding vtable_def vl by (simp add: clean_def disk [simplified])
  ultimately have "volume ?s2 im" by (simp add: volume_def)
  moreover have "loaded ?s2 = {}" unfolding loaded_def vl by simp
  moreover have "bytes_of ?s2 i = bytes_of s1 i" for i unfolding bytes_of_def disk ..
  moreover have "sfs_unmount ?s2 = Some (Inr dev)" using s1(4) by (simp add: sfs_unmount_def array_getnum_def clean_def)
  ultimately show ?thesis using s1(1,2,5-7) d(1) by (intro exI [of _ s1] exI [of _ ?s2] exI [of _ dev]) (simp add: same_bytes_def)
qed

theorem sfs_sync_remount_witness:
  "\<exists>s1 s2 dev. sfs_sync vol_ex = Some (Inr (), s1) \<and> sfs_domount km_ex (sfs_device s1) = Some (Inr s2, dev) \<and> sfs_freemap s2 = sfs_freemap vol_ex"
proof -
  have "\<forall>b\<in>{552, 12, 8, of_nat (512 * nmap vol_ex)}. km_ex b" by (simp add: vol_ex_ok(3) km_ex_def)
  from sfs_sync_remount [OF vol_ex_ok(1,2) this] show ?thesis by blast
qed

end
