(* ===== verification/Spec2Isabelle.thy ===== *)
theory Spec2Isabelle
  imports Kern_Hashtable Sfs_Fs
begin

text \<open>
  Verification of the OS/161 kernel under \<^verbatim>\<open>src/os161\<close>.

  \<^bold>\<open>The program.\<close> The kernel has library code (queues, arrays, bitmaps, a hash table, the
  heap), threads with semaphores, locks and condition variables, a virtual file system
  layer, the simple file system SFS on the LAMEbus disk, and the system calls; the libraries
  are used by all the others.

  \<^bold>\<open>Theories.\<close>
  \<^item> \<open>Kern_Prelude\<close>: machine integers, error numbers (\<^verbatim>\<open>kern/include/kern/errno.h\<close>), memory
    cells and checked indexing.
  \<^item> \<open>Kern_Queue\<close>: \<^verbatim>\<open>kern/lib/queue.c\<close>; contract \<open>fifo\<close>.
\<close>

end
